(* ===== verification/Prelude.thy ===== *)
theory Prelude
  imports Complex_Main "HOL-Library.Word"
begin

text \<open>
  Shared vocabulary of the development: the machine integers of the C sources, the outcome
  type of a kernel function, the loop combinators the components use to translate the C
  \<open>for\<close> loops, and the interface (a locale) of a component whose operations keep an
  invariant.

  A kernel function is a function from the state to an \<open>outcome\<close>:
  \<^item> \<open>Ok x s\<close>: it returned \<open>x\<close> and left the state \<open>s\<close>;
  \<^item> \<open>Panic msg\<close>: it called \<^verbatim>\<open>panic(msg)\<close>, which never returns;
  \<^item> \<open>Sleep c s\<close>: it went to sleep on the channel \<open>c\<close>, leaving the state \<open>s\<close> to the
    other processes (the \<^verbatim>\<open>sleep(chan, lk)\<close> of \<^verbatim>\<open>kernel/proc.c\<close>);
  \<^item> \<open>Undef msg\<close>: C gives the execution no meaning (a null or dangling dereference, an
    index outside an array).
\<close>

unbundle bit_operations_syntax

type_synonym u8 = "8 word"
type_synonym u16 = "16 word"
type_synonym u32 = "32 word"
type_synonym u64 = "64 word"
type_synonym cint = "32 word"
type_synonym cshort = "16 word"

named_theorems res_simps \<open>how the outcome of a sequence of calls is made up\<close>
named_theorems frame \<open>what an operation leaves unchanged\<close>

section \<open>Machine integers\<close>

lemma unat_u64: "unat (a :: u64) < 2 ^ 64"
  using unsigned_less[of a] by simp

lemma unat_u32: "unat (a :: u32) < 2 ^ 32"
  using unsigned_less[of a] by simp

lemma unat_add_u64: "unat a + unat b < 2 ^ 64 \<Longrightarrow> unat (a + b) = unat a + unat b" for a b :: u64
  by (simp add: unat_word_ariths)

lemma unat_of_nat_u64: "n < 2 ^ 64 \<Longrightarrow> unat (of_nat n :: u64) = n"
  by (simp add: unat_of_nat)

lemma of_nat_inj_u64: "(of_nat n :: u64) = of_nat k \<longleftrightarrow> n = k" if "n < 2 ^ 64" "k < 2 ^ 64"
  using that by (metis unat_of_nat_u64)

lemma unat_diff_swap: "a \<noteq> b \<Longrightarrow> unat (a - b) = 2 ^ 64 - unat (b - a)" for a b :: u64
  using unat_u64[of a] unat_u64[of b]
  by (auto simp: unat_sub_if' word_unat_eq_iff)

lemma sint_cint: "- (2 ^ 31) \<le> sint (c :: cint)" "sint (c :: cint) < 2 ^ 31"
  using sint_ge[of c] sint_lt[of c] by simp_all

text \<open>The result of signed arithmetic: C gives it no meaning outside the range of \<^verbatim>\<open>int\<close>.\<close>

definition int_fits :: "int \<Rightarrow> cint option" where
  "int_fits i = (if - (2 ^ 31) \<le> i \<and> i < 2 ^ 31 then Some (word_of_int i) else None)"

lemma int_fits_Some: "int_fits i = Some c \<longleftrightarrow> - (2 ^ 31) \<le> i \<and> i < 2 ^ 31 \<and> sint c = i"
proof -
  have "sint (word_of_int i :: cint) = i" if "- (2 ^ 31) \<le> i" "i < 2 ^ 31"
    using that by (simp add: sint_sbintrunc' signed_take_bit_int_eq_self)
  then show ?thesis by (auto simp: int_fits_def)
qed

lemma int_fits_None: "int_fits i = None \<longleftrightarrow> i < - (2 ^ 31) \<or> 2 ^ 31 \<le> i"
  by (auto simp: int_fits_def)

lemma sint_dec: "0 < sint c \<Longrightarrow> sint (c - 1) = sint c - 1" for c :: cint
  using sint_cint[of c] by (simp add: sint_word_ariths signed_take_bit_int_eq_self)

lemma sint_inc: "sint c < 2 ^ 31 - 1 \<Longrightarrow> sint (c + 1) = sint c + 1" for c :: cint
  using sint_cint[of c] by (simp add: sint_word_ariths signed_take_bit_int_eq_self)

lemma sint_eq_iff: "sint a = sint b \<longleftrightarrow> a = b" for a b :: cint
  by (metis scast_eq scast_id)

section \<open>Sleep channels\<close>

text \<open>
  A channel is the address of a kernel object. One constructor per object the code sleeps
  on: \<^verbatim>\<open>&ticks\<close>, \<^verbatim>\<open>&log\<close>, a \<^verbatim>\<open>struct proc\<close>, a sleep lock, the two counters of a
  pipe, the console read index, the UART read index, the descriptor ring of the disk and a
  disk buffer.
\<close>

datatype chan =
    Ch_ticks
  | Ch_log
  | Ch_proc nat
  | Ch_buflock nat
  | Ch_inodelock nat
  | Ch_nread u64
  | Ch_nwrite u64
  | Ch_cons
  | Ch_uart
  | Ch_disk
  | Ch_buf nat

section \<open>Outcomes\<close>

datatype ('s, 'a) res =
    Ok 'a 's
  | Panic string
  | Sleep chan 's
  | Undef string

fun bnd :: "('s, 'a) res \<Rightarrow> ('a \<Rightarrow> 's \<Rightarrow> ('s, 'b) res) \<Rightarrow> ('s, 'b) res" where
  "bnd (Ok x s) f = f x s"
| "bnd (Panic e) f = Panic e"
| "bnd (Sleep c s) f = Sleep c s"
| "bnd (Undef e) f = Undef e"

lemma bnd_cong [fundef_cong]:
  "r = r' \<Longrightarrow> (\<And>x s. r' = Ok x s \<Longrightarrow> f x s = g x s) \<Longrightarrow> bnd r f = bnd r' g"
  by (cases r') auto

lemma bnd_Ok_iff [res_simps]:
  "bnd r f = Ok y t \<longleftrightarrow> (\<exists>x s. r = Ok x s \<and> f x s = Ok y t)"
  by (cases r) auto

lemma bnd_Panic_iff [res_simps]:
  "bnd r f = Panic e \<longleftrightarrow> r = Panic e \<or> (\<exists>x s. r = Ok x s \<and> f x s = Panic e)"
  by (cases r) auto

lemma bnd_Undef_iff [res_simps]:
  "bnd r f = Undef e \<longleftrightarrow> r = Undef e \<or> (\<exists>x s. r = Ok x s \<and> f x s = Undef e)"
  by (cases r) auto

lemma bnd_Sleep_iff [res_simps]:
  "bnd r f = Sleep c t \<longleftrightarrow> r = Sleep c t \<or> (\<exists>x s. r = Ok x s \<and> f x s = Sleep c t)"
  by (cases r) auto

lemma bnd_Ok_E:
  assumes "bnd r f = Ok y t"
  obtains x s where "r = Ok x s" and "f x s = Ok y t"
  using assms by (auto simp: bnd_Ok_iff)

lemma bnd_assoc: "bnd (bnd r f) g = bnd r (\<lambda>x s. bnd (f x s) g)"
  by (cases r) auto

text \<open>The outcomes that give control back to the caller.\<close>

fun returns :: "('s, 'a) res \<Rightarrow> bool" where
  "returns (Ok x s) = True"
| "returns _ = False"

lemma returnsE:
  assumes "returns r"
  obtains x s where "r = Ok x s"
  using assms by (cases r) auto

fun final :: "('s, 'a) res \<Rightarrow> 's option" where
  "final (Ok x s) = Some s"
| "final (Sleep c s) = Some s"
| "final _ = None"

section \<open>Loops over a list of indices\<close>

text \<open>\<open>loop body is s\<close> is \<^verbatim>\<open>for i in is: body(i)\<close>, stopped by the first outcome that is not \<open>Ok\<close>.\<close>

fun loop :: "('i \<Rightarrow> 's \<Rightarrow> ('s, unit) res) \<Rightarrow> 'i list \<Rightarrow> 's \<Rightarrow> ('s, unit) res" where
  "loop body [] s = Ok () s"
| "loop body (i # is) s = bnd (body i s) (\<lambda>_ s. loop body is s)"

lemma loop_append: "loop body (xs @ ys) s = bnd (loop body xs s) (\<lambda>_ s. loop body ys s)"
proof (induction xs arbitrary: s)
  case Nil
  then show ?case by simp
next
  case (Cons i xs)
  then have "loop body (xs @ ys) = (\<lambda>s. bnd (loop body xs s) (\<lambda>_ s. loop body ys s))"
    by (intro ext)
  then show ?case by (simp add: bnd_assoc)
qed

lemma loop_inv:
  assumes "loop body xs s = Ok u t" and "P s"
    and "\<And>i s u t. i \<in> set xs \<Longrightarrow> P s \<Longrightarrow> body i s = Ok u t \<Longrightarrow> P t"
  shows "P t"
  using assms
proof (induction xs arbitrary: s)
  case Nil
  then show ?case by simp
next
  case (Cons i xs)
  from Cons.prems(1) obtain v s1 where b: "body i s = Ok v s1" and l: "loop body xs s1 = Ok u t"
    by (auto simp: bnd_Ok_iff)
  from b Cons.prems have "P s1" by auto
  show ?case
    by (rule Cons.IH[OF l \<open>P s1\<close>]) (meson Cons.prems(3) list.set_intros(2))
qed

text \<open>The search loops of the kernel: the first index below \<open>n\<close> that passes a test.\<close>

fun first_from :: "(nat \<Rightarrow> bool) \<Rightarrow> nat \<Rightarrow> nat \<Rightarrow> nat option" where
  "first_from P i 0 = None"
| "first_from P i (Suc k) = (if P i then Some i else first_from P (Suc i) k)"

definition first_index :: "(nat \<Rightarrow> bool) \<Rightarrow> nat \<Rightarrow> nat option" where
  "first_index P n = first_from P 0 n"

lemma first_from_Some:
  "first_from P i k = Some j \<Longrightarrow> i \<le> j \<and> j < i + k \<and> P j \<and> (\<forall>l. i \<le> l \<and> l < j \<longrightarrow> \<not> P l)"
proof (induction k arbitrary: i)
  case 0
  then show ?case by simp
next
  case (Suc k)
  show ?case
  proof (cases "P i")
    case True
    with Suc.prems show ?thesis by auto
  next
    case False
    with Suc.prems have "first_from P (Suc i) k = Some j" by simp
    from Suc.IH[OF this] have
      h: "Suc i \<le> j" "j < Suc i + k" "P j" "\<forall>l. Suc i \<le> l \<and> l < j \<longrightarrow> \<not> P l" by auto
    have "\<not> P l" if "i \<le> l" "l < j" for l
      using h(4) that False by (cases "l = i") auto
    with h show ?thesis by auto
  qed
qed

lemma first_from_None: "first_from P i k = None \<longleftrightarrow> (\<forall>l. i \<le> l \<and> l < i + k \<longrightarrow> \<not> P l)"
proof (induction k arbitrary: i)
  case 0
  then show ?case by auto
next
  case (Suc k)
  have "(i \<le> l \<and> l < i + Suc k) = (l = i \<or> Suc i \<le> l \<and> l < Suc i + k)" for l
    by auto
  with Suc show ?case by auto
qed

lemma first_index_Some:
  "first_index P n = Some j \<Longrightarrow> j < n \<and> P j \<and> (\<forall>l < j. \<not> P l)"
  using first_from_Some[of P 0 n j] by (auto simp: first_index_def)

lemma first_index_None: "first_index P n = None \<longleftrightarrow> (\<forall>l < n. \<not> P l)"
  using first_from_None[of P 0 n] by (auto simp: first_index_def)

lemma first_index_exists: "j < n \<Longrightarrow> P j \<Longrightarrow> \<exists>i. first_index P n = Some i \<and> i \<le> j"
proof -
  assume a: "j < n" "P j"
  then obtain i where i: "first_index P n = Some i"
    using first_index_None by (cases "first_index P n") auto
  with a first_index_Some[OF i] have "i \<le> j" by (meson not_less)
  with i show ?thesis by blast
qed

section \<open>Components that keep an invariant\<close>

text \<open>
  The interface of a component given as a transition relation: a starting state, the steps
  its operations can take, and an invariant that the start has and every step keeps. Its
  reachable states are the states of every run of the component.
\<close>

locale invariant_system =
  fixes init :: "'s \<Rightarrow> bool" and step :: "'s \<Rightarrow> 's \<Rightarrow> bool" and inv :: "'s \<Rightarrow> bool"
  assumes inv_init: "init s \<Longrightarrow> inv s"
    and inv_step: "step s t \<Longrightarrow> inv s \<Longrightarrow> inv t"
begin

lemma inv_steps: "step\<^sup>*\<^sup>* s t \<Longrightarrow> inv s \<Longrightarrow> inv t"
  by (induction rule: rtranclp_induct) (auto intro: inv_step)

lemma inv_reachable: "init s \<Longrightarrow> step\<^sup>*\<^sup>* s t \<Longrightarrow> inv t"
  using inv_init inv_steps by blast

end

end
