(* ===== verification/Riscv.thy ===== *)
theory Riscv
  imports Prelude
begin

text \<open>
  The constants and the address arithmetic of \<^verbatim>\<open>kernel/riscv.h\<close>, \<^verbatim>\<open>kernel/memlayout.h\<close> and
  \<^verbatim>\<open>kernel/param.h\<close>: page rounding, the fields of an Sv39 page-table entry, the three table
  indices of a virtual address, and the memory layout. The lemmas read each macro as
  arithmetic on natural numbers, and show that packing a page address and its permission
  bits into an entry loses neither.
\<close>

section \<open>Sizes\<close>

abbreviation (input) NPROC :: nat where "NPROC \<equiv> 64"
abbreviation (input) NCPU :: nat where "NCPU \<equiv> 8"
abbreviation (input) NOFILE :: nat where "NOFILE \<equiv> 16"
abbreviation (input) NFILE :: nat where "NFILE \<equiv> 100"
abbreviation (input) NINODE :: nat where "NINODE \<equiv> 50"
abbreviation (input) NDEV :: nat where "NDEV \<equiv> 10"
abbreviation (input) ROOTDEV :: u32 where "ROOTDEV \<equiv> 1"
abbreviation (input) MAXARG :: nat where "MAXARG \<equiv> 32"
abbreviation (input) MAXOPBLOCKS :: nat where "MAXOPBLOCKS \<equiv> 10"
abbreviation (input) LOGSIZE :: nat where "LOGSIZE \<equiv> MAXOPBLOCKS * 3"
abbreviation (input) NBUF :: nat where "NBUF \<equiv> MAXOPBLOCKS * 3"
abbreviation (input) FSSIZE :: nat where "FSSIZE \<equiv> 2000"
abbreviation (input) MAXPATH :: nat where "MAXPATH \<equiv> 128"

abbreviation (input) PGSIZE :: u64 where "PGSIZE \<equiv> 4096"
abbreviation (input) PGSIZE_nat :: nat where "PGSIZE_nat \<equiv> 4096"

section \<open>Memory layout\<close>

abbreviation (input) UART0 :: u64 where "UART0 \<equiv> 0x10000000"
abbreviation (input) VIRTIO0 :: u64 where "VIRTIO0 \<equiv> 0x10001000"
abbreviation (input) PLIC :: u64 where "PLIC \<equiv> 0x0c000000"
abbreviation (input) KERNBASE :: u64 where "KERNBASE \<equiv> 0x80000000"
abbreviation (input) PHYSTOP :: u64 where "PHYSTOP \<equiv> 0x88000000"
abbreviation (input) MAXVA :: u64 where "MAXVA \<equiv> 0x4000000000"
abbreviation (input) TRAMPOLINE :: u64 where "TRAMPOLINE \<equiv> MAXVA - PGSIZE"
abbreviation (input) TRAPFRAME :: u64 where "TRAPFRAME \<equiv> TRAMPOLINE - PGSIZE"

definition KSTACK :: "nat \<Rightarrow> u64" where
  "KSTACK p = TRAMPOLINE - (of_nat p + 1) * 2 * PGSIZE"

section \<open>Page rounding\<close>

definition PGROUNDDOWN :: "u64 \<Rightarrow> u64" where
  "PGROUNDDOWN a = a AND NOT (PGSIZE - 1)"

definition PGROUNDUP :: "u64 \<Rightarrow> u64" where
  "PGROUNDUP sz = (sz + PGSIZE - 1) AND NOT (PGSIZE - 1)"

definition aligned :: "u64 \<Rightarrow> bool" where
  "aligned a \<longleftrightarrow> unat a mod PGSIZE_nat = 0"

lemma alignedE:
  assumes "aligned a"
  obtains k where "unat a = 4096 * k"
  using assms by (auto simp: aligned_def)

lemma and_minus_4096: "unat (a AND (- 4096 :: u64)) = unat a div 4096 * 4096"
proof -
  have "a AND (- 4096 :: u64) = push_bit 12 (drop_bit 12 a)"
  proof -
    have e: "(- 4096 :: u64) = NOT (mask 12)" by (simp add: mask_eq_exp_minus_1)
    show ?thesis
      unfolding e by (intro bit_word_eqI) (auto simp: bit_simps)
  qed
  also have "unat \<dots> = unat a div 4096 * 4096"
  proof -
    have "unat (drop_bit 12 a) = unat a div 2 ^ 12"
      unfolding unat_drop_bit_eq by (simp add: drop_bit_eq_div)
    moreover have "unat a div 4096 * 4096 < 2 ^ 64"
      using unat_u64[of a] div_times_less_eq_dividend[of "unat a" 4096]
      by (simp del: div_times_less_eq_dividend)
    ultimately show ?thesis
      by (simp add: push_bit_eq_mult unat_word_ariths)
  qed
  finally show ?thesis .
qed

lemma unat_PGROUNDDOWN: "unat (PGROUNDDOWN a) = unat a div 4096 * 4096"
  by (simp add: PGROUNDDOWN_def and_minus_4096)

lemma unat_PGROUNDUP:
  assumes "unat sz + 4095 < 2 ^ 64"
  shows "unat (PGROUNDUP sz) = (unat sz + 4095) div 4096 * 4096"
proof -
  have "unat (4095 + sz) = unat sz + 4095"
    using assms by (simp add: unat_word_ariths)
  then show ?thesis
    unfolding PGROUNDUP_def by (simp add: and_minus_4096)
qed

lemma aligned_PGROUNDDOWN [simp]: "aligned (PGROUNDDOWN a)"
  by (simp add: aligned_def unat_PGROUNDDOWN)

lemma aligned_PGROUNDUP [simp]: "aligned (PGROUNDUP a)"
  by (simp add: aligned_def PGROUNDUP_def and_minus_4096)

lemma PGROUNDDOWN_le: "PGROUNDDOWN a \<le> a"
  by (simp add: word_le_nat_alt unat_PGROUNDDOWN)

lemma PGROUNDDOWN_aligned: "aligned a \<Longrightarrow> PGROUNDDOWN a = a"
  by (rule word_unat_eq_iff[THEN iffD2])
    (auto simp: aligned_def unat_PGROUNDDOWN dvd_eq_mod_eq_0[symmetric])


section \<open>Page-table entries\<close>

abbreviation (input) PTE_V :: u64 where "PTE_V \<equiv> 1"
abbreviation (input) PTE_R :: u64 where "PTE_R \<equiv> 2"
abbreviation (input) PTE_W :: u64 where "PTE_W \<equiv> 4"
abbreviation (input) PTE_X :: u64 where "PTE_X \<equiv> 8"
abbreviation (input) PTE_U :: u64 where "PTE_U \<equiv> 16"

definition PA2PTE :: "u64 \<Rightarrow> u64" where
  "PA2PTE pa = push_bit 10 (drop_bit 12 pa)"

definition PTE2PA :: "u64 \<Rightarrow> u64" where
  "PTE2PA pte = push_bit 12 (drop_bit 10 pte)"

definition PTE_FLAGS :: "u64 \<Rightarrow> u64" where
  "PTE_FLAGS pte = pte AND 0x3FF"

definition PX :: "nat \<Rightarrow> u64 \<Rightarrow> u64" where
  "PX level va = drop_bit (12 + 9 * level) va AND 0x1FF"

definition MAKE_SATP :: "u64 \<Rightarrow> u64" where
  "MAKE_SATP pagetable = push_bit 60 8 OR drop_bit 12 pagetable"

text \<open>Whether an entry has a flag, as the C tests \<^verbatim>\<open>(*pte & PTE_V) != 0\<close> read it.\<close>

definition has :: "u64 \<Rightarrow> u64 \<Rightarrow> bool" where
  "has pte flag \<longleftrightarrow> pte AND flag \<noteq> 0"

lemma mask_10: "(0x3FF::u64) = mask 10" and mask_9: "(0x1FF::u64) = mask 9"
  by (simp_all add: mask_eq_exp_minus_1)

lemma flag_bits:
  "(1::u64) = push_bit 0 1" "(2::u64) = push_bit 1 1" "(4::u64) = push_bit 2 1"
  "(8::u64) = push_bit 3 1" "(16::u64) = push_bit 4 1"
  by simp_all

lemma and_exp_iff_bit: "w AND push_bit n 1 \<noteq> 0 \<longleftrightarrow> bit w n" if "n < 64" for w :: u64
proof -
  have "bit (w AND push_bit n 1) k \<longleftrightarrow> bit w n \<and> k = n" for k
    using that by (auto simp: bit_simps bit_1_iff)
  then show ?thesis
    by (metis bit_0_eq bot_apply bot_bool_def bit_eq_iff)
qed

lemma has_bit [simp]:
  "has w 1 \<longleftrightarrow> bit w 0" "has w 2 \<longleftrightarrow> bit w 1" "has w 4 \<longleftrightarrow> bit w 2"
  "has w 8 \<longleftrightarrow> bit w 3" "has w 16 \<longleftrightarrow> bit w 4"
  unfolding has_def using and_exp_iff_bit[of 0 w] and_exp_iff_bit[of 1 w]
    and_exp_iff_bit[of 2 w] and_exp_iff_bit[of 3 w] and_exp_iff_bit[of 4 w]
  by simp_all

lemma aligned_bit: "aligned a \<Longrightarrow> n < 12 \<Longrightarrow> \<not> bit a n"
proof -
  assume a: "aligned a" and n: "n < 12"
  have "take_bit 12 (unat a) = 0"
    using a by (simp add: aligned_def take_bit_eq_mod)
  then have "\<not> bit (unat a) n"
    using n by (metis bit_0_eq bit_take_bit_iff bot_apply bot_bool_def)
  then show ?thesis by (simp add: bit_unsigned_iff)
qed

lemma bit_le_exp: "unat a < 2 ^ k \<Longrightarrow> k \<le> n \<Longrightarrow> \<not> bit a n" for a :: u64
proof -
  assume a: "unat a < 2 ^ k" and n: "k \<le> n"
  have "take_bit k (unat a) = unat a" using a by (simp add: take_bit_nat_eq_self)
  then have "\<not> bit (unat a) n"
    using n by (metis bit_take_bit_iff not_less)
  then show ?thesis by (simp add: bit_unsigned_iff)
qed

text \<open>An entry gives back the page address and the permission bits it was made of.\<close>

lemma PTE2PA_PA2PTE:
  assumes "aligned pa" and "unat pa < 2 ^ 56" and "unat f < 2 ^ 10"
  shows "PTE2PA (PA2PTE pa OR f) = pa"
proof (rule bit_word_eqI)
  fix n assume "n < LENGTH(64)"
  then show "bit (PTE2PA (PA2PTE pa OR f)) n = bit pa n"
    using aligned_bit[OF assms(1), of n] bit_le_exp[OF assms(2), of n]
      bit_le_exp[OF assms(3), of "n - 2"]
    by (cases "n < 12"; cases "n < 56") (auto simp: PTE2PA_def PA2PTE_def bit_simps not_less)
qed

lemma PTE_FLAGS_PA2PTE:
  assumes "unat f < 2 ^ 10"
  shows "PTE_FLAGS (PA2PTE pa OR f) = f"
proof (rule bit_word_eqI)
  fix n assume "n < LENGTH(64)"
  then show "bit (PTE_FLAGS (PA2PTE pa OR f)) n = bit f n"
    using bit_le_exp[OF assms, of n]
    unfolding PTE_FLAGS_def PA2PTE_def mask_10 by (cases "n < 10") (auto simp: bit_simps)
qed

lemma bit_PTE_FLAGS: "bit (PTE_FLAGS e) n \<longleftrightarrow> n < 10 \<and> bit e n"
  unfolding PTE_FLAGS_def mask_10 by (auto simp: bit_simps)

lemma bit_PA2PTE: "n < 10 \<Longrightarrow> \<not> bit (PA2PTE pa) n"
  by (auto simp: PA2PTE_def bit_simps)

lemma aligned_PTE2PA [simp]: "aligned (PTE2PA pte)"
proof -
  have "PTE2PA pte AND mask 12 = 0"
    by (rule bit_word_eqI) (auto simp: PTE2PA_def bit_simps)
  then show ?thesis
    by (simp add: aligned_def and_mask_dvd_nat[symmetric] mod_eq_0_iff_dvd flip: and_mask_dvd_nat)
qed

lemma unat_PX: "unat (PX l va) = unat va div 2 ^ (12 + 9 * l) mod 512"
proof -
  have "unat (PX l va) = take_bit 9 (drop_bit (12 + 9 * l) (unat va))"
    unfolding PX_def mask_9 take_bit_eq_mask[symmetric]
    by (simp only: unsigned_take_bit_eq unat_drop_bit_eq)
  then show ?thesis by (simp add: take_bit_eq_mod drop_bit_eq_div)
qed

lemma PX_less: "unat (PX l va) < 512"
  by (simp add: unat_PX)

end
