(* ===== verification/Memory.thy ===== *)
theory Memory
  imports Riscv
begin

text \<open>
  Physical memory and the string routines of \<^verbatim>\<open>kernel/string.c\<close> (and their copies in
  \<^verbatim>\<open>user/ulib.c\<close>).

  Memory is a function from 64-bit addresses to bytes; \<open>load64\<close> and \<open>store64\<close> are the
  machine's little-endian doubleword accesses. The memory routines (\<open>memset\<close>, \<open>memcmp\<close>,
  \<open>memmove\<close>) work on memory, byte by byte in the order of the C loops. The string routines
  work on a character array given as the list of bytes from the pointer to the end of its
  object: following a pointer past that end has no meaning in C and is \<open>None\<close>.
\<close>

type_synonym memory = "u64 \<Rightarrow> u8"

section \<open>Doubleword access\<close>

definition mread :: "memory \<Rightarrow> u64 \<Rightarrow> nat \<Rightarrow> u8 list" where
  "mread m a n = map (\<lambda>i. m (a + of_nat i)) [0..<n]"

definition load64 :: "memory \<Rightarrow> u64 \<Rightarrow> u64" where
  "load64 m a = word_rcat (rev (mread m a 8))"

definition store64 :: "memory \<Rightarrow> u64 \<Rightarrow> u64 \<Rightarrow> memory" where
  "store64 m a v =
     (\<lambda>x. if unat (x - a) < 8 then ucast (drop_bit (8 * unat (x - a)) v) else m x)"

lemma length_mread [simp]: "length (mread m a n) = n"
  by (simp add: mread_def)

lemma nth_mread [simp]: "i < n \<Longrightarrow> mread m a n ! i = m (a + of_nat i)"
  by (simp add: mread_def)

lemma bit_load64: "bit (load64 m a) n \<longleftrightarrow> n < 64 \<and> bit (m (a + of_nat (n div 8))) (n mod 8)"
proof -
  have "bit (horner_sum uint (2 ^ LENGTH(8)) (mread m a 8)) n \<longleftrightarrow>
      n div 8 < 8 \<and> bit (mread m a 8 ! (n div 8)) (n mod 8)"
    using bit_horner_sum_uint_exp_iff[of "mread m a 8" n] by simp
  then show ?thesis
    by (auto simp: load64_def word_rcat_def bit_simps)
qed

lemma load64_cong: "(\<And>i. i < 8 \<Longrightarrow> m (a + of_nat i) = m' (a + of_nat i)) \<Longrightarrow> load64 m a = load64 m' a"
  by (rule bit_word_eqI) (simp add: bit_load64)

lemma load64_store64 [simp]: "load64 (store64 m a v) a = v"
proof (rule bit_word_eqI)
  fix n assume n: "n < LENGTH(64)"
  then have "unat (of_nat (n div 8) :: u64) = n div 8" by (intro unat_of_nat_u64) simp
  then have "store64 m a v (a + of_nat (n div 8)) = ucast (drop_bit (8 * (n div 8)) v)"
    using n by (simp add: store64_def less_mult_imp_div_less)
  then show "bit (load64 (store64 m a v) a) n = bit v n"
    using n by (simp add: bit_load64 bit_simps)
qed

text \<open>Two doublewords at least eight bytes apart do not overlap.\<close>

lemma load64_store64_disjoint:
  assumes "8 \<le> unat (b - a)" and "8 \<le> unat (a - b)"
  shows "load64 (store64 m a v) b = load64 m b"
proof (rule load64_cong)
  fix i :: nat assume i: "i < 8"
  have "\<not> unat (b + of_nat i - a) < 8"
  proof
    assume "unat (b + of_nat i - a) < 8"
    moreover have "b + of_nat i - a = (b - a) + of_nat i" by simp
    ultimately have l: "unat ((b - a) + of_nat i) < 8" by simp
    have "a \<noteq> b" using assms(1) by auto
    then have "unat (a - b) = 2 ^ 64 - unat (b - a)" by (rule unat_diff_swap)
    with assms(2) unat_u64[of "b - a"] have "unat (b - a) + i < 2 ^ 64" using i by linarith
    then have "unat ((b - a) + of_nat i) = unat (b - a) + i"
      using i by (simp add: unat_add_u64 unat_of_nat_u64)
    with l assms(1) show False by simp
  qed
  then show "store64 m a v (b + of_nat i) = m (b + of_nat i)" by (simp add: store64_def)
qed

section \<open>memset, memcmp, memmove\<close>

definition memset :: "memory \<Rightarrow> u64 \<Rightarrow> cint \<Rightarrow> nat \<Rightarrow> memory" where
  "memset m dst c n = fold (\<lambda>i m. m(dst + of_nat i := ucast c)) [0..<n] m"

lemma memset_eq:
  assumes "n \<le> 2 ^ 64"
  shows "memset m dst c n = (\<lambda>x. if unat (x - dst) < n then ucast c else m x)"
  using assms
proof (induction n)
  case 0
  then show ?case by (simp add: memset_def)
next
  case (Suc n)
  then have n: "unat (of_nat n :: u64) = n" by (simp add: unat_of_nat_u64)
  have "x = dst + of_nat n \<longleftrightarrow> unat (x - dst) = n" for x
    using n by auto
  then show ?case
    using Suc by (auto simp: memset_def fun_eq_iff less_Suc_eq)
qed

fun memcmp :: "memory \<Rightarrow> u64 \<Rightarrow> u64 \<Rightarrow> nat \<Rightarrow> int" where
  "memcmp m s1 s2 0 = 0"
| "memcmp m s1 s2 (Suc n) =
     (if m s1 \<noteq> m s2 then uint (m s1) - uint (m s2) else memcmp m (s1 + 1) (s2 + 1) n)"

text \<open>
  \<^verbatim>\<open>memmove\<close> copies from the end when the source starts below the destination and runs into
  it, and from the start otherwise.
\<close>

definition copy_byte :: "u64 \<Rightarrow> u64 \<Rightarrow> nat \<Rightarrow> memory \<Rightarrow> memory" where
  "copy_byte dst src i m = m(dst + of_nat i := m (src + of_nat i))"

definition memmove :: "memory \<Rightarrow> u64 \<Rightarrow> u64 \<Rightarrow> nat \<Rightarrow> memory" where
  "memmove m dst src n =
     (if n = 0 then m
      else if src < dst \<and> src + of_nat n > dst
      then fold (copy_byte dst src) (rev [0..<n]) m
      else fold (copy_byte dst src) [0..<n] m)"

definition memcpy :: "memory \<Rightarrow> u64 \<Rightarrow> u64 \<Rightarrow> nat \<Rightarrow> memory" where
  "memcpy m dst src n = memmove m dst src n"

text \<open>The \<^verbatim>\<open>memmove\<close> of \<^verbatim>\<open>user/ulib.c\<close> chooses the direction by \<^verbatim>\<open>src > dst\<close> alone.\<close>

definition ulib_memmove :: "memory \<Rightarrow> u64 \<Rightarrow> u64 \<Rightarrow> nat \<Rightarrow> memory" where
  "ulib_memmove m vdst vsrc n =
     (if vsrc > vdst
      then fold (copy_byte vdst vsrc) [0..<n] m
      else fold (copy_byte vdst vsrc) (rev [0..<n]) m)"

lemma unat_index:
  fixes a :: u64
  assumes "unat a + n \<le> 2 ^ 64" and "i < n"
  shows "unat (a + of_nat i) = unat a + i"
proof -
  have "unat (of_nat i :: u64) = i" using assms by (intro unat_of_nat_u64) simp
  then show ?thesis using assms unat_add_u64[of a "of_nat i"] by simp
qed

lemma diff_index:
  fixes a :: u64
  assumes "unat a + n \<le> 2 ^ 64" and "i < n"
  shows "x = a + of_nat i \<longleftrightarrow> unat (x - a) = i"
proof -
  have "unat (of_nat i :: u64) = i" using assms by (intro unat_of_nat_u64) simp
  then show ?thesis by auto
qed

lemma copy_forward:
  fixes s d :: u64
  assumes s: "unat s + n \<le> 2 ^ 64" and d: "unat d + n \<le> 2 ^ 64"
    and dir: "unat d \<le> unat s \<or> unat s + n \<le> unat d"
    and k: "k \<le> n"
  shows "fold (copy_byte d s) [0..<k] m
      = (\<lambda>x. if unat (x - d) < k then m (s + (x - d)) else m x)"
  using k
proof (induction k)
  case 0
  then show ?case by simp
next
  case (Suc k)
  let ?r = "\<lambda>x. if unat (x - d) < k then m (s + (x - d)) else m x"
  have i: "unat (s + of_nat k) = unat s + k" using Suc.prems s by (intro unat_index) auto
  have "\<not> unat (s + of_nat k - d) < k"
    using dir i Suc.prems unat_u64[of d] by (auto simp: unat_sub_if')
  then have r: "?r (s + of_nat k) = m (s + of_nat k)" by simp
  have e: "x = d + of_nat k \<longleftrightarrow> unat (x - d) = k" for x
    using Suc.prems d by (intro diff_index) auto
  have "fold (copy_byte d s) [0..<Suc k] m
      = ?r(d + of_nat k := m (s + of_nat k))"
    using Suc r by (simp add: copy_byte_def[of d s k])
  also have "\<dots> = (\<lambda>x. if unat (x - d) < Suc k then m (s + (x - d)) else m x)"
    using e by (auto simp: fun_eq_iff less_Suc_eq)
  finally show ?case .
qed

lemma copy_backward:
  fixes s d :: u64
  assumes s: "unat s + n \<le> 2 ^ 64" and d: "unat d + n \<le> 2 ^ 64"
    and dir: "unat s \<le> unat d"
    and k: "k \<le> n"
  shows "fold (copy_byte d s) (rev [n - k..<n]) m
      = (\<lambda>x. if n - k \<le> unat (x - d) \<and> unat (x - d) < n then m (s + (x - d)) else m x)"
  using k
proof (induction k)
  case 0
  then show ?case by (auto simp: fun_eq_iff)
next
  case (Suc k)
  define j where "j = n - Suc k"
  let ?r = "\<lambda>x. if n - k \<le> unat (x - d) \<and> unat (x - d) < n then m (s + (x - d)) else m x"
  have jn: "j < n" and jk: "n - k = Suc j" using Suc.prems by (auto simp: j_def)
  then have u: "[j..<n] = j # [n - k..<n]" by (simp add: upt_conv_Cons)
  have i: "unat (s + of_nat j) = unat s + j" using jn s by (intro unat_index) auto
  have "\<not> (n - k \<le> unat (s + of_nat j - d) \<and> unat (s + of_nat j - d) < n)"
    using dir i jn jk d unat_u64[of d] unat_u64[of s] by (auto simp: unat_sub_if')
  then have r: "?r (s + of_nat j) = m (s + of_nat j)" by auto
  have e: "x = d + of_nat j \<longleftrightarrow> unat (x - d) = j" for x
    using jn d by (intro diff_index) auto
  have "fold (copy_byte d s) (rev [j..<n]) m
      = ?r(d + of_nat j := m (s + of_nat j))"
    unfolding u using Suc r by (simp add: copy_byte_def[of d s j])
  also have "\<dots> = (\<lambda>x. if j \<le> unat (x - d) \<and> unat (x - d) < n then m (s + (x - d)) else m x)"
    using e jn jk by (auto simp: fun_eq_iff le_less)
  finally show ?case by (simp add: j_def)
qed


text \<open>
  Both directions copy every byte the source held before the call, overlap or not, as long
  as neither range wraps around the address space.
\<close>

lemma memmove_copies:
  assumes "unat src + n \<le> 2 ^ 64" and "unat dst + n \<le> 2 ^ 64"
  shows "memmove m dst src n = (\<lambda>x. if unat (x - dst) < n then m (src + (x - dst)) else m x)"
proof (cases "n = 0")
  case True
  then show ?thesis by (simp add: memmove_def)
next
  case n: False
  have bwd: "fold (copy_byte dst src) (rev [0..<n]) m
      = (\<lambda>x. if unat (x - dst) < n then m (src + (x - dst)) else m x)" if "unat src \<le> unat dst"
    using copy_backward[OF assms that order_refl, of m] by simp
  have fwd: "fold (copy_byte dst src) [0..<n] m
      = (\<lambda>x. if unat (x - dst) < n then m (src + (x - dst)) else m x)"
    if "unat dst \<le> unat src \<or> unat src + n \<le> unat dst"
    using copy_forward[OF assms that order_refl, of m] by simp
  have end_src: "unat (src + of_nat n) = (if unat src + n = 2 ^ 64 then 0 else unat src + n)"
    using assms(1) n by (auto simp: unat_word_ariths unat_of_nat mod_add_right_eq)
  show ?thesis
  proof (cases "src < dst \<and> src + of_nat n > dst")
    case True
    then have "unat src \<le> unat dst" by (simp add: word_less_nat_alt)
    with True n bwd show ?thesis by (simp add: memmove_def)
  next
    case False
    have "unat dst \<le> unat src \<or> unat src + n \<le> unat dst \<or> unat src + n = 2 ^ 64"
      using False end_src by (auto simp: word_less_nat_alt split: if_splits)
    then consider "unat dst \<le> unat src \<or> unat src + n \<le> unat dst" | "unat src + n = 2 ^ 64" "unat src < unat dst"
      by linarith
    then show ?thesis
    proof cases
      case 1
      with False n fwd show ?thesis unfolding memmove_def by auto
    next
      case 2
      with assms(2) have False by simp
      then show ?thesis ..
    qed
  qed
qed

lemma ulib_memmove_copies:
  assumes "unat src + n \<le> 2 ^ 64" and "unat dst + n \<le> 2 ^ 64"
  shows "ulib_memmove m dst src n = (\<lambda>x. if unat (x - dst) < n then m (src + (x - dst)) else m x)"
  using copy_backward[OF assms _ order_refl, of m] copy_forward[OF assms _ order_refl, of m]
  by (auto simp: ulib_memmove_def word_less_nat_alt)

section \<open>Memory by pages\<close>

lemma page_iff:
  assumes "aligned p"
  shows "unat (x - p) < 4096 \<longleftrightarrow> PGROUNDDOWN x = p"
proof -
  obtain k where k: "unat p = 4096 * k" using assms by (auto simp: aligned_def)
  have p: "unat p + 4096 \<le> 2 ^ 64" using unat_u64[of p] k by simp
  have "PGROUNDDOWN x = p \<longleftrightarrow> unat x div 4096 = k"
    by (auto simp: word_unat_eq_iff unat_PGROUNDDOWN k)
  moreover have "unat x div 4096 = k \<longleftrightarrow> 4096 * k \<le> unat x \<and> unat x < 4096 * k + 4096"
    by auto
  moreover have "unat (x - p) < 4096 \<longleftrightarrow> 4096 * k \<le> unat x \<and> unat x < 4096 * k + 4096"
    using k p unat_u64[of x] by (auto simp: unat_sub_if')
  ultimately show ?thesis by simp
qed

lemma memset_page:
  "aligned p \<Longrightarrow> memset m p c PGSIZE_nat = (\<lambda>x. if PGROUNDDOWN x = p then ucast c else m x)"
  by (simp add: memset_eq page_iff)

lemma memmove_page:
  assumes "aligned p" and "aligned q"
  shows "memmove m p q PGSIZE_nat = (\<lambda>x. if PGROUNDDOWN x = p then m (q + (x - p)) else m x)"
proof -
  have "unat a + 4096 \<le> 2 ^ 64" if "aligned a" for a :: u64
    using that unat_u64[of a] by (auto simp: aligned_def)
  then show ?thesis using assms by (simp add: memmove_copies page_iff)
qed

text \<open>The \<open>i\<close>th doubleword of the page at \<open>p\<close>, such as \<^verbatim>\<open>&pagetable[i]\<close>.\<close>

definition slot :: "u64 \<Rightarrow> u64 \<Rightarrow> u64" where
  "slot p i = p + 8 * i"

lemma slot_offset:
  assumes "unat i < 512" and "j < 8"
  shows "unat (8 * i + of_nat j :: u64) = 8 * unat i + j"
proof -
  have "unat (8 * i :: u64) = 8 * unat i" using assms(1) by (simp add: unat_word_ariths)
  moreover have "unat (of_nat j :: u64) = j" using assms(2) by (simp add: unat_of_nat_u64)
  ultimately show ?thesis using assms unat_add_u64[of "8 * i" "of_nat j"] by simp
qed

lemma slot_page:
  assumes "aligned p" and "unat i < 512" and "j < 8"
  shows "PGROUNDDOWN (slot p i + of_nat j) = p"
proof -
  have "unat (slot p i + of_nat j - p) < 4096"
    unfolding slot_def using slot_offset[OF assms(2,3)] assms(2,3) by simp
  then show ?thesis using assms(1) by (simp add: page_iff)
qed

lemma load64_page_cong:
  assumes "aligned p" and "unat i < 512" and "\<And>x. PGROUNDDOWN x = p \<Longrightarrow> m x = m' x"
  shows "load64 m (slot p i) = load64 m' (slot p i)"
  by (rule load64_cong) (use assms slot_page in auto)

lemma store64_other_page:
  assumes "aligned p" and "unat i < 512" and "PGROUNDDOWN x \<noteq> p"
  shows "store64 m (slot p i) v x = m x"
proof -
  have "\<not> unat (x - slot p i) < 8"
  proof
    assume l: "unat (x - slot p i) < 8"
    have "x = slot p i + of_nat (unat (x - slot p i))" by simp
    then have "PGROUNDDOWN x = p" using slot_page[OF assms(1,2) l] by simp
    with assms(3) show False ..
  qed
  then show ?thesis by (simp add: store64_def)
qed

lemma load64_store64_slot:
  assumes "aligned p" "aligned q" "unat i < 512" "unat k < 512"
  shows "load64 (store64 m (slot p i) v) (slot q k) = (if p = q \<and> i = k then v else load64 m (slot q k))"
proof (cases "p = q")
  case False
  then show ?thesis
    using assms by (auto intro!: load64_page_cong store64_other_page)
next
  case pq: True
  show ?thesis
  proof (cases "i = k")
    case True
    with pq show ?thesis by simp
  next
    case False
    have u: "unat (8 * i) = 8 * unat i" "unat (8 * k) = 8 * unat k"
      using assms(3,4) by (simp_all add: unat_word_ariths)
    have d: "slot p k - slot p i = 8 * k - 8 * i" "slot p i - slot p k = 8 * i - 8 * k"
      by (simp_all add: slot_def)
    have "unat i \<noteq> unat k" using False by (simp add: word_unat_eq_iff)
    then have "8 \<le> unat (slot p k - slot p i)" "8 \<le> unat (slot p i - slot p k)"
      using u assms(3,4) unfolding d by (auto simp: unat_sub_if')
    then show ?thesis using pq False by (simp add: load64_store64_disjoint)
  qed
qed

lemma load64_zero_page:
  assumes "aligned p" and "unat i < 512"
  shows "load64 (memset m p 0 PGSIZE_nat) (slot p i) = 0"
  using assms slot_page[OF assms]
  by (intro bit_word_eqI) (simp add: bit_load64 memset_page less_mult_imp_div_less)

section \<open>Strings\<close>

text \<open>
  \<^verbatim>\<open>strncmp(p, q, n)\<close>, \<^verbatim>\<open>strncpy(s, t, n)\<close>, \<^verbatim>\<open>safestrcpy(s, t, n)\<close> and \<^verbatim>\<open>strlen(s)\<close>. The two
  copying routines return the bytes they store from \<open>s\<close> on; a length of the C type
  \<^verbatim>\<open>int\<close> is taken as the number of times its loop can run.
\<close>

fun strncmp :: "u8 list \<Rightarrow> u8 list \<Rightarrow> nat \<Rightarrow> int option" where
  "strncmp p q 0 = Some 0"
| "strncmp (x # p) (y # q) (Suc n) =
     (if x \<noteq> 0 \<and> x = y then strncmp p q n else Some (uint x - uint y))"
| "strncmp _ _ (Suc n) = None"

fun strncpy :: "u8 list \<Rightarrow> nat \<Rightarrow> u8 list option" where
  "strncpy t 0 = Some []"
| "strncpy (x # t) (Suc n) =
     (if x \<noteq> 0 then map_option (Cons x) (strncpy t n) else Some (0 # replicate n 0))"
| "strncpy [] (Suc n) = None"

fun safestrcpy_loop :: "u8 list \<Rightarrow> nat \<Rightarrow> u8 list option" where
  "safestrcpy_loop t 0 = Some [0]"
| "safestrcpy_loop (x # t) (Suc n) =
     (if x \<noteq> 0 then map_option (Cons x) (safestrcpy_loop t n) else Some [0, 0])"
| "safestrcpy_loop [] (Suc n) = None"

definition safestrcpy :: "u8 list \<Rightarrow> int \<Rightarrow> u8 list option" where
  "safestrcpy t n = (if n \<le> 0 then Some [] else safestrcpy_loop t (nat (n - 1)))"

fun strlen :: "u8 list \<Rightarrow> nat option" where
  "strlen [] = None"
| "strlen (x # s) = (if x = 0 then Some 0 else map_option Suc (strlen s))"

text \<open>The string a character array holds: the bytes before its first NUL.\<close>

definition cstr :: "u8 list \<Rightarrow> u8 list" where
  "cstr xs = takeWhile (\<lambda>x. x \<noteq> 0) xs"

lemma strlen_cstr: "0 \<in> set s \<Longrightarrow> strlen s = Some (length (cstr s))"
  by (induction s) (auto simp: cstr_def)

lemma strncpy_eq:
  assumes "0 \<in> set t \<or> n \<le> length t"
  shows "strncpy t n = Some (take n (cstr t) @ replicate (n - length (cstr t)) 0)"
  using assms
  by (induction t n rule: strncpy.induct) (auto simp: cstr_def replicate_app_Cons_same)

lemma strncmp_zero:
  assumes "strncmp p q n = Some r"
  shows "r = 0 \<longleftrightarrow> take n (cstr p) = take n (cstr q)"
  using assms
  by (induction p q n rule: strncmp.induct)
    (auto simp: cstr_def take_Suc uint_0_iff dest: word_uint_eqI split: if_splits)

lemma strncmp_total:
  assumes "0 \<in> set p \<or> n \<le> length p" and "0 \<in> set q \<or> n \<le> length q"
  shows "\<exists>r. strncmp p q n = Some r"
  using assms by (induction p q n rule: strncmp.induct) auto

lemma safestrcpy_loop_eq:
  assumes "0 \<in> set t \<or> n \<le> length t"
  shows "\<exists>r. safestrcpy_loop t n = Some r \<and> r \<noteq> [] \<and> last r = 0 \<and> length r \<le> Suc n
           \<and> cstr r = take n (cstr t)"
  using assms
  by (induction t n rule: safestrcpy_loop.induct) (auto simp: cstr_def)

lemma safestrcpy_terminates_string:
  assumes "0 \<in> set t \<or> nat n \<le> length t" and "0 < n"
  shows "\<exists>r. safestrcpy t n = Some r \<and> last r = 0 \<and> r \<noteq> [] \<and> length r \<le> nat n
           \<and> cstr r = take (nat n - 1) (cstr t)"
proof -
  have "0 \<in> set t \<or> nat (n - 1) \<le> length t" using assms(1) by auto
  from safestrcpy_loop_eq[OF this] assms(2) show ?thesis
    by (auto simp: safestrcpy_def nat_diff_distrib)
qed

end
