(* ===== verification/Refcount.thy ===== *)
theory Refcount
  imports Prelude
begin

text \<open>
  The contract shared by the reference-counted objects of the kernel: physical pages
  (\<^verbatim>\<open>kalloc.c\<close>), open files (\<^verbatim>\<open>file.c\<close>) and in-memory inodes (\<^verbatim>\<open>fs.c\<close>). An object with
  count 0 is free; \<open>take\<close> hands out a free object with count 1, \<open>dup\<close> adds a
  reference to an object in use and \<open>drop\<close> removes one. The laws are stated for calls that
  return. The locale's lemmas follow the counts through any sequence of calls.
\<close>

datatype 'r rc_op = Take | Dup 'r | Drop 'r

datatype 'r rc_event = Took 'r | Failed | Duped 'r | Dropped 'r

locale refcounted =
  fixes inv :: "'s \<Rightarrow> bool"
    and rc :: "'s \<Rightarrow> 'r \<Rightarrow> nat"
    and take_obj :: "'s \<Rightarrow> ('s, 'r option) res"
    and dup_obj :: "'r \<Rightarrow> 's \<Rightarrow> ('s, unit) res"
    and drop_obj :: "'r \<Rightarrow> 's \<Rightarrow> ('s, unit) res"
  assumes take_Some: "inv s \<Longrightarrow> take_obj s = Ok (Some r) t \<Longrightarrow> rc s r = 0 \<and> rc t = (rc s)(r := 1) \<and> inv t"
    and take_None: "inv s \<Longrightarrow> take_obj s = Ok None t \<Longrightarrow> rc t = rc s \<and> inv t"
    and dup_law: "inv s \<Longrightarrow> dup_obj r s = Ok u t \<Longrightarrow> 0 < rc s r \<and> rc t = (rc s)(r := Suc (rc s r)) \<and> inv t"
    and drop_law: "inv s \<Longrightarrow> drop_obj r s = Ok u t \<Longrightarrow> 0 < rc s r \<and> rc t = (rc s)(r := rc s r - 1) \<and> inv t"
begin

fun rc_step :: "'r rc_op \<Rightarrow> 's \<Rightarrow> ('s, 'r rc_event) res" where
  "rc_step Take s = bnd (take_obj s) (\<lambda>r t. Ok (case r of None \<Rightarrow> Failed | Some r \<Rightarrow> Took r) t)"
| "rc_step (Dup r) s = bnd (dup_obj r s) (\<lambda>_ t. Ok (Duped r) t)"
| "rc_step (Drop r) s = bnd (drop_obj r s) (\<lambda>_ t. Ok (Dropped r) t)"

fun rc_run :: "'r rc_op list \<Rightarrow> 's \<Rightarrow> ('s, 'r rc_event list) res" where
  "rc_run [] s = Ok [] s"
| "rc_run (o1 # os) s = bnd (rc_step o1 s) (\<lambda>e t. bnd (rc_run os t) (\<lambda>es u. Ok (e # es) u))"

lemma rc_step_balance:
  assumes "inv s" and "rc_step o1 s = Ok e t"
  shows "inv t \<and> rc t r + (if e = Dropped r then 1 else 0)
     = rc s r + (if e = Took r then 1 else 0) + (if e = Duped r then 1 else 0)"
proof (cases o1)
  case Take
  with assms(2) obtain x where x: "take_obj s = Ok x t" "e = (case x of None \<Rightarrow> Failed | Some r \<Rightarrow> Took r)"
    by (auto simp: bnd_Ok_iff)
  then show ?thesis using take_Some[OF assms(1)] take_None[OF assms(1)] by (cases x) auto
next
  case (Dup r')
  with assms(2) obtain u where "dup_obj r' s = Ok u t" "e = Duped r'" by (auto simp: bnd_Ok_iff)
  then show ?thesis using dup_law[OF assms(1)] by fastforce
next
  case (Drop r')
  with assms(2) obtain u where "drop_obj r' s = Ok u t" "e = Dropped r'" by (auto simp: bnd_Ok_iff)
  then show ?thesis using drop_law[OF assms(1)] by fastforce
qed

text \<open>References are neither lost nor made up: the count is what was taken and not yet dropped.\<close>

lemma rc_run_balance:
  assumes "inv s" and "rc_run os s = Ok es t"
  shows "inv t \<and> rc t r + count_list es (Dropped r)
     = rc s r + count_list es (Took r) + count_list es (Duped r)"
  using assms
proof (induction os arbitrary: s es)
  case Nil
  then show ?case by simp
next
  case (Cons o1 os)
  then obtain e s1 es' where st: "rc_step o1 s = Ok e s1" and run: "rc_run os s1 = Ok es' t"
    and es: "es = e # es'"
    by (auto simp: bnd_Ok_iff)
  from rc_step_balance[OF Cons.prems(1) st, of r] have s1: "inv s1" by simp
  from Cons.IH[OF s1 run] rc_step_balance[OF Cons.prems(1) st, of r] show ?case
    by (auto simp: es)
qed

text \<open>An object in use is not handed out a second time until its last reference is dropped.\<close>

lemma no_reuse:
  assumes "inv s" and "0 < rc s r" and "rc_run os s = Ok es t" and "Took r \<in> set es"
  shows "rc s r \<le> count_list es (Dropped r)"
  using assms
proof (induction os arbitrary: s es)
  case Nil
  then show ?case by simp
next
  case (Cons o1 os)
  then obtain e s1 es' where st: "rc_step o1 s = Ok e s1" and run: "rc_run os s1 = Ok es' t"
    and es: "es = e # es'"
    by (auto simp: bnd_Ok_iff)
  note bal = rc_step_balance[OF Cons.prems(1) st, of r]
  have e: "e \<noteq> Took r"
  proof
    assume "e = Took r"
    with st have "take_obj s = Ok (Some r) s1"
      by (cases o1) (auto simp: bnd_Ok_iff split: option.splits)
    with take_Some[OF Cons.prems(1)] Cons.prems(2) show False by fastforce
  qed
  with Cons.prems(4) es have took: "Took r \<in> set es'" by simp
  show ?case
  proof (cases "rc s1 r = 0")
    case True
    with bal e Cons.prems(2) es show ?thesis by (auto split: if_splits)
  next
    case False
    with bal Cons.IH[OF _ _ run took] e es show ?thesis by (auto split: if_splits)
  qed
qed

end

end
