(* ===== verification/Kalloc.thy ===== *)
theory Kalloc
  imports Memory Refcount
begin

text \<open>
  The physical page allocator, \<^verbatim>\<open>kernel/kalloc.c\<close>. Its state is physical memory, the head of
  the free list (each free page holds the address of the next one in its first
  doubleword) and the reference count of each page, which copy-on-write fork raises. The
  addresses the linker provides are constants of the state.

  The lemmas relate the list threaded through memory to the set of free pages: \<open>kalloc\<close>
  hands out a page nobody refers to, \<open>kfree\<close> puts a page back exactly when its last
  reference goes, and neither loses a page.

  The lock \<^verbatim>\<open>kmem.lock\<close> is left out: a call is one step, and calls of several harts are a sequence of such steps. For \<open>kalloc\<close> and
  \<open>increse\<close> that is their critical section. \<^verbatim>\<open>kfree\<close> has two, with the count lowered in the first and the page put on the list in
  the second; they are one step here. In between, a page whose count reached 0 is not on the list, and no other call can
  refer to it: \<open>increse\<close> and \<open>kfree\<close> panic on it and \<open>kalloc\<close> cannot find it.
\<close>

record linker =
  sym_end :: u64
  sym_etext :: u64
  sym_trampoline :: u64
  sym_uservec :: u64
  sym_userret :: u64
  sym_kernelvec :: u64
  sym_usertrap :: u64
  sym_forkret :: u64

record kmem =
  syms :: linker
  mem :: memory
  freelist :: u64
  refcnt :: "nat \<Rightarrow> cint"

definition page_number :: "u64 \<Rightarrow> nat" where
  "page_number pa = unat pa div PGSIZE_nat"

definition kfree :: "u64 \<Rightarrow> 'z kmem_scheme \<Rightarrow> ('z kmem_scheme, unit) res" where
  "kfree pa s =
     (if unat pa mod PGSIZE_nat \<noteq> 0 \<or> pa < sym_end (syms s) \<or> pa \<ge> PHYSTOP then Panic ''kfree''
      else
        let pn = page_number pa in
        if sint (refcnt s pn) < 1 then Panic ''kfree panic''
        else
          let s = s\<lparr>refcnt := (refcnt s)(pn := refcnt s pn - 1)\<rparr>;
              tmp = refcnt s pn in
          if sint tmp > 0 then Ok () s
          else
            let s = s\<lparr>mem := memset (mem s) pa 1 PGSIZE_nat\<rparr>;
                s = s\<lparr>mem := store64 (mem s) pa (freelist s)\<rparr> in
            Ok () (s\<lparr>freelist := pa\<rparr>))"

definition kalloc :: "'z kmem_scheme \<Rightarrow> ('z kmem_scheme, u64) res" where
  "kalloc s =
     (let r = freelist s in
      if r \<noteq> 0 then
        let pn = page_number r in
        if refcnt s pn \<noteq> 0 then Panic ''refcnt kalloc''
        else
          let s = s\<lparr>refcnt := (refcnt s)(pn := 1)\<rparr>;
              s = s\<lparr>freelist := load64 (mem s) r\<rparr> in
          Ok r (s\<lparr>mem := memset (mem s) r 5 PGSIZE_nat\<rparr>)
      else Ok r s)"

text \<open>
  The bound check of \<^verbatim>\<open>increse\<close> lets \<^verbatim>\<open>pa == PHYSTOP\<close> through, one past the last counter;
  the read of \<^verbatim>\<open>refcnt\<close> is then outside the array. Raising the largest \<^verbatim>\<open>int\<close> overflows.
\<close>

definition increse :: "u64 \<Rightarrow> 'z kmem_scheme \<Rightarrow> ('z kmem_scheme, unit) res" where
  "increse pa s =
     (let pn = page_number pa in
      if pa > PHYSTOP then Panic ''increase ref cnt''
      else if pn \<ge> unat PHYSTOP div PGSIZE_nat then Undef ''refcnt index''
      else if sint (refcnt s pn) < 1 then Panic ''increase ref cnt''
      else if sint (refcnt s pn) = 2 ^ 31 - 1 then Undef ''signed overflow''
      else Ok () (s\<lparr>refcnt := (refcnt s)(pn := refcnt s pn + 1)\<rparr>))"

fun freerange_loop :: "nat \<Rightarrow> u64 \<Rightarrow> 'z kmem_scheme \<Rightarrow> ('z kmem_scheme, unit) res" where
  "freerange_loop 0 p s = Ok () s"
| "freerange_loop (Suc n) p s =
     bnd (kfree p (s\<lparr>refcnt := (refcnt s)(page_number p := 1)\<rparr>))
       (\<lambda>_ s. freerange_loop n (p + PGSIZE) s)"

text \<open>The loop runs while \<^verbatim>\<open>p + PGSIZE <= pa_end\<close>: once per whole page from \<open>p\<close> up.\<close>

definition freerange :: "u64 \<Rightarrow> u64 \<Rightarrow> 'z kmem_scheme \<Rightarrow> ('z kmem_scheme, unit) res" where
  "freerange pa_start pa_end s =
     (let p = PGROUNDUP pa_start in
      freerange_loop ((unat pa_end - unat p) div PGSIZE_nat) p s)"

definition kinit :: "'z kmem_scheme \<Rightarrow> ('z kmem_scheme, unit) res" where
  "kinit s = freerange (sym_end (syms s)) PHYSTOP s"

section \<open>The free list and the set of free pages\<close>

text \<open>\<open>flist m h ps\<close>: following the links from \<open>h\<close> visits exactly the pages \<open>ps\<close>.\<close>

fun flist :: "memory \<Rightarrow> u64 \<Rightarrow> u64 list \<Rightarrow> bool" where
  "flist m h [] = (h = 0)"
| "flist m h (p # ps) = (h = p \<and> p \<noteq> 0 \<and> flist m (load64 m p) ps)"

definition ram_page :: "'z kmem_scheme \<Rightarrow> u64 \<Rightarrow> bool" where
  "ram_page s p \<longleftrightarrow> aligned p \<and> sym_end (syms s) \<le> p \<and> p < PHYSTOP"

definition free_pages :: "'z kmem_scheme \<Rightarrow> u64 set" where
  "free_pages s = {p. ram_page s p \<and> refcnt s (page_number p) = 0}"

definition kmem_inv :: "'z kmem_scheme \<Rightarrow> bool" where
  "kmem_inv s \<longleftrightarrow> 0 < sym_end (syms s)
     \<and> (\<forall>p. ram_page s p \<longrightarrow> 0 \<le> sint (refcnt s (page_number p)))
     \<and> (\<exists>ps. flist (mem s) (freelist s) ps \<and> distinct ps \<and> set ps = free_pages s)"

lemma ram_page_aligned: "ram_page s p \<Longrightarrow> aligned p"
  by (simp add: ram_page_def)

lemma free_page:
  assumes "p \<in> free_pages s"
  shows "ram_page s p" "aligned p" "refcnt s (page_number p) = 0" "kmem_inv s \<Longrightarrow> p \<noteq> 0"
proof -
  show r: "ram_page s p" and "refcnt s (page_number p) = 0" using assms by (simp_all add: free_pages_def)
  show "aligned p" using r by (rule ram_page_aligned)
  assume "kmem_inv s"
  then have "0 < sym_end (syms s)" by (simp add: kmem_inv_def)
  with r show "p \<noteq> 0" by (auto simp: ram_page_def)
qed

lemma page_number_inj: "aligned p \<Longrightarrow> aligned q \<Longrightarrow> page_number p = page_number q \<longleftrightarrow> p = q"
  by (auto simp: page_number_def aligned_def word_unat_eq_iff)

lemma slot_0 [simp]: "slot p 0 = p"
  by (simp add: slot_def)

lemma load64_head_cong:
  assumes "aligned p" and "\<And>x. PGROUNDDOWN x = p \<Longrightarrow> m x = m' x"
  shows "load64 m p = load64 m' p"
  using load64_page_cong[OF assms(1), of 0 m m'] assms(2) by simp

lemma flist_cong:
  assumes "\<And>p x. p \<in> set ps \<Longrightarrow> PGROUNDDOWN x = p \<Longrightarrow> m x = m' x"
    and "\<And>p. p \<in> set ps \<Longrightarrow> aligned p"
  shows "flist m h ps = flist m' h ps"
  using assms
proof (induction ps arbitrary: h)
  case Nil
  then show ?case by simp
next
  case (Cons p ps)
  have "load64 m p = load64 m' p"
    by (rule load64_head_cong) (use Cons.prems in auto)
  moreover have "flist m h ps = flist m' h ps" for h
    by (rule Cons.IH) (use Cons.prems in auto)
  ultimately show ?case by simp
qed

section \<open>kalloc\<close>

text \<open>The state \<open>kalloc\<close> leaves when it hands out the page \<open>p\<close>.\<close>

definition taken :: "u64 \<Rightarrow> 'z kmem_scheme \<Rightarrow> 'z kmem_scheme" where
  "taken p s = s\<lparr>mem := (\<lambda>x. if PGROUNDDOWN x = p then 5 else mem s x),
     freelist := load64 (mem s) p, refcnt := (refcnt s)(page_number p := 1)\<rparr>"

lemma taken_simps [simp]:
  "syms (taken p s) = syms s"
  "refcnt (taken p s) = (refcnt s)(page_number p := 1)"
  "mem (taken p s) = (\<lambda>x. if PGROUNDDOWN x = p then 5 else mem s x)"
  "kmem.more (taken p s) = kmem.more s"
  by (simp_all add: taken_def)

lemma ram_page_syms: "syms t = syms s \<Longrightarrow> ram_page t p = ram_page s p"
  by (simp add: ram_page_def)

lemma free_pages_taken:
  assumes "ram_page s p"
  shows "free_pages (taken p s) = free_pages s - {p}"
proof -
  have "ram_page (taken p s) q = ram_page s q" for q by (rule ram_page_syms) simp
  then show ?thesis
    using assms by (auto simp: free_pages_def page_number_inj[OF ram_page_aligned ram_page_aligned])
qed

lemma kmem_inv_taken:
  assumes "kmem_inv s" and "flist (mem s) (freelist s) (p # ps)" and "distinct (p # ps)"
    and "set (p # ps) = free_pages s"
  shows "kmem_inv (taken p s)"
proof -
  have p: "ram_page s p" using assms(4) by (auto simp: free_pages_def)
  have rp: "ram_page (taken p s) q = ram_page s q" for q by (rule ram_page_syms) simp
  have "flist (mem s) (load64 (mem s) p) ps = flist (mem (taken p s)) (load64 (mem s) p) ps"
    by (rule flist_cong) (use assms(3,4) in \<open>auto simp: free_pages_def ram_page_def\<close>)
  then have "flist (mem (taken p s)) (freelist (taken p s)) ps"
    using assms(2) by (simp add: taken_def)
  moreover have "set ps = free_pages (taken p s)"
    using assms(3,4) p by (auto simp: free_pages_taken)
  ultimately show ?thesis
    using assms(1,3) unfolding kmem_inv_def rp by auto
qed

lemma kalloc_cases:
  assumes "kmem_inv s"
  obtains (none) "free_pages s = {}" "kalloc s = Ok 0 s"
  | (some) p where "p \<in> free_pages s" "kalloc s = Ok p (taken p s)" "kmem_inv (taken p s)"
proof -
  from assms obtain ps where ps: "flist (mem s) (freelist s) ps" "distinct ps" "set ps = free_pages s"
    by (auto simp: kmem_inv_def)
  show ?thesis
  proof (cases ps)
    case Nil
    with ps none show ?thesis by (simp add: kalloc_def)
  next
    case (Cons p qs)
    with ps have p: "p \<in> free_pages s" and h: "freelist s = p" "p \<noteq> 0" by auto
    then have "refcnt s (page_number p) = 0" and "aligned p"
      by (auto simp: free_pages_def ram_page_def)
    with h have "kalloc s = Ok p (taken p s)"
      by (simp add: kalloc_def taken_def memset_page Let_def cong: if_cong)
    moreover from ps Cons assms have "kmem_inv (taken p s)" by (auto intro: kmem_inv_taken)
    ultimately show ?thesis using p some by blast
  qed
qed

section \<open>kfree\<close>

text \<open>The state \<open>kfree\<close> leaves when the last reference to the page \<open>p\<close> goes.\<close>

definition released :: "u64 \<Rightarrow> 'z kmem_scheme \<Rightarrow> 'z kmem_scheme" where
  "released p s = s\<lparr>mem := store64 (\<lambda>x. if PGROUNDDOWN x = p then 1 else mem s x) p (freelist s),
     freelist := p, refcnt := (refcnt s)(page_number p := 0)\<rparr>"

definition unshared :: "u64 \<Rightarrow> 'z kmem_scheme \<Rightarrow> 'z kmem_scheme" where
  "unshared p s = s\<lparr>refcnt := (refcnt s)(page_number p := refcnt s (page_number p) - 1)\<rparr>"

lemma released_simps [simp]:
  "syms (released p s) = syms s"
  "refcnt (released p s) = (refcnt s)(page_number p := 0)"
  "freelist (released p s) = p"
  "kmem.more (released p s) = kmem.more s"
  by (simp_all add: released_def)

lemma unshared_simps [simp]:
  "syms (unshared p s) = syms s"
  "mem (unshared p s) = mem s"
  "freelist (unshared p s) = freelist s"
  "refcnt (unshared p s) = (refcnt s)(page_number p := refcnt s (page_number p) - 1)"
  "kmem.more (unshared p s) = kmem.more s"
  by (simp_all add: unshared_def)

lemma mem_released_other:
  assumes "aligned p" and "PGROUNDDOWN x \<noteq> p"
  shows "mem (released p s) x = mem s x"
  using store64_other_page[OF assms(1) _ assms(2), of 0] assms(2) by (simp add: released_def)

lemma kfree_ram:
  assumes "ram_page s p"
  shows "kfree p s =
    (if sint (refcnt s (page_number p)) < 1 then Panic ''kfree panic''
     else if refcnt s (page_number p) = 1 then Ok () (released p s)
     else Ok () (unshared p s))"
proof -
  have a: "aligned p" using assms by (rule ram_page_aligned)
  let ?c = "refcnt s (page_number p)"
  have g: "\<not> (unat p mod PGSIZE_nat \<noteq> 0 \<or> p < sym_end (syms s) \<or> p \<ge> PHYSTOP)"
    using assms by (simp add: ram_page_def aligned_def not_less not_le)
  consider "sint ?c < 1" | "?c = 1" | "\<not> sint ?c < 1" "?c \<noteq> 1" by blast
  then show ?thesis
  proof cases
    case 1
    with g show ?thesis by (simp add: kfree_def)
  next
    case 2
    with g show ?thesis
      by (simp add: kfree_def released_def memset_page[OF a] Let_def cong: if_cong)
  next
    case 3
    then have "sint ?c \<noteq> 1" using sint_eq_iff[of ?c 1] by auto
    with 3 have "0 < sint (?c - 1)" using sint_dec[of ?c] by auto
    with 3 g show ?thesis by (simp add: kfree_def unshared_def Let_def)
  qed
qed

lemma kfree_not_ram: "\<not> ram_page s p \<Longrightarrow> kfree p s = Panic ''kfree''"
  by (auto simp: kfree_def ram_page_def aligned_def not_le not_less)

lemma free_pages_released:
  assumes "ram_page s p"
  shows "free_pages (released p s) = insert p (free_pages s)"
proof -
  have "ram_page (released p s) q = ram_page s q" for q by (rule ram_page_syms) simp
  then show ?thesis
    using assms by (auto simp: free_pages_def page_number_inj[OF ram_page_aligned ram_page_aligned])
qed

lemma kmem_inv_released:
  assumes "kmem_inv s" and "ram_page s p" and "p \<notin> free_pages s"
  shows "kmem_inv (released p s)"
proof -
  from assms(1) obtain ps where ps: "flist (mem s) (freelist s) ps" "distinct ps" "set ps = free_pages s"
    by (auto simp: kmem_inv_def)
  have a: "aligned p" and p0: "p \<noteq> 0" using assms(1,2) by (auto simp: ram_page_def kmem_inv_def)
  have rp: "ram_page (released p s) q = ram_page s q" for q by (rule ram_page_syms) simp
  have "flist (mem s) (freelist s) ps = flist (mem (released p s)) (freelist s) ps"
  proof (rule flist_cong)
    fix q x assume "q \<in> set ps" "PGROUNDDOWN x = q"
    then have "PGROUNDDOWN x \<noteq> p" using assms(3) ps(3) by blast
    then show "mem s x = mem (released p s) x" by (rule mem_released_other[OF a, symmetric])
  next
    fix q assume "q \<in> set ps"
    then show "aligned q" using ps(3) by (simp add: free_pages_def ram_page_def)
  qed
  moreover have "load64 (mem (released p s)) p = freelist s" by (simp add: released_def)
  ultimately have "flist (mem (released p s)) (freelist (released p s)) (p # ps)"
    using ps(1) p0 by simp
  moreover have "distinct (p # ps)" and "set (p # ps) = free_pages (released p s)"
    using ps assms(2,3) by (auto simp: free_pages_released)
  ultimately have "\<exists>qs. flist (mem (released p s)) (freelist (released p s)) qs \<and> distinct qs
      \<and> set qs = free_pages (released p s)" by blast
  then show ?thesis
    using assms(1) unfolding kmem_inv_def rp by simp
qed

lemma free_pages_unshared:
  assumes "ram_page s p" and "1 < sint (refcnt s (page_number p))"
  shows "free_pages (unshared p s) = free_pages s"
proof -
  have "ram_page (unshared p s) q = ram_page s q" for q by (rule ram_page_syms) simp
  then show ?thesis using assms by (auto simp: free_pages_def page_number_inj[OF ram_page_aligned ram_page_aligned])
qed

lemma kmem_inv_unshared:
  assumes "kmem_inv s" and "ram_page s p" and "1 < sint (refcnt s (page_number p))"
  shows "kmem_inv (unshared p s)"
proof -
  have rp: "ram_page (unshared p s) q = ram_page s q" for q by (rule ram_page_syms) simp
  show ?thesis
    using assms(1,3) sint_dec[of "refcnt s (page_number p)"] free_pages_unshared[OF assms(2,3)]
    unfolding kmem_inv_def rp by auto
qed

lemma sint_gt_one: "\<not> sint c < 1 \<Longrightarrow> c \<noteq> 1 \<Longrightarrow> 1 < sint c" for c :: cint
  using sint_eq_iff[of c 1] by auto

lemma kfree_inv:
  assumes "kmem_inv s" and "kfree p s = Ok u t"
  shows "kmem_inv t \<and> ram_page s p \<and> 0 < sint (refcnt s (page_number p))"
proof -
  have p: "ram_page s p" using assms(2) kfree_not_ram[of s p] by (cases "ram_page s p") auto
  have pos: "\<not> sint (refcnt s (page_number p)) < 1"
    using assms(2) kfree_ram[OF p] by (auto split: if_splits)
  show ?thesis
  proof (cases "refcnt s (page_number p) = 1")
    case True
    then have "p \<notin> free_pages s" by (simp add: free_pages_def)
    from kmem_inv_released[OF assms(1) p this] True assms(2) p pos kfree_ram[OF p]
    show ?thesis by simp
  next
    case False
    from kmem_inv_unshared[OF assms(1) p sint_gt_one[OF pos False]] False assms(2) p pos kfree_ram[OF p]
    show ?thesis by simp
  qed
qed

section \<open>increse\<close>

definition shared :: "u64 \<Rightarrow> 'z kmem_scheme \<Rightarrow> 'z kmem_scheme" where
  "shared p s = s\<lparr>refcnt := (refcnt s)(page_number p := refcnt s (page_number p) + 1)\<rparr>"

lemma shared_simps [simp]:
  "syms (shared p s) = syms s"
  "mem (shared p s) = mem s"
  "freelist (shared p s) = freelist s"
  "refcnt (shared p s) = (refcnt s)(page_number p := refcnt s (page_number p) + 1)"
  "kmem.more (shared p s) = kmem.more s"
  by (simp_all add: shared_def)

lemma increse_Ok_iff:
  "increse p s = Ok u t \<longleftrightarrow>
     p < PHYSTOP \<and> 0 < sint (refcnt s (page_number p)) \<and> sint (refcnt s (page_number p)) < 2 ^ 31 - 1
     \<and> t = shared p s"
proof -
  have "page_number p \<ge> unat PHYSTOP div PGSIZE_nat \<longleftrightarrow> p \<ge> PHYSTOP"
    by (simp add: page_number_def word_le_nat_alt less_eq_div_iff_mult_less_eq)
  then show ?thesis
    using sint_cint[of "refcnt s (page_number p)"]
    by (auto simp: increse_def Let_def shared_def not_le not_less)
qed

lemma kmem_inv_shared:
  assumes "kmem_inv s" and "0 < sint (refcnt s (page_number p))"
    and "sint (refcnt s (page_number p)) < 2 ^ 31 - 1"
  shows "kmem_inv (shared p s) \<and> free_pages (shared p s) = free_pages s"
proof -
  have rp: "ram_page (shared p s) q = ram_page s q" for q by (rule ram_page_syms) simp
  have i: "sint (refcnt s (page_number p) + 1) = sint (refcnt s (page_number p)) + 1"
    using assms(3) by (rule sint_inc)
  then have nz: "refcnt s (page_number p) + 1 \<noteq> 0" "refcnt s (page_number p) \<noteq> 0"
    using assms(2) by auto
  have f: "free_pages (shared p s) = free_pages s"
    unfolding free_pages_def rp using nz by auto
  show ?thesis
    using assms i f unfolding kmem_inv_def rp by auto
qed

section \<open>The allocator as a pool of reference-counted pages\<close>

text \<open>
  The pool's objects are page numbers; the count of a page is its \<^verbatim>\<open>refcnt\<close> entry. \<open>kalloc\<close>
  is the pool's \<open>take\<close> with the null pointer read as a failure, \<open>increse\<close> its \<open>dup\<close> and
  \<open>kfree\<close> its \<open>drop\<close>.
\<close>

definition page_addr :: "nat \<Rightarrow> u64" where
  "page_addr n = of_nat n * PGSIZE"

definition page_rc :: "'z kmem_scheme \<Rightarrow> nat \<Rightarrow> nat" where
  "page_rc s n = nat (sint (refcnt s n))"

definition page_take :: "'z kmem_scheme \<Rightarrow> ('z kmem_scheme, nat option) res" where
  "page_take s = bnd (kalloc s) (\<lambda>p t. Ok (if p = 0 then None else Some (page_number p)) t)"

definition page_dup :: "nat \<Rightarrow> 'z kmem_scheme \<Rightarrow> ('z kmem_scheme, unit) res" where
  "page_dup n s = (if n < 2 ^ 52 then increse (page_addr n) s else Panic ''page number'')"

definition page_drop :: "nat \<Rightarrow> 'z kmem_scheme \<Rightarrow> ('z kmem_scheme, unit) res" where
  "page_drop n s = (if n < 2 ^ 52 then kfree (page_addr n) s else Panic ''page number'')"

lemma page_number_addr: "n < 2 ^ 52 \<Longrightarrow> page_number (page_addr n) = n"
proof -
  assume n: "n < 2 ^ 52"
  then have "unat (of_nat n :: u64) = n" by (intro unat_of_nat_u64) simp
  with n have "unat (page_addr n) = n * 4096" by (simp add: page_addr_def unat_word_ariths)
  then show ?thesis by (simp add: page_number_def)
qed

interpretation pages: refcounted kmem_inv page_rc page_take page_dup page_drop
proof
  fix s t :: "'z kmem_scheme" and r :: nat
  assume inv: "kmem_inv s" and tk: "page_take s = Ok (Some r) t"
  show "page_rc s r = 0 \<and> page_rc t = (page_rc s)(r := 1) \<and> kmem_inv t"
    using inv
  proof (cases rule: kalloc_cases)
    case none
    with tk show ?thesis by (simp add: page_take_def)
  next
    case (some p)
    with tk have "r = page_number p" "t = taken p s" by (auto simp: page_take_def split: if_splits)
    with some show ?thesis by (auto simp: page_rc_def free_pages_def fun_eq_iff)
  qed
next
  fix s t :: "'z kmem_scheme"
  assume inv: "kmem_inv s" and tk: "page_take s = Ok None t"
  show "page_rc t = page_rc s \<and> kmem_inv t"
    using inv
  proof (cases rule: kalloc_cases)
    case none
    with tk inv show ?thesis by (simp add: page_take_def)
  next
    case (some p)
    then have "p \<noteq> 0" using inv by (auto simp: free_pages_def ram_page_def kmem_inv_def)
    with some tk show ?thesis by (simp add: page_take_def)
  qed
next
  fix s t :: "'z kmem_scheme" and r :: nat and u :: unit
  assume inv: "kmem_inv s" and d: "page_dup r s = Ok u t"
  then have r: "r < 2 ^ 52" and i: "increse (page_addr r) s = Ok u t"
    by (auto simp: page_dup_def split: if_splits)
  then have c: "0 < sint (refcnt s r)" "sint (refcnt s r) < 2 ^ 31 - 1" and t: "t = shared (page_addr r) s"
    by (auto simp: increse_Ok_iff page_number_addr)
  have "kmem_inv t" using kmem_inv_shared[OF inv, of "page_addr r"] c r t by (simp add: page_number_addr)
  moreover have "page_rc t = (page_rc s)(r := Suc (page_rc s r))"
    using c r t sint_inc[of "refcnt s r"] by (auto simp: page_rc_def fun_eq_iff page_number_addr)
  ultimately show "0 < page_rc s r \<and> page_rc t = (page_rc s)(r := Suc (page_rc s r)) \<and> kmem_inv t"
    using c by (simp add: page_rc_def)
next
  fix s t :: "'z kmem_scheme" and r :: nat and u :: unit
  assume inv: "kmem_inv s" and d: "page_drop r s = Ok u t"
  then have r: "r < 2 ^ 52" and k: "kfree (page_addr r) s = Ok u t"
    by (auto simp: page_drop_def split: if_splits)
  from kfree_inv[OF inv k] r have kt: "kmem_inv t" "ram_page s (page_addr r)" "0 < sint (refcnt s r)"
    by (auto simp: page_number_addr)
  then have "page_rc t = (page_rc s)(r := page_rc s r - 1)"
    using k r kfree_ram[OF kt(2)] sint_dec[of "refcnt s r"]
    by (auto simp: page_rc_def fun_eq_iff page_number_addr nat_diff_distrib split: if_splits)
  with kt show "0 < page_rc s r \<and> page_rc t = (page_rc s)(r := page_rc s r - 1) \<and> kmem_inv t"
    by (simp add: page_rc_def)
qed

section \<open>Booting the allocator\<close>

text \<open>Part of the way through \<open>freerange\<close>: the pages below \<open>p\<close> are on the free list.\<close>

definition freed_below :: "u64 \<Rightarrow> 'z kmem_scheme \<Rightarrow> bool" where
  "freed_below p s \<longleftrightarrow> refcnt s = (\<lambda>_. 0) \<and>
     (\<exists>ps. flist (mem s) (freelist s) ps \<and> distinct ps \<and> set ps = {q. ram_page s q \<and> q < p})"

lemma unat_aligned_add: "aligned p \<Longrightarrow> p < PHYSTOP \<Longrightarrow> unat (p + 4096) = unat p + 4096"
  by (simp add: word_less_nat_alt unat_word_ariths)

lemma aligned_add_page: "aligned p \<Longrightarrow> p < PHYSTOP \<Longrightarrow> aligned (p + 4096)"
  using unat_aligned_add[of p] by (simp add: aligned_def)

lemma freed_below_next:
  assumes "0 < sym_end (syms s)" and "freed_below p s" and "ram_page s p"
  shows "kfree p (s\<lparr>refcnt := (refcnt s)(page_number p := 1)\<rparr>) = Ok () (released p s)
     \<and> freed_below (p + PGSIZE) (released p s)"
proof -
  let ?s = "s\<lparr>refcnt := (refcnt s)(page_number p := 1)\<rparr>"
  from assms(2) obtain ps where r0: "refcnt s = (\<lambda>_. 0)" and ps: "flist (mem s) (freelist s) ps" "distinct ps"
    "set ps = {q. ram_page s q \<and> q < p}"
    by (auto simp: freed_below_def)
  have a: "aligned p" "p < PHYSTOP" "p \<noteq> 0" using assms(1,3) by (auto simp: ram_page_def)
  have "ram_page ?s p" using assms(3) by (simp add: ram_page_def)
  then have k: "kfree p ?s = Ok () (released p s)"
    by (simp add: kfree_ram) (simp add: released_def cong: if_cong)
  have rp: "ram_page (released p s) q = ram_page s q" for q by (rule ram_page_syms) simp
  have "flist (mem s) (freelist s) ps = flist (mem (released p s)) (freelist s) ps"
  proof (rule flist_cong)
    fix q x assume "q \<in> set ps" "PGROUNDDOWN x = q"
    then have "PGROUNDDOWN x \<noteq> p" using ps(3) by auto
    then show "mem s x = mem (released p s) x" by (rule mem_released_other[OF a(1), symmetric])
  next
    fix q assume "q \<in> set ps"
    then show "aligned q" using ps(3) by (simp add: ram_page_def)
  qed
  moreover have "load64 (mem (released p s)) p = freelist s" by (simp add: released_def)
  ultimately have fl: "flist (mem (released p s)) (freelist (released p s)) (p # ps)"
    using ps(1) a(3) by simp
  have next_page: "q < p + 4096 \<longleftrightarrow> q < p \<or> q = p" if q: "aligned q" for q
  proof -
    obtain i where "unat q = 4096 * i" using q by (rule alignedE)
    moreover obtain j where "unat p = 4096 * j" using a(1) by (rule alignedE)
    ultimately show ?thesis using unat_aligned_add[OF a(1,2)] by (auto simp: word_less_nat_alt word_unat_eq_iff)
  qed
  have "set (p # ps) = {q. ram_page (released p s) q \<and> q < p + PGSIZE}"
    using ps(3) assms(3) next_page by (auto simp: rp dest: ram_page_aligned)
  moreover have "distinct (p # ps)" using ps(2,3) by auto
  moreover have "refcnt (released p s) = (\<lambda>_. 0)" using r0 by (auto simp: fun_eq_iff)
  ultimately have "freed_below (p + PGSIZE) (released p s)" using fl unfolding freed_below_def by blast
  with k show ?thesis by simp
qed

lemma freerange_loop_ok:
  assumes "0 < sym_end (syms s)" and "freed_below p s" and "aligned p" and "sym_end (syms s) \<le> p"
    and "unat p + 4096 * n = unat PHYSTOP"
  shows "\<exists>t. freerange_loop n p s = Ok () t \<and> freed_below PHYSTOP t \<and> syms t = syms s
     \<and> kmem.more t = kmem.more s"
  using assms
proof (induction n arbitrary: p s)
  case 0
  then have "p = PHYSTOP" by (simp add: word_unat_eq_iff)
  with 0 show ?case by simp
next
  case (Suc n)
  then have p: "p < PHYSTOP" by (simp add: word_less_nat_alt)
  with Suc.prems have rp: "ram_page s p" by (simp add: ram_page_def)
  from freed_below_next[OF Suc.prems(1,2) rp] have
    k: "kfree p (s\<lparr>refcnt := (refcnt s)(page_number p := 1)\<rparr>) = Ok () (released p s)"
    and f: "freed_below (p + PGSIZE) (released p s)" by auto
  have u: "unat (p + 4096) = unat p + 4096" using Suc.prems(3) p by (rule unat_aligned_add)
  then have "sym_end (syms (released p s)) \<le> p + PGSIZE"
    using Suc.prems(4) by (simp add: word_le_nat_alt)
  moreover have "aligned (p + PGSIZE)" using aligned_add_page[OF Suc.prems(3) p] .
  ultimately show ?case
    using Suc.IH[OF _ f] Suc.prems(1,5) u k by simp
qed

lemma PGROUNDUP_bounds:
  assumes "e \<le> PHYSTOP"
  shows "e \<le> PGROUNDUP e" "unat (PGROUNDUP e) \<le> unat PHYSTOP" "aligned q \<Longrightarrow> e \<le> q \<longleftrightarrow> PGROUNDUP e \<le> q"
proof -
  have e: "unat e \<le> 2281701376" using assms by (simp add: word_le_nat_alt)
  then have u: "unat (PGROUNDUP e) = (unat e + 4095) div 4096 * 4096" by (intro unat_PGROUNDUP) simp
  have up: "(unat e + 4095) div 4096 * 4096 \<le> 4096 * k \<longleftrightarrow> unat e \<le> 4096 * k" for k
    using div_less_iff_less_mult[of 4096 "unat e + 4095" "Suc k"] by (simp add: less_Suc_eq_le mult.commute)
  have "unat e + 4095 < (unat e + 4095) div 4096 * 4096 + 4096"
    using div_mod_decomp[of "unat e + 4095" 4096] mod_less_divisor[of 4096 "unat e + 4095"] by linarith
  then show "e \<le> PGROUNDUP e" by (simp add: word_le_nat_alt u)
  show "unat (PGROUNDUP e) \<le> unat PHYSTOP" using e up[of 557056] by (simp add: u)
  show "e \<le> q \<longleftrightarrow> PGROUNDUP e \<le> q" if q: "aligned q"
  proof -
    obtain k where "unat q = 4096 * k" using q by (rule alignedE)
    then show ?thesis using up[of k] by (simp only: word_le_nat_alt u)
  qed
qed

lemma kinit_ok:
  assumes "0 < sym_end (syms s)" and "sym_end (syms s) \<le> PHYSTOP"
    and "refcnt s = (\<lambda>_. 0)" and "freelist s = 0"
  shows "\<exists>t. kinit s = Ok () t \<and> kmem_inv t \<and> free_pages t = {p. ram_page s p}
     \<and> syms t = syms s \<and> kmem.more t = kmem.more s"
proof -
  let ?p = "PGROUNDUP (sym_end (syms s))"
  note b = PGROUNDUP_bounds[OF assms(2)]
  have "{q. ram_page s q \<and> q < ?p} = {}"
    using b(3) by (auto simp: ram_page_def)
  then have start: "freed_below ?p s"
    unfolding freed_below_def using assms(3,4) by (auto intro!: exI[of _ "[]"])
  obtain k where k: "unat ?p = 4096 * k" using aligned_PGROUNDUP[of "sym_end (syms s)"]
    by (auto simp: aligned_def)
  then have n: "unat ?p + 4096 * ((unat PHYSTOP - unat ?p) div 4096) = unat PHYSTOP"
    using b(2) by simp
  obtain t where t: "kinit s = Ok () t" "freed_below PHYSTOP t" "syms t = syms s" "kmem.more t = kmem.more s"
    using freerange_loop_ok[OF assms(1) start _ b(1) n] by (auto simp: kinit_def freerange_def Let_def)
  have rp: "ram_page t q = ram_page s q" for q using t(3) by (rule ram_page_syms)
  have "{q. ram_page t q \<and> q < PHYSTOP} = {q. ram_page t q}" by (auto simp: ram_page_def)
  with t(2) have "kmem_inv t" "free_pages t = {p. ram_page s p}"
    using assms(1) t(3) by (auto simp: freed_below_def kmem_inv_def free_pages_def rp)
  with t show ?thesis by blast
qed

text \<open>A machine with the pages from \<open>e\<close> to the top of memory free, and any further state \<open>z\<close>.\<close>

lemma booted_memory:
  assumes "0 < sym_end l" and "sym_end l \<le> PHYSTOP"
  shows "\<exists>s :: 'z kmem_scheme. kmem_inv s \<and> syms s = l \<and> kmem.more s = z
     \<and> free_pages s = {p. aligned p \<and> sym_end l \<le> p \<and> p < PHYSTOP}"
proof -
  let ?s = "\<lparr>syms = l, mem = (\<lambda>_. 0), freelist = 0, refcnt = (\<lambda>_. 0), \<dots> = z\<rparr>"
  from kinit_ok[of ?s] assms obtain t where "kmem_inv t" "free_pages t = {p. ram_page ?s p}"
    "syms t = l" "kmem.more t = z" by auto
  then show ?thesis by (auto simp: ram_page_def intro!: exI[of _ t])
qed

section \<open>Properties of the page allocator\<close>

text \<open>C6: booting the page allocator over zeroed counters returns, and leaves every page between the
  end of the kernel and the top of memory on the free list, with the allocator's invariant.\<close>

theorem kinit_frees_all_memory:
  assumes "0 < sym_end (syms s)" and "sym_end (syms s) \<le> PHYSTOP"
    and "refcnt s = (\<lambda>_. 0)" and "freelist s = 0"
  shows "\<exists>t. kinit s = Ok () t \<and> kmem_inv t \<and> free_pages t = {p. ram_page s p}
     \<and> syms t = syms s \<and> kmem.more t = kmem.more s"
  using assms by (rule kinit_ok)

definition demo_linker :: linker where
  "demo_linker = \<lparr>sym_end = 0x80021d40, sym_etext = 0x80008000, sym_trampoline = 0x80007000,
     sym_uservec = 0x80007000, sym_userret = 0x8000709c, sym_kernelvec = 0x80005c00,
     sym_usertrap = 0x80001c00, sym_forkret = 0x80001a00\<rparr>"

definition demo_kmem :: kmem where
  "demo_kmem = \<lparr>syms = demo_linker, mem = (\<lambda>_. 0), freelist = 0, refcnt = (\<lambda>_. 0)\<rparr>"

theorem kinit_frees_all_memory_witness:
  "\<exists>t. kinit demo_kmem = Ok () t \<and> kmem_inv t \<and> free_pages t = {p. ram_page demo_kmem p}
     \<and> syms t = syms demo_kmem \<and> kmem.more t = kmem.more demo_kmem"
  by (rule kinit_frees_all_memory) (simp_all add: demo_kmem_def demo_linker_def)

text \<open>C3: under the allocator's invariant \<open>kalloc\<close> never panics. It returns the null pointer exactly
  when no page is free, and otherwise a free page, which it takes off the free list with one
  reference, changing no other page of memory.\<close>

theorem kalloc_returns_free_page:
  assumes "kmem_inv s"
  shows "(free_pages s = {} \<and> kalloc s = Ok 0 s) \<or>
     (\<exists>p t. kalloc s = Ok p t \<and> p \<noteq> 0 \<and> p \<in> free_pages s \<and> free_pages t = free_pages s - {p}
        \<and> refcnt t = (refcnt s)(page_number p := 1) \<and> kmem_inv t
        \<and> (\<forall>x. PGROUNDDOWN x \<noteq> p \<longrightarrow> mem t x = mem s x))"
  using assms
proof (cases rule: kalloc_cases)
  case none
  then show ?thesis by simp
next
  case (some p)
  then have "ram_page s p" "p \<noteq> 0" using free_page[of p s] assms by auto
  with some have "kalloc s = Ok p (taken p s) \<and> p \<noteq> 0 \<and> p \<in> free_pages s
     \<and> free_pages (taken p s) = free_pages s - {p}
     \<and> refcnt (taken p s) = (refcnt s)(page_number p := 1) \<and> kmem_inv (taken p s)
     \<and> (\<forall>x. PGROUNDDOWN x \<noteq> p \<longrightarrow> mem (taken p s) x = mem s x)"
    by (simp add: free_pages_taken)
  then show ?thesis by blast
qed

lemma booted_demo: "\<exists>s :: kmem. kmem_inv s \<and> 0x87ffe000 \<in> free_pages s \<and> page_rc s 0x87ffe = 0"
proof -
  obtain s :: kmem where s: "kmem_inv s"
    "free_pages s = {p. aligned p \<and> sym_end demo_linker \<le> p \<and> p < PHYSTOP}"
    using booted_memory[of demo_linker "()"] by (auto simp: demo_linker_def)
  then have "0x87ffe000 \<in> free_pages s" by (simp add: demo_linker_def aligned_def)
  moreover from this have "page_rc s 0x87ffe = 0" by (simp add: free_pages_def page_rc_def page_number_def)
  ultimately show ?thesis using s by blast
qed

theorem kalloc_returns_free_page_witness:
  "\<exists>s :: kmem. kmem_inv s \<and> free_pages s \<noteq> {} \<and> (\<exists>p t. kalloc s = Ok p t \<and> p \<in> free_pages s \<and> kmem_inv t)"
proof -
  obtain s :: kmem where s: "kmem_inv s" "free_pages s \<noteq> {}" using booted_demo by blast
  from kalloc_returns_free_page[OF s(1)] s show ?thesis by blast
qed

text \<open>C4: what \<open>kfree\<close> does in every case: it panics on an address that is not a page of managed
  memory and on a page nobody refers to, it only lowers the count of a page that stays
  referenced, and it puts a page on the free list exactly when its last reference goes.\<close>

theorem kfree_by_reference_count:
  assumes "kmem_inv s"
  shows "(\<not> ram_page s p \<longrightarrow> kfree p s = Panic ''kfree'')
     \<and> (p \<in> free_pages s \<longrightarrow> kfree p s = Panic ''kfree panic'')
     \<and> (ram_page s p \<and> 1 < page_rc s (page_number p) \<longrightarrow>
          (\<exists>t. kfree p s = Ok () t \<and> kmem_inv t \<and> mem t = mem s \<and> free_pages t = free_pages s
             \<and> page_rc t (page_number p) = page_rc s (page_number p) - 1))
     \<and> (ram_page s p \<and> page_rc s (page_number p) = 1 \<longrightarrow>
          (\<exists>t. kfree p s = Ok () t \<and> kmem_inv t \<and> free_pages t = insert p (free_pages s)
             \<and> (\<forall>x. PGROUNDDOWN x \<noteq> p \<longrightarrow> mem t x = mem s x)))"
proof (intro conjI impI)
  assume "\<not> ram_page s p"
  then show "kfree p s = Panic ''kfree''" by (rule kfree_not_ram)
next
  assume "p \<in> free_pages s"
  then show "kfree p s = Panic ''kfree panic''" by (simp add: free_pages_def kfree_ram)
next
  assume h: "ram_page s p \<and> 1 < page_rc s (page_number p)"
  then have c: "1 < sint (refcnt s (page_number p))" by (simp add: page_rc_def)
  then have k: "kfree p s = Ok () (unshared p s)" using h by (auto simp: kfree_ram)
  have "page_rc (unshared p s) (page_number p) = page_rc s (page_number p) - 1"
    using c sint_dec[of "refcnt s (page_number p)"] by (simp add: page_rc_def nat_diff_distrib)
  with k show "\<exists>t. kfree p s = Ok () t \<and> kmem_inv t \<and> mem t = mem s \<and> free_pages t = free_pages s
             \<and> page_rc t (page_number p) = page_rc s (page_number p) - 1"
    using kmem_inv_unshared[OF assms _ c] free_pages_unshared[OF _ c] h by auto
next
  assume h: "ram_page s p \<and> page_rc s (page_number p) = 1"
  then have c: "refcnt s (page_number p) = 1"
    using sint_eq_iff[of "refcnt s (page_number p)" 1] by (auto simp: page_rc_def)
  then have k: "kfree p s = Ok () (released p s)" using h by (simp add: kfree_ram)
  have "p \<notin> free_pages s" using c by (simp add: free_pages_def)
  with k show "\<exists>t. kfree p s = Ok () t \<and> kmem_inv t \<and> free_pages t = insert p (free_pages s)
             \<and> (\<forall>x. PGROUNDDOWN x \<noteq> p \<longrightarrow> mem t x = mem s x)"
    using kmem_inv_released[OF assms] free_pages_released[of s p] h
      mem_released_other[OF ram_page_aligned, of s p] by blast
qed

theorem kfree_by_reference_count_witness:
  "\<exists>(s :: kmem) p t u. kmem_inv s \<and> kfree 0x87ffe000 s = Panic ''kfree panic'' \<and> kfree 0x87ffe008 s = Panic ''kfree''
     \<and> kalloc s = Ok p t \<and> p \<notin> free_pages t \<and> kfree p t = Ok () u \<and> p \<in> free_pages u"
proof -
  obtain s :: kmem where s: "kmem_inv s" "0x87ffe000 \<in> free_pages s" using booted_demo by blast
  obtain p where p: "p \<in> free_pages s" "kalloc s = Ok p (taken p s)" "kmem_inv (taken p s)"
    using s(2) by (rule_tac kalloc_cases[OF s(1)]) auto
  have "ram_page (taken p s) p" "page_rc (taken p s) (page_number p) = 1"
    using free_page(1)[OF p(1)] ram_page_syms[of "taken p s" s p] by (simp_all add: page_rc_def)
  then obtain u where "kfree p (taken p s) = Ok () u" "p \<in> free_pages u" using kfree_by_reference_count[OF p(3), of p] by auto
  moreover have "p \<notin> free_pages (taken p s)" by (simp add: free_pages_def)
  moreover have "\<not> ram_page s 0x87ffe008" by (simp add: ram_page_def aligned_def)
  ultimately show ?thesis using kfree_by_reference_count[OF s(1)] s p(2) by blast
qed

text \<open>C5: references to pages are neither lost nor made up: through any sequence of \<open>kalloc\<close>,
  \<open>increse\<close> and \<open>kfree\<close> calls that return, the count of a page changes by the references
  handed out minus the references given back, and the allocator's invariant is kept.\<close>

theorem page_references_balance:
  assumes "kmem_inv s" and "pages.rc_run os s = Ok es t"
  shows "kmem_inv t \<and> page_rc t n + count_list es (Dropped n)
     = page_rc s n + count_list es (Took n) + count_list es (Duped n)"
  using assms by (rule pages.rc_run_balance)

lemma page_take_witness:
  assumes "kmem_inv s" and "free_pages s \<noteq> {}"
  shows "\<exists>n t. pages.rc_run [Take] s = Ok [Took n] t"
  using assms(1)
proof (cases rule: kalloc_cases)
  case none
  with assms(2) show ?thesis by simp
next
  case (some p)
  then have "p \<noteq> 0" using assms(1) free_page(4) by blast
  with some show ?thesis by (simp add: page_take_def)
qed

theorem page_references_balance_witness:
  "\<exists>(s :: kmem) n t. kmem_inv s \<and> pages.rc_run [Take] s = Ok [Took n] t
     \<and> kmem_inv t \<and> page_rc t n = page_rc s n + 1"
proof -
  obtain s :: kmem where s: "kmem_inv s" "free_pages s \<noteq> {}" using booted_demo by blast
  then obtain n t where r: "pages.rc_run [Take] s = Ok [Took n] t" using page_take_witness by blast
  with page_references_balance[OF s(1) r, of n] s show ?thesis by auto
qed

end
