(* ===== verification/Vm.thy ===== *)
theory Vm
  imports Kalloc
begin

text \<open>
  Virtual memory: the operations of \<^verbatim>\<open>kernel/vm.c\<close>, \<^verbatim>\<open>cowfault\<close> of \<^verbatim>\<open>kernel/trap.c\<close> (which
  \<^verbatim>\<open>copyout\<close> calls) and \<^verbatim>\<open>proc_mapstacks\<close> of \<^verbatim>\<open>kernel/proc.c\<close> (which \<^verbatim>\<open>kvmmake\<close> calls).

  A page table is the address of its root page; its entries are doublewords of physical
  memory, so an operation reads and writes page tables through \<open>load64\<close> and \<open>store64\<close> and
  allocates their pages from the page allocator. Null pointers are the address 0.
  Buffers of the kernel that a copy reads or fills are lists of bytes. The number of
  iterations of each page loop is computed from the bounds the C loop compares.
\<close>

record kvm = kmem +
  kernel_pagetable :: u64
  satp :: u64

section \<open>Walking a page table\<close>

text \<open>The loop over the levels: \<open>None\<close> is the early \<^verbatim>\<open>return 0\<close>, \<open>Some pt\<close> the last-level table.\<close>

fun walk_loop :: "nat \<Rightarrow> u64 \<Rightarrow> u64 \<Rightarrow> bool \<Rightarrow> 'z kmem_scheme \<Rightarrow> ('z kmem_scheme, u64 option) res" where
  "walk_loop 0 pagetable va alloc s = Ok (Some pagetable) s"
| "walk_loop (Suc l) pagetable va alloc s =
     (let pte = slot pagetable (PX (Suc l) va) in
      if has (load64 (mem s) pte) PTE_V
      then walk_loop l (PTE2PA (load64 (mem s) pte)) va alloc s
      else if \<not> alloc then Ok None s
      else bnd (kalloc s) (\<lambda>pagetable s.
        if pagetable = 0 then Ok None s
        else
          let s = s\<lparr>mem := memset (mem s) pagetable 0 PGSIZE_nat\<rparr>;
              s = s\<lparr>mem := store64 (mem s) pte (PA2PTE pagetable OR PTE_V)\<rparr> in
          walk_loop l pagetable va alloc s))"

definition walk :: "u64 \<Rightarrow> u64 \<Rightarrow> bool \<Rightarrow> 'z kmem_scheme \<Rightarrow> ('z kmem_scheme, u64) res" where
  "walk pagetable va alloc s =
     (if va \<ge> MAXVA then Panic ''walk''
      else bnd (walk_loop 2 pagetable va alloc s) (\<lambda>r s.
        case r of None \<Rightarrow> Ok 0 s | Some pt \<Rightarrow> Ok (slot pt (PX 0 va)) s))"

definition walkaddr :: "u64 \<Rightarrow> u64 \<Rightarrow> 'z kmem_scheme \<Rightarrow> ('z kmem_scheme, u64) res" where
  "walkaddr pagetable va s =
     (if va \<ge> MAXVA then Ok 0 s
      else bnd (walk pagetable va False s) (\<lambda>pte s.
        if pte = 0 then Ok 0 s
        else if \<not> has (load64 (mem s) pte) PTE_V then Ok 0 s
        else if \<not> has (load64 (mem s) pte) PTE_U then Ok 0 s
        else Ok (PTE2PA (load64 (mem s) pte)) s))"

section \<open>Mapping and unmapping\<close>

text \<open>Each round maps one page; the loop ends with the page \<^verbatim>\<open>last\<close>, \<open>n\<close> pages further on.\<close>

fun mappages_loop :: "nat \<Rightarrow> u64 \<Rightarrow> u64 \<Rightarrow> u64 \<Rightarrow> u64 \<Rightarrow> 'z kmem_scheme \<Rightarrow> ('z kmem_scheme, cint) res" where
  "mappages_loop n pagetable a pa perm s =
     bnd (walk pagetable a True s) (\<lambda>pte s.
       if pte = 0 then Ok (- 1) s
       else if has (load64 (mem s) pte) PTE_V then Panic ''mappages: remap''
       else
         let s = s\<lparr>mem := store64 (mem s) pte (PA2PTE pa OR perm OR PTE_V)\<rparr> in
         case n of 0 \<Rightarrow> Ok 0 s
         | Suc n \<Rightarrow> mappages_loop n pagetable (a + PGSIZE) (pa + PGSIZE) perm s)"

declare mappages_loop.simps [simp del]

definition mappages :: "u64 \<Rightarrow> u64 \<Rightarrow> u64 \<Rightarrow> u64 \<Rightarrow> u64 \<Rightarrow> 'z kmem_scheme \<Rightarrow> ('z kmem_scheme, cint) res" where
  "mappages pagetable va sz pa perm s =
     (if sz = 0 then Panic ''mappages: size''
      else
        let a = PGROUNDDOWN va;
            last = PGROUNDDOWN (va + sz - 1) in
        mappages_loop (unat (last - a) div PGSIZE_nat) pagetable a pa perm s)"

definition kvmmap :: "u64 \<Rightarrow> u64 \<Rightarrow> u64 \<Rightarrow> u64 \<Rightarrow> u64 \<Rightarrow> 'z kmem_scheme \<Rightarrow> ('z kmem_scheme, unit) res" where
  "kvmmap kpgtbl va pa sz perm s =
     bnd (mappages kpgtbl va sz pa perm s) (\<lambda>r s. if r \<noteq> 0 then Panic ''kvmmap'' else Ok () s)"

definition unmap_page :: "u64 \<Rightarrow> u64 \<Rightarrow> bool \<Rightarrow> 'z kmem_scheme \<Rightarrow> ('z kmem_scheme, unit) res" where
  "unmap_page pagetable a do_free s =
     bnd (walk pagetable a False s) (\<lambda>pte s.
       if pte = 0 then Panic ''uvmunmap: walk''
       else if \<not> has (load64 (mem s) pte) PTE_V then Panic ''uvmunmap: not mapped''
       else if PTE_FLAGS (load64 (mem s) pte) = PTE_V then Panic ''uvmunmap: not a leaf''
       else
         bnd (if do_free then kfree (PTE2PA (load64 (mem s) pte)) s else Ok () s) (\<lambda>_ s.
           Ok () (s\<lparr>mem := store64 (mem s) pte 0\<rparr>)))"

fun uvmunmap_loop :: "nat \<Rightarrow> u64 \<Rightarrow> u64 \<Rightarrow> bool \<Rightarrow> 'z kmem_scheme \<Rightarrow> ('z kmem_scheme, unit) res" where
  "uvmunmap_loop 0 pagetable a do_free s = Ok () s"
| "uvmunmap_loop (Suc n) pagetable a do_free s =
     bnd (unmap_page pagetable a do_free s) (\<lambda>_ s.
       uvmunmap_loop n pagetable (a + PGSIZE) do_free s)"

definition uvmunmap :: "u64 \<Rightarrow> u64 \<Rightarrow> u64 \<Rightarrow> bool \<Rightarrow> 'z kmem_scheme \<Rightarrow> ('z kmem_scheme, unit) res" where
  "uvmunmap pagetable va npages do_free s =
     (if unat va mod PGSIZE_nat \<noteq> 0 then Panic ''uvmunmap: not aligned''
      else uvmunmap_loop ((unat (va + npages * PGSIZE) - unat va) div PGSIZE_nat) pagetable va do_free s)"

section \<open>User address spaces\<close>

definition uvmcreate :: "'z kmem_scheme \<Rightarrow> ('z kmem_scheme, u64) res" where
  "uvmcreate s =
     bnd (kalloc s) (\<lambda>pagetable s.
       if pagetable = 0 then Ok 0 s
       else Ok pagetable (s\<lparr>mem := memset (mem s) pagetable 0 PGSIZE_nat\<rparr>))"

text \<open>Storing the bytes of a kernel buffer, the \<^verbatim>\<open>memmove(pa, buf, n)\<close> of the copying routines.\<close>

definition mwrite :: "memory \<Rightarrow> u64 \<Rightarrow> u8 list \<Rightarrow> memory" where
  "mwrite m a bs = (\<lambda>x. if unat (x - a) < length bs then bs ! unat (x - a) else m x)"

definition uvmfirst :: "u64 \<Rightarrow> u8 list \<Rightarrow> 'z kmem_scheme \<Rightarrow> ('z kmem_scheme, unit) res" where
  "uvmfirst pagetable src s =
     (if length src \<ge> PGSIZE_nat then Panic ''uvmfirst: more than a page''
      else bnd (kalloc s) (\<lambda>pa s.
        if pa = 0 then Undef ''memset of a null page''
        else
          let s = s\<lparr>mem := memset (mem s) pa 0 PGSIZE_nat\<rparr> in
          bnd (mappages pagetable 0 PGSIZE pa (PTE_W OR PTE_R OR PTE_X OR PTE_U) s) (\<lambda>_ s.
            Ok () (s\<lparr>mem := mwrite (mem s) pa src\<rparr>))))"

text \<open>The page count goes through a C \<^verbatim>\<open>int\<close> before it reaches \<^verbatim>\<open>uvmunmap\<close>.\<close>

definition uvmdealloc :: "u64 \<Rightarrow> u64 \<Rightarrow> u64 \<Rightarrow> 'z kmem_scheme \<Rightarrow> ('z kmem_scheme, u64) res" where
  "uvmdealloc pagetable oldsz newsz s =
     (if newsz \<ge> oldsz then Ok oldsz s
      else if PGROUNDUP newsz < PGROUNDUP oldsz then
        let npages = (ucast ((PGROUNDUP oldsz - PGROUNDUP newsz) div PGSIZE) :: cint) in
        bnd (uvmunmap pagetable (PGROUNDUP newsz) (scast npages) True s) (\<lambda>_ s. Ok newsz s)
      else Ok newsz s)"

fun uvmalloc_loop :: "nat \<Rightarrow> u64 \<Rightarrow> u64 \<Rightarrow> u64 \<Rightarrow> u64 \<Rightarrow> u64 \<Rightarrow> 'z kmem_scheme \<Rightarrow> ('z kmem_scheme, u64) res" where
  "uvmalloc_loop 0 pagetable oldsz a newsz xperm s = Ok newsz s"
| "uvmalloc_loop (Suc n) pagetable oldsz a newsz xperm s =
     bnd (kalloc s) (\<lambda>pa s.
       if pa = 0 then bnd (uvmdealloc pagetable a oldsz s) (\<lambda>_ s. Ok 0 s)
       else
         let s = s\<lparr>mem := memset (mem s) pa 0 PGSIZE_nat\<rparr> in
         bnd (mappages pagetable a PGSIZE pa (PTE_R OR PTE_U OR xperm) s) (\<lambda>r s.
           if r \<noteq> 0 then
             bnd (kfree pa s) (\<lambda>_ s.
               bnd (uvmdealloc pagetable a oldsz s) (\<lambda>_ s. Ok 0 s))
           else uvmalloc_loop n pagetable oldsz (a + PGSIZE) newsz xperm s))"

definition uvmalloc :: "u64 \<Rightarrow> u64 \<Rightarrow> u64 \<Rightarrow> u64 \<Rightarrow> 'z kmem_scheme \<Rightarrow> ('z kmem_scheme, u64) res" where
  "uvmalloc pagetable oldsz newsz xperm s =
     (if newsz < oldsz then Ok oldsz s
      else
        let oldsz = PGROUNDUP oldsz in
        uvmalloc_loop ((unat newsz + (PGSIZE_nat - 1) - unat oldsz) div PGSIZE_nat)
          pagetable oldsz oldsz newsz xperm s)"

text \<open>
  \<^verbatim>\<open>freewalk\<close> recurses into every entry that points to a lower table. The first argument
  bounds the depth of the recursion; \<open>uvmfree\<close> starts it at the three levels of Sv39.
\<close>

primrec freewalk :: "nat \<Rightarrow> u64 \<Rightarrow> 'z kmem_scheme \<Rightarrow> ('z kmem_scheme, unit) res" where
  "freewalk 0 = (\<lambda>pagetable s. Undef ''freewalk: below the last level'')"
| "freewalk (Suc d) = (\<lambda>pagetable s.
     bnd (loop (\<lambda>i s.
            let pte = load64 (mem s) (slot pagetable (of_nat i)) in
            if has pte PTE_V \<and> \<not> has pte (PTE_R OR PTE_W OR PTE_X) then
              bnd (freewalk d (PTE2PA pte) s) (\<lambda>_ s.
                Ok () (s\<lparr>mem := store64 (mem s) (slot pagetable (of_nat i)) 0\<rparr>))
            else if has pte PTE_V then Panic ''freewalk: leaf''
            else Ok () s) [0..<512] s)
       (\<lambda>_ s. kfree pagetable s))"

definition uvmfree :: "u64 \<Rightarrow> u64 \<Rightarrow> 'z kmem_scheme \<Rightarrow> ('z kmem_scheme, unit) res" where
  "uvmfree pagetable sz s =
     bnd (if sz > 0 then uvmunmap pagetable 0 (PGROUNDUP sz div PGSIZE) True s else Ok () s)
       (\<lambda>_ s. freewalk 3 pagetable s)"

fun uvmcopy_loop :: "nat \<Rightarrow> u64 \<Rightarrow> u64 \<Rightarrow> u64 \<Rightarrow> 'z kmem_scheme \<Rightarrow> ('z kmem_scheme, cint) res" where
  "uvmcopy_loop 0 old new i s = Ok 0 s"
| "uvmcopy_loop (Suc n) old new i s =
     bnd (walk old i False s) (\<lambda>pte s.
       if pte = 0 then Panic ''uvmcopy: pte should exist''
       else if \<not> has (load64 (mem s) pte) PTE_V then Panic ''uvmcopy: page not present''
       else
         let pa = PTE2PA (load64 (mem s) pte);
             s = s\<lparr>mem := store64 (mem s) pte (load64 (mem s) pte AND NOT PTE_W)\<rparr>;
             flags = PTE_FLAGS (load64 (mem s) pte) in
         bnd (increse pa s) (\<lambda>_ s.
           bnd (mappages new i PGSIZE pa flags s) (\<lambda>r s.
             if r \<noteq> 0 then bnd (uvmunmap new 0 (i div PGSIZE) True s) (\<lambda>_ s. Ok (- 1) s)
             else uvmcopy_loop n old new (i + PGSIZE) s)))"

definition uvmcopy :: "u64 \<Rightarrow> u64 \<Rightarrow> u64 \<Rightarrow> 'z kmem_scheme \<Rightarrow> ('z kmem_scheme, cint) res" where
  "uvmcopy old new sz s = uvmcopy_loop ((unat sz + (PGSIZE_nat - 1)) div PGSIZE_nat) old new 0 s"

definition uvmclear :: "u64 \<Rightarrow> u64 \<Rightarrow> 'z kmem_scheme \<Rightarrow> ('z kmem_scheme, unit) res" where
  "uvmclear pagetable va s =
     bnd (walk pagetable va False s) (\<lambda>pte s.
       if pte = 0 then Panic ''uvmclear''
       else Ok () (s\<lparr>mem := store64 (mem s) pte (load64 (mem s) pte AND NOT PTE_U)\<rparr>))"

section \<open>Copying between the kernel and user memory\<close>

definition cowfault :: "u64 \<Rightarrow> u64 \<Rightarrow> 'z kmem_scheme \<Rightarrow> ('z kmem_scheme, cint) res" where
  "cowfault pagetable va s =
     (if va \<ge> MAXVA then Ok (- 1) s
      else bnd (walk pagetable va False s) (\<lambda>pte s.
        if pte = 0 then Ok (- 1) s
        else if \<not> has (load64 (mem s) pte) PTE_U \<or> \<not> has (load64 (mem s) pte) PTE_V then Ok (- 1) s
        else
          let pa1 = PTE2PA (load64 (mem s) pte) in
          bnd (kalloc s) (\<lambda>pa2 s.
            if pa2 = 0 then Ok (- 1) s
            else
              let s = s\<lparr>mem := memmove (mem s) pa2 pa1 PGSIZE_nat\<rparr>;
                  s = s\<lparr>mem := store64 (mem s) pte
                          (PA2PTE pa2 OR PTE_U OR PTE_V OR PTE_W OR PTE_X OR PTE_R)\<rparr> in
              bnd (kfree pa1 s) (\<lambda>_ s. Ok 0 s))))"

text \<open>How many of \<open>len\<close> bytes from \<open>va\<close> on lie in the page of \<open>va\<close>: the \<^verbatim>\<open>n\<close> of the loops.\<close>

definition page_part :: "u64 \<Rightarrow> nat \<Rightarrow> nat" where
  "page_part va len = min (PGSIZE_nat - unat (va - PGROUNDDOWN va)) len"

lemma unat_page_offset: "unat (va - PGROUNDDOWN va) = unat va mod 4096"
proof -
  have "unat (va - PGROUNDDOWN va) = unat va - unat (PGROUNDDOWN va)"
    using PGROUNDDOWN_le[of va] by (simp add: unat_sub_if' word_le_nat_alt)
  then show ?thesis by (simp add: unat_PGROUNDDOWN minus_div_mult_eq_mod)
qed

lemma page_part_pos [simp]: "0 < len \<Longrightarrow> 0 < page_part va len"
  by (simp add: page_part_def unat_page_offset)

lemma page_part_le [simp]: "page_part va len \<le> len"
  by (simp add: page_part_def)

function copyout :: "u64 \<Rightarrow> u64 \<Rightarrow> u8 list \<Rightarrow> 'z kmem_scheme \<Rightarrow> ('z kmem_scheme, cint) res" where
  "copyout pagetable dstva src s =
     (if src = [] then Ok 0 s
      else
        let va0 = PGROUNDDOWN dstva in
        if va0 > MAXVA then Ok (- 1) s
        else bnd (cowfault pagetable va0 s) (\<lambda>r s.
          if sint r < 0 then Ok (- 1) s
          else bnd (walkaddr pagetable va0 s) (\<lambda>pa0 s.
            if pa0 = 0 then Ok (- 1) s
            else
              let n = page_part dstva (length src);
                  s = s\<lparr>mem := mwrite (mem s) (pa0 + (dstva - va0)) (take n src)\<rparr> in
              copyout pagetable (va0 + PGSIZE) (drop n src) s)))"
  by auto
termination
  by (relation "measure (\<lambda>(pt, va, src, s). length src)") (auto simp: page_part_def unat_page_offset)

declare copyout.simps [simp del]

text \<open>The bytes \<^verbatim>\<open>copyin\<close> stored in \<^verbatim>\<open>dst\<close> come with its return value, also when it fails half way.\<close>

function copyin :: "u64 \<Rightarrow> u64 \<Rightarrow> nat \<Rightarrow> 'z kmem_scheme \<Rightarrow> ('z kmem_scheme, cint \<times> u8 list) res" where
  "copyin pagetable srcva len s =
     (if len = 0 then Ok (0, []) s
      else
        let va0 = PGROUNDDOWN srcva in
        bnd (walkaddr pagetable va0 s) (\<lambda>pa0 s.
          if pa0 = 0 then Ok (- 1, []) s
          else
            let n = page_part srcva len;
                bs = mread (mem s) (pa0 + (srcva - va0)) n in
            bnd (copyin pagetable (va0 + PGSIZE) (len - n) s) (\<lambda>(r, rest) s.
              Ok (r, bs @ rest) s)))"
  by auto
termination
  by (relation "measure (\<lambda>(pt, va, len, s). len)") (auto simp: page_part_def unat_page_offset)

declare copyin.simps [simp del]

text \<open>The inner loop of \<^verbatim>\<open>copyinstr\<close>: the bytes stored, and whether a NUL was among them.\<close>

fun copy_until_nul :: "u8 list \<Rightarrow> u8 list \<times> bool" where
  "copy_until_nul [] = ([], False)"
| "copy_until_nul (b # bs) =
     (if b = 0 then ([0], True) else let (r, got_null) = copy_until_nul bs in (b # r, got_null))"

function copyinstr :: "u64 \<Rightarrow> u64 \<Rightarrow> nat \<Rightarrow> 'z kmem_scheme \<Rightarrow> ('z kmem_scheme, cint \<times> u8 list) res" where
  "copyinstr pagetable srcva maxlen s =
     (if maxlen = 0 then Ok (- 1, []) s
      else
        let va0 = PGROUNDDOWN srcva in
        bnd (walkaddr pagetable va0 s) (\<lambda>pa0 s.
          if pa0 = 0 then Ok (- 1, []) s
          else
            let n = page_part srcva maxlen;
                (bs, got_null) = copy_until_nul (mread (mem s) (pa0 + (srcva - va0)) n) in
            if got_null then Ok (0, bs) s
            else bnd (copyinstr pagetable (va0 + PGSIZE) (maxlen - n) s) (\<lambda>(r, rest) s.
              Ok (r, bs @ rest) s)))"
  by auto
termination
  by (relation "measure (\<lambda>(pt, va, len, s). len)") (auto simp: page_part_def unat_page_offset)

declare copyinstr.simps [simp del]

section \<open>The kernel's address space\<close>

definition proc_mapstacks :: "u64 \<Rightarrow> 'z kmem_scheme \<Rightarrow> ('z kmem_scheme, unit) res" where
  "proc_mapstacks kpgtbl s =
     loop (\<lambda>p s.
       bnd (kalloc s) (\<lambda>pa s.
         if pa = 0 then Panic ''kalloc''
         else kvmmap kpgtbl (KSTACK p) pa PGSIZE (PTE_R OR PTE_W) s)) [0..<NPROC] s"

definition kvmmake :: "'z kmem_scheme \<Rightarrow> ('z kmem_scheme, u64) res" where
  "kvmmake s =
     bnd (kalloc s) (\<lambda>kpgtbl s.
       if kpgtbl = 0 then Undef ''memset of a null page''
       else
         let s = s\<lparr>mem := memset (mem s) kpgtbl 0 PGSIZE_nat\<rparr>;
             etext = sym_etext (syms s) in
         bnd (kvmmap kpgtbl UART0 UART0 PGSIZE (PTE_R OR PTE_W) s) (\<lambda>_ s.
         bnd (kvmmap kpgtbl VIRTIO0 VIRTIO0 PGSIZE (PTE_R OR PTE_W) s) (\<lambda>_ s.
         bnd (kvmmap kpgtbl PLIC PLIC 0x400000 (PTE_R OR PTE_W) s) (\<lambda>_ s.
         bnd (kvmmap kpgtbl KERNBASE KERNBASE (etext - KERNBASE) (PTE_R OR PTE_X) s) (\<lambda>_ s.
         bnd (kvmmap kpgtbl etext etext (PHYSTOP - etext) (PTE_R OR PTE_W) s) (\<lambda>_ s.
         bnd (kvmmap kpgtbl TRAMPOLINE (sym_trampoline (syms s)) PGSIZE (PTE_R OR PTE_X) s) (\<lambda>_ s.
         bnd (proc_mapstacks kpgtbl s) (\<lambda>_ s. Ok kpgtbl s))))))))"

definition kvminit :: "'z kvm_scheme \<Rightarrow> ('z kvm_scheme, unit) res" where
  "kvminit s = bnd (kvmmake s) (\<lambda>kpgtbl s. Ok () (s\<lparr>kernel_pagetable := kpgtbl\<rparr>))"

definition kvminithart :: "'z kvm_scheme \<Rightarrow> ('z kvm_scheme, unit) res" where
  "kvminithart s = Ok () (s\<lparr>satp := MAKE_SATP (kernel_pagetable s)\<rparr>)"

end
