(* ===== verification/Vm_table.thy ===== *)
theory Vm_table
  imports Vm
begin

text \<open>
  Page tables as trees. \<open>tnode m r is\<close> is the table page reached from the root \<open>r\<close> along the
  entry indices \<open>is\<close>, and \<open>vmap m r a\<close> the leaf entry that translates the address \<open>a\<close>. The
  invariant \<open>pts_inv s R\<close> says that the page tables with roots in \<open>R\<close> share no table page, with
  each other or within themselves, and that every table page is a page of managed memory with exactly
  one reference. Under it each operation of \<^verbatim>\<open>vm.c\<close> that walks, extends or edits a page table is
  shown to do what it means to the maps \<open>vmap\<close> of all the roots, and nothing else.
\<close>

section \<open>Table pages\<close>

fun tnode :: "memory \<Rightarrow> u64 \<Rightarrow> u64 list \<Rightarrow> u64 option" where
  "tnode m r [] = Some r"
| "tnode m r (i # is) =
     (let e = load64 m (slot r i) in if has e PTE_V then tnode m (PTE2PA e) is else None)"

definition tpath :: "u64 list \<Rightarrow> bool" where
  "tpath is \<longleftrightarrow> length is \<le> 2 \<and> (\<forall>i \<in> set is. unat i < 512)"

definition tables :: "memory \<Rightarrow> u64 set \<Rightarrow> u64 set" where
  "tables m R = {p. \<exists>r \<in> R. \<exists>is. tpath is \<and> tnode m r is = Some p}"

definition tnode_inj :: "memory \<Rightarrow> u64 set \<Rightarrow> bool" where
  "tnode_inj m R \<longleftrightarrow> (\<forall>r \<in> R. \<forall>r' \<in> R. \<forall>is js p. tpath is \<and> tpath js
     \<and> tnode m r is = Some p \<and> tnode m r' js = Some p \<longrightarrow> r = r' \<and> is = js)"

definition pts_inv :: "'z kmem_scheme \<Rightarrow> u64 set \<Rightarrow> bool" where
  "pts_inv s R \<longleftrightarrow> kmem_inv s
     \<and> (\<forall>p \<in> tables (mem s) R. ram_page s p \<and> refcnt s (page_number p) = 1)
     \<and> tnode_inj (mem s) R"

definition vmap :: "memory \<Rightarrow> u64 \<Rightarrow> u64 \<Rightarrow> u64 option" where
  "vmap m r a =
     (if a \<ge> MAXVA then None
      else case tnode m r [PX 2 a, PX 1 a] of
        None \<Rightarrow> None
      | Some p \<Rightarrow> let e = load64 m (slot p (PX 0 a)) in if has e PTE_V then Some e else None)"

lemma tpath_Nil [simp]: "tpath []"
  by (simp add: tpath_def)

lemma tpath_snoc: "tpath (is @ [i]) \<longleftrightarrow> length is \<le> 1 \<and> tpath is \<and> unat i < 512"
  by (auto simp: tpath_def)

lemma tpath_PX [simp]: "tpath [PX 2 a, PX 1 a]"
  by (simp add: tpath_def PX_less)

lemma tnode_append:
  "tnode m r (is @ js) = (case tnode m r is of None \<Rightarrow> None | Some p \<Rightarrow> tnode m p js)"
  by (induction m r "is" rule: tnode.induct) (auto simp: Let_def)

lemma tnode_snoc:
  "tnode m r (is @ [i]) = (case tnode m r is of None \<Rightarrow> None
     | Some p \<Rightarrow> if has (load64 m (slot p i)) PTE_V then Some (PTE2PA (load64 m (slot p i))) else None)"
  by (simp add: tnode_append Let_def split: option.splits)

lemma tables_nodeI: "r \<in> R \<Longrightarrow> tpath is \<Longrightarrow> tnode m r is = Some p \<Longrightarrow> p \<in> tables m R"
  by (auto simp: tables_def)

lemma pts_inv_table:
  assumes "pts_inv s R" and "p \<in> tables (mem s) R"
  shows "ram_page s p" "aligned p" "refcnt s (page_number p) = 1" "p \<notin> free_pages s" "p \<noteq> 0"
proof -
  show r: "ram_page s p" and c: "refcnt s (page_number p) = 1" using assms by (auto simp: pts_inv_def)
  show "aligned p" using r by (rule ram_page_aligned)
  show "p \<notin> free_pages s" using c by (simp add: free_pages_def)
  have "0 < sym_end (syms s)" using assms(1) by (simp add: pts_inv_def kmem_inv_def)
  with r show "p \<noteq> 0" by (auto simp: ram_page_def)
qed

lemma pts_inv_kmem: "pts_inv s R \<Longrightarrow> kmem_inv s"
  by (simp add: pts_inv_def)

lemma tnode_injD:
  "tnode_inj m R \<Longrightarrow> r \<in> R \<Longrightarrow> r' \<in> R \<Longrightarrow> tpath is \<Longrightarrow> tpath js \<Longrightarrow> tnode m r is = Some p
     \<Longrightarrow> tnode m r' js = Some p \<Longrightarrow> r = r' \<and> is = js"
  unfolding tnode_inj_def by blast

section \<open>Addresses\<close>

lemma PX_PGROUNDDOWN: "l \<le> 2 \<Longrightarrow> PX l (PGROUNDDOWN a) = PX l a"
  by (simp add: word_unat_eq_iff unat_PX unat_PGROUNDDOWN power_add div_mult2_eq)

lemma same_page_iff:
  assumes "a < MAXVA" and "b < MAXVA"
  shows "PX 2 a = PX 2 b \<and> PX 1 a = PX 1 b \<and> PX 0 a = PX 0 b \<longleftrightarrow> PGROUNDDOWN a = PGROUNDDOWN b"
proof -
  have dec: "n div 4096 = (n div 2 ^ 30 mod 512) * 262144 + (n div 2 ^ 21 mod 512) * 512 + n div 2 ^ 12 mod 512"
    if "n < 2 ^ 38" for n :: nat
  proof -
    define k where "k = n div 4096"
    have k: "k < 2 ^ 26" using that by (simp add: k_def less_mult_imp_div_less)
    have d: "n div 2 ^ 30 = k div 262144" "n div 2 ^ 21 = k div 512" "n div 2 ^ 12 = k" "n div 4096 = k"
      by (simp_all add: k_def div_mult2_eq[symmetric])
    have "k div 262144 < 512" using k by (simp add: less_mult_imp_div_less)
    then have "k div 262144 mod 512 = k div 262144" by simp
    moreover have "k = k div 512 * 512 + k mod 512" by simp
    moreover have "k div 512 = k div 262144 * 512 + k div 512 mod 512"
      using div_mult_mod_eq[of "k div 512" 512] by (simp add: div_mult2_eq[symmetric])
    ultimately show ?thesis unfolding d by linarith
  qed
  have b: "unat a < 2 ^ 38" "unat b < 2 ^ 38" using assms by (simp_all add: word_less_nat_alt)
  show ?thesis
  proof
    assume h: "PX 2 a = PX 2 b \<and> PX 1 a = PX 1 b \<and> PX 0 a = PX 0 b"
    have "unat a div 2 ^ 30 mod 512 = unat b div 2 ^ 30 mod 512"
      "unat a div 2 ^ 21 mod 512 = unat b div 2 ^ 21 mod 512"
      "unat a div 2 ^ 12 mod 512 = unat b div 2 ^ 12 mod 512"
      using h unat_PX[of 2 a] unat_PX[of 2 b] unat_PX[of 1 a] unat_PX[of 1 b] unat_PX[of 0 a] unat_PX[of 0 b]
      by simp_all
    with dec[OF b(1)] dec[OF b(2)] have "unat a div 4096 = unat b div 4096" by linarith
    then show "PGROUNDDOWN a = PGROUNDDOWN b" by (simp add: word_unat_eq_iff unat_PGROUNDDOWN)
  next
    assume "PGROUNDDOWN a = PGROUNDDOWN b"
    then show "PX 2 a = PX 2 b \<and> PX 1 a = PX 1 b \<and> PX 0 a = PX 0 b"
      using PX_PGROUNDDOWN[of 0 a] PX_PGROUNDDOWN[of 1 a] PX_PGROUNDDOWN[of 2 a]
        PX_PGROUNDDOWN[of 0 b] PX_PGROUNDDOWN[of 1 b] PX_PGROUNDDOWN[of 2 b] by simp
  qed
qed

lemma PGROUNDDOWN_less_MAXVA [simp]: "PGROUNDDOWN a < MAXVA \<longleftrightarrow> a < MAXVA"
  using div_less_iff_less_mult[of 4096 "unat a" 67108864] by (simp add: word_less_nat_alt unat_PGROUNDDOWN)

lemma vmap_PGROUNDDOWN [simp]: "vmap m r (PGROUNDDOWN a) = vmap m r a"
proof -
  have "PX 0 (PGROUNDDOWN a) = PX 0 a" "PX 1 (PGROUNDDOWN a) = PX 1 a" "PX 2 (PGROUNDDOWN a) = PX 2 a"
    by (simp_all add: PX_PGROUNDDOWN)
  moreover have "MAXVA \<le> PGROUNDDOWN a \<longleftrightarrow> MAXVA \<le> a"
    by (simp only: not_less[symmetric] PGROUNDDOWN_less_MAXVA)
  ultimately show ?thesis by (simp only: vmap_def)
qed

section \<open>Memory changes and table trees\<close>

text \<open>A change that spares the upper two levels of a table keeps its tree.\<close>

lemma tnode_cong_upper:
  assumes "\<And>js p k. tpath js \<Longrightarrow> length js \<le> 1 \<Longrightarrow> tnode m r js = Some p \<Longrightarrow> unat k < 512
      \<Longrightarrow> load64 m' (slot p k) = load64 m (slot p k)"
    and "tpath js"
  shows "tnode m' r js = tnode m r js"
  using assms(2)
proof (induction js rule: rev_induct)
  case Nil
  then show ?case by simp
next
  case (snoc k js)
  then have "tpath js" "length js \<le> 1" "unat k < 512" by (simp_all add: tpath_snoc)
  with snoc.IH assms(1)[of js] show ?case by (simp add: tnode_snoc split: option.splits)
qed

text \<open>A change outside the table pages keeps the tree and the map.\<close>

lemma tables_cong:
  assumes "\<And>p x. p \<in> tables m R \<Longrightarrow> PGROUNDDOWN x = p \<Longrightarrow> m' x = m x"
    and "\<And>p. p \<in> tables m R \<Longrightarrow> aligned p" and "r \<in> R"
  shows "tpath js \<Longrightarrow> tnode m' r js = tnode m r js" and "vmap m' r a = vmap m r a"
proof -
  have l: "load64 m' (slot p k) = load64 m (slot p k)"
    if "tpath js" "tnode m r js = Some p" "unat k < 512" for js p k
  proof (rule load64_page_cong)
    have p: "p \<in> tables m R" using that assms(3) by (auto intro: tables_nodeI)
    then show "aligned p" by (rule assms(2))
    show "m' x = m x" if "PGROUNDDOWN x = p" for x using p that by (rule assms(1))
  qed (rule that)
  show t: "tnode m' r js = tnode m r js" if "tpath js" for js
    by (rule tnode_cong_upper) (use l that in auto)
  show "vmap m' r a = vmap m r a"
    using t[OF tpath_PX[of a]] l[OF tpath_PX[of a] _ PX_less[of 0 a]]
    by (simp add: vmap_def split: option.splits)
qed

lemma tables_mono_cong:
  "(\<And>r js. r \<in> R \<Longrightarrow> tpath js \<Longrightarrow> tnode m' r js = tnode m r js) \<Longrightarrow> tables m' R = tables m R"
  unfolding tables_def by (intro Collect_cong bex_cong refl ex_cong1) auto

lemma tnode_inj_cong:
  "(\<And>r js. r \<in> R \<Longrightarrow> tpath js \<Longrightarrow> tnode m' r js = tnode m r js) \<Longrightarrow> tnode_inj m' R = tnode_inj m R"
  unfolding tnode_inj_def by (intro ball_cong refl all_cong1) auto

section \<open>Editing an entry\<close>

lemma free_pages_mem [simp]: "free_pages (s\<lparr>mem := m'\<rparr>) = free_pages s"
  by (simp add: free_pages_def ram_page_def)

lemma ram_page_mem [simp]: "ram_page (s\<lparr>mem := m'\<rparr>) = ram_page s"
  by (simp add: ram_page_def fun_eq_iff)

lemma kmem_inv_mem:
  assumes "kmem_inv s" and "\<And>x. PGROUNDDOWN x \<in> free_pages s \<Longrightarrow> m' x = mem s x"
  shows "kmem_inv (s\<lparr>mem := m'\<rparr>)"
proof -
  from assms(1) obtain ps where ps: "flist (mem s) (freelist s) ps" "distinct ps" "set ps = free_pages s"
    by (auto simp: kmem_inv_def)
  have "flist (mem s) (freelist s) ps = flist m' (freelist s) ps"
  proof (rule flist_cong)
    fix p x assume "p \<in> set ps" "PGROUNDDOWN x = p"
    with ps(3) assms(2) show "mem s x = m' x" by simp
  next
    fix p assume "p \<in> set ps"
    with ps(3) show "aligned p" by (simp add: free_pages_def ram_page_def)
  qed
  with ps have "\<exists>ps. flist m' (freelist s) ps \<and> distinct ps \<and> set ps = free_pages s" by blast
  with assms(1) show ?thesis by (simp add: kmem_inv_def)
qed

lemma pts_inv_mem:
  assumes "pts_inv s R"
    and "\<And>x. PGROUNDDOWN x \<in> free_pages s \<Longrightarrow> m' x = mem s x"
    and "\<And>r js. r \<in> R \<Longrightarrow> tpath js \<Longrightarrow> tnode m' r js = tnode (mem s) r js"
  shows "pts_inv (s\<lparr>mem := m'\<rparr>) R"
proof -
  have "tables m' R = tables (mem s) R" "tnode_inj m' R = tnode_inj (mem s) R"
    using assms(3) by (auto intro!: tables_mono_cong tnode_inj_cong)
  with assms(1) show ?thesis using kmem_inv_mem[OF _ assms(2)] by (simp add: pts_inv_def)
qed

text \<open>Writing an entry of a last-level table changes one page of one map.\<close>

lemma set_leaf:
  fixes e :: u64
  assumes inv: "pts_inv s R" and r: "r \<in> R" and p: "tnode (mem s) r is = Some p"
    and is2: "tpath is" "length is = 2" and i: "unat i < 512"
  defines "m' \<equiv> store64 (mem s) (slot p i) e"
  shows set_leaf_tnode: "r' \<in> R \<Longrightarrow> tpath js \<Longrightarrow> tnode m' r' js = tnode (mem s) r' js"
    and set_leaf_pts_inv: "pts_inv (s\<lparr>mem := m'\<rparr>) R"
    and set_leaf_vmap: "r' \<in> R \<Longrightarrow> vmap m' r' a =
      (if r' = r \<and> a < MAXVA \<and> [PX 2 a, PX 1 a] = is \<and> PX 0 a = i
       then if has e PTE_V then Some e else None else vmap (mem s) r' a)"
proof -
  have pt: "p \<in> tables (mem s) R" using r is2 p by (auto intro: tables_nodeI)
  have al: "aligned q" if "q \<in> tables (mem s) R" for q using pts_inv_table[OF inv that] by simp
  have inj: "tnode_inj (mem s) R" using inv by (simp add: pts_inv_def)
  have ld: "load64 m' (slot q k) = (if p = q \<and> i = k then e else load64 (mem s) (slot q k))"
    if "q \<in> tables (mem s) R" "unat k < 512" for q k
    unfolding m'_def using load64_store64_slot[OF al[OF pt] al[OF that(1)] i that(2)] by auto
  show t: "tnode m' r' js = tnode (mem s) r' js" if r': "r' \<in> R" and js: "tpath js" for r' js
  proof (rule tnode_cong_upper[OF _ js])
    fix js q and k :: u64
    assume q: "tpath js" "length js \<le> 1" "tnode (mem s) r' js = Some q" "unat k < 512"
    have "q \<noteq> p" using tnode_injD[OF inj r' r q(1) is2(1)] q p is2 by auto
    then show "load64 m' (slot q k) = load64 (mem s) (slot q k)"
      using ld[of q k] q r' by (auto intro: tables_nodeI)
  qed
  show "pts_inv (s\<lparr>mem := m'\<rparr>) R"
  proof (rule pts_inv_mem[OF inv _ t])
    fix x assume "PGROUNDDOWN x \<in> free_pages s"
    then have "PGROUNDDOWN x \<noteq> p" using pts_inv_table(4)[OF inv pt] by auto
    then show "m' x = mem s x" unfolding m'_def by (rule store64_other_page[OF al[OF pt] i])
  qed
  show "vmap m' r' a = (if r' = r \<and> a < MAXVA \<and> [PX 2 a, PX 1 a] = is \<and> PX 0 a = i
       then if has e PTE_V then Some e else None else vmap (mem s) r' a)" if r': "r' \<in> R"
  proof (cases "tnode (mem s) r' [PX 2 a, PX 1 a]")
    case None
    then show ?thesis using t[OF r' tpath_PX[of a]] p by (auto simp: vmap_def simp del: tnode.simps)
  next
    case (Some q)
    have qt: "q \<in> tables (mem s) R" by (rule tables_nodeI[OF r' tpath_PX Some])
    have eq: "p = q \<longleftrightarrow> r' = r \<and> [PX 2 a, PX 1 a] = is"
      using tnode_injD[OF inj r' r tpath_PX is2(1) Some] p Some by auto
    show ?thesis
      using t[OF r' tpath_PX[of a]] Some ld[OF qt PX_less[of 0 a]] eq
      by (auto simp: vmap_def simp del: tnode.simps)
  qed
qed

section \<open>Adding a table page\<close>

text \<open>The state after \<^verbatim>\<open>walk\<close> took the page \<open>q\<close>, cleared it and entered it in entry \<open>i\<close> of the table \<open>p\<close>.\<close>

definition hang :: "u64 \<Rightarrow> u64 \<Rightarrow> u64 \<Rightarrow> 'z kmem_scheme \<Rightarrow> 'z kmem_scheme" where
  "hang p i q s = (let t = taken q s in
     t\<lparr>mem := store64 (memset (mem t) q 0 PGSIZE_nat) (slot p i) (PA2PTE q OR PTE_V)\<rparr>)"

lemma hang_simps [simp]:
  "syms (hang p i q s) = syms s"
  "refcnt (hang p i q s) = (refcnt s)(page_number q := 1)"
  "kmem.more (hang p i q s) = kmem.more s"
  by (simp_all add: hang_def Let_def)

lemma ram_page_unat: "ram_page s p \<Longrightarrow> unat p < 2 ^ 56"
  by (simp add: ram_page_def word_less_nat_alt)

lemma hang_mem:
  assumes "aligned p" and "ram_page s q" and "p \<noteq> q" and "unat i < 512" and "unat k < 512"
  shows "PGROUNDDOWN x \<noteq> p \<Longrightarrow> PGROUNDDOWN x \<noteq> q \<Longrightarrow> mem (hang p i q s) x = mem s x"
    and "load64 (mem (hang p i q s)) (slot q k) = 0"
    and "load64 (mem (hang p i q s)) (slot p k) = (if i = k then PA2PTE q OR PTE_V else load64 (mem s) (slot p k))"
    and "aligned p' \<Longrightarrow> p' \<noteq> p \<Longrightarrow> p' \<noteq> q \<Longrightarrow> load64 (mem (hang p i q s)) (slot p' k) = load64 (mem s) (slot p' k)"
proof -
  have q: "aligned q" using assms(2) by (simp add: ram_page_def)
  let ?z = "\<lambda>x. if PGROUNDDOWN x = q then 0 else mem s x"
  have m: "mem (hang p i q s) = store64 ?z (slot p i) (PA2PTE q OR PTE_V)"
    by (auto simp: hang_def Let_def memset_page[OF q] intro!: arg_cong[where f = "\<lambda>m. store64 m _ _"])
  have z: "load64 ?z (slot p' k) = load64 (mem s) (slot p' k)" if "aligned p'" "p' \<noteq> q" for p'
    by (rule load64_page_cong[OF that(1) assms(5)]) (use that in auto)
  show "PGROUNDDOWN x \<noteq> p \<Longrightarrow> PGROUNDDOWN x \<noteq> q \<Longrightarrow> mem (hang p i q s) x = mem s x"
    unfolding m by (simp add: store64_other_page[OF assms(1,4)])
  show "load64 (mem (hang p i q s)) (slot q k) = 0"
    unfolding m using load64_zero_page[OF q assms(5), of "mem s"] assms(3)
    by (simp add: load64_store64_slot[OF assms(1) q assms(4,5)] memset_page[OF q] cong: if_cong)
  show "load64 (mem (hang p i q s)) (slot p k) = (if i = k then PA2PTE q OR PTE_V else load64 (mem s) (slot p k))"
    unfolding m using load64_store64_slot[OF assms(1,1,4,5)] z[OF assms(1,3)] by auto
  show "load64 (mem (hang p i q s)) (slot p' k) = load64 (mem s) (slot p' k)"
    if "aligned p'" "p' \<noteq> p" "p' \<noteq> q"
    unfolding m using load64_store64_slot[OF assms(1) that(1) assms(4,5)] z[OF that(1,3)] that by auto
qed

text \<open>The tree gains one node, where it had none, and the maps stay as they are.\<close>

lemma hang_tnode:
  assumes inv: "pts_inv s R" and r: "r \<in> R" and p: "tnode (mem s) r is = Some p"
    and is1: "tpath is" "length is \<le> 1" and i: "unat i < 512"
    and unset: "\<not> has (load64 (mem s) (slot p i)) PTE_V" and q: "q \<in> free_pages s"
    and r': "r' \<in> R" and js: "tpath js"
  shows "tnode (mem (hang p i q s)) r' js =
     (if r' = r \<and> js = is @ [i] then Some q else tnode (mem s) r' js)"
  using js
proof (induction js rule: rev_induct)
  case Nil
  then show ?case by simp
next
  case (snoc k js)
  then have js: "tpath js" "length js \<le> 1" and k: "unat k < 512" by (simp_all add: tpath_snoc)
  have pt: "p \<in> tables (mem s) R" using r is1 p by (auto intro: tables_nodeI)
  have qr: "ram_page s q" and q0: "q \<notin> tables (mem s) R"
    using q pts_inv_table(4)[OF inv] by (auto simp: free_pages_def)
  note hm = hang_mem[OF pts_inv_table(2)[OF inv pt] qr _ i k]
  have pq: "p \<noteq> q" using pt q0 by auto
  have inj: "tnode_inj (mem s) R" using inv by (simp add: pts_inv_def)
  have unset': "tnode (mem s) r (is @ [i]) = None" using p unset by (simp add: tnode_snoc)
  show ?case
  proof (cases "r' = r \<and> js = is @ [i]")
    case True
    then have "js @ [k] \<noteq> is @ [i]" "tnode (mem s) r' js = None" "tnode (mem (hang p i q s)) r' js = Some q"
      using snoc.IH[OF js(1)] unset' by auto
    then show ?thesis using hm(2)[OF pq] by (simp add: tnode_snoc)
  next
    case False
    with snoc.IH[OF js(1)] have eq: "tnode (mem (hang p i q s)) r' js = tnode (mem s) r' js" by simp
    show ?thesis
    proof (cases "tnode (mem s) r' js")
      case None
      then show ?thesis using eq p by (auto simp: tnode_snoc)
    next
      case (Some p')
      have t: "p' \<in> tables (mem s) R" using r' js Some by (auto intro: tables_nodeI)
      show ?thesis
      proof (cases "r' = r \<and> js = is")
        case True
        with p Some have "p' = p" by simp
        then show ?thesis
          using eq Some True hm(3)[OF pq] PTE2PA_PA2PTE[OF ram_page_aligned[OF qr] ram_page_unat[OF qr], of 1]
          by (cases "i = k") (simp_all add: tnode_snoc bit_or_iff)
      next
        case False
        then have "p' \<noteq> p" using tnode_injD[OF inj r' r js(1) is1(1) Some] p by auto
        moreover have "p' \<noteq> q" using t q0 by auto
        ultimately show ?thesis
          using eq Some False hm(4)[OF pq pts_inv_table(2)[OF inv t]] by (auto simp: tnode_snoc)
      qed
    qed
  qed
qed

lemma hang_vmap:
  assumes inv: "pts_inv s R" and r: "r \<in> R" and p: "tnode (mem s) r is = Some p"
    and is1: "tpath is" "length is \<le> 1" and i: "unat i < 512"
    and unset: "\<not> has (load64 (mem s) (slot p i)) PTE_V" and q: "q \<in> free_pages s"
    and r': "r' \<in> R"
  shows "vmap (mem (hang p i q s)) r' a = vmap (mem s) r' a"
proof -
  note tn = hang_tnode[OF assms tpath_PX, of a]
  have pt: "p \<in> tables (mem s) R" using r is1 p by (auto intro: tables_nodeI)
  have qr: "ram_page s q" and q0: "q \<notin> tables (mem s) R"
    using q pts_inv_table(4)[OF inv] by (auto simp: free_pages_def)
  have pq: "p \<noteq> q" using pt q0 by auto
  note hm = hang_mem[OF pts_inv_table(2)[OF inv pt] qr pq i PX_less[of 0 a]]
  show ?thesis
  proof (cases "r' = r \<and> [PX 2 a, PX 1 a] = is @ [i]")
    case True
    then have e: "r' = r" "[PX 2 a, PX 1 a] = is @ [i]" by auto
    have "tnode (mem s) r (is @ [i]) = None" using p unset by (simp add: tnode_snoc)
    moreover have "tnode (mem (hang p i q s)) r (is @ [i]) = Some q" using tn unfolding e by simp
    ultimately show ?thesis using hm(2) unfolding vmap_def e by simp
  next
    case False
    show ?thesis
    proof (cases "tnode (mem s) r' [PX 2 a, PX 1 a]")
      case None
      then show ?thesis using tn False by (auto simp: vmap_def simp del: tnode.simps)
    next
      case (Some p')
      have t: "p' \<in> tables (mem s) R" by (rule tables_nodeI[OF r' tpath_PX Some])
      have inj: "tnode_inj (mem s) R" using inv by (simp add: pts_inv_def)
      have "p' \<noteq> p" using tnode_injD[OF inj r' r tpath_PX is1(1) Some] p is1(2) by auto
      moreover have "p' \<noteq> q" using t q0 by auto
      ultimately show ?thesis
        using tn False Some hm(4)[OF pts_inv_table(2)[OF inv t]] by (auto simp: vmap_def simp del: tnode.simps)
    qed
  qed
qed

lemma hang_tables:
  assumes inv: "pts_inv s R" and r: "r \<in> R" and p: "tnode (mem s) r is = Some p"
    and is1: "tpath is" "length is \<le> 1" and i: "unat i < 512"
    and unset: "\<not> has (load64 (mem s) (slot p i)) PTE_V" and q: "q \<in> free_pages s"
  shows "tables (mem (hang p i q s)) R = insert q (tables (mem s) R)"
proof -
  note tn = hang_tnode[OF assms]
  have path: "tpath (is @ [i])" using is1 i by (simp add: tpath_snoc)
  have old: "tnode (mem s) r (is @ [i]) = None" using p unset by (simp add: tnode_snoc)
  have "x \<in> tables (mem (hang p i q s)) R \<longleftrightarrow> x = q \<or> x \<in> tables (mem s) R" for x
  proof
    assume "x \<in> tables (mem (hang p i q s)) R"
    then obtain r' js where "r' \<in> R" "tpath js" "tnode (mem (hang p i q s)) r' js = Some x"
      by (auto simp: tables_def)
    with tn[of r' js] show "x = q \<or> x \<in> tables (mem s) R"
      by (auto simp: tables_def split: if_splits)
  next
    assume "x = q \<or> x \<in> tables (mem s) R"
    then consider "x = q" | r' js where "r' \<in> R" "tpath js" "tnode (mem s) r' js = Some x"
      by (auto simp: tables_def)
    then show "x \<in> tables (mem (hang p i q s)) R"
    proof cases
      case 1
      with tn[OF r path] show ?thesis using r path by (auto intro: tables_nodeI)
    next
      case 2
      then have "\<not> (r' = r \<and> js = is @ [i])" using old by auto
      with 2 tn[of r' js] show ?thesis by (auto intro: tables_nodeI)
    qed
  qed
  then show ?thesis by auto
qed

lemma hang_pts_inv:
  assumes inv: "pts_inv s R" and r: "r \<in> R" and p: "tnode (mem s) r is = Some p"
    and is1: "tpath is" "length is \<le> 1" and i: "unat i < 512"
    and unset: "\<not> has (load64 (mem s) (slot p i)) PTE_V" and q: "q \<in> free_pages s"
    and kt: "kmem_inv (taken q s)"
  shows "pts_inv (hang p i q s) R" and "free_pages (hang p i q s) = free_pages s - {q}"
proof -
  note tn = hang_tnode[OF inv r p is1 i unset q] and tb = hang_tables[OF inv r p is1 i unset q]
  have pt: "p \<in> tables (mem s) R" using r is1 p by (auto intro: tables_nodeI)
  have qr: "ram_page s q" using q by (simp add: free_pages_def)
  have pq: "p \<noteq> q" using pts_inv_table(4)[OF inv pt] q by auto
  note hm = hang_mem[OF pts_inv_table(2)[OF inv pt] qr pq i PX_less]
  have rp: "ram_page (hang p i q s) x = ram_page s x" for x by (rule ram_page_syms) simp
  have rpt: "ram_page (taken q s) x = ram_page s x" for x by (rule ram_page_syms) simp
  show fp: "free_pages (hang p i q s) = free_pages s - {q}"
    using free_pages_taken[OF qr] by (simp add: hang_def Let_def)
  have "kmem_inv (hang p i q s)"
    unfolding hang_def Let_def
  proof (rule kmem_inv_mem[OF kt])
    fix x assume "PGROUNDDOWN x \<in> free_pages (taken q s)"
    then have x: "PGROUNDDOWN x \<noteq> q" "PGROUNDDOWN x \<noteq> p"
      using free_pages_taken[OF qr] pts_inv_table(4)[OF inv pt] by auto
    then show "store64 (memset (mem (taken q s)) q 0 PGSIZE_nat) (slot p i) (PA2PTE q OR PTE_V) x = mem (taken q s) x"
      using hm(1)[OF x(2,1)] by (simp add: hang_def Let_def)
  qed
  moreover have "ram_page (hang p i q s) x \<and> refcnt (hang p i q s) (page_number x) = 1"
    if "x \<in> tables (mem (hang p i q s)) R" for x
    using that tb pts_inv_table[OF inv, of x] qr by (auto simp: rp)
  moreover have "tnode_inj (mem (hang p i q s)) R"
    unfolding tnode_inj_def
  proof (intro ballI allI impI, elim conjE)
    fix r1 r2 is1 js p'
    assume h: "r1 \<in> R" "r2 \<in> R" "tpath is1" "tpath js" "tnode (mem (hang p i q s)) r1 is1 = Some p'"
      "tnode (mem (hang p i q s)) r2 js = Some p'"
    have q0: "q \<notin> tables (mem s) R" using pts_inv_table(4)[OF inv] q by auto
    have inj: "tnode_inj (mem s) R" using inv by (simp add: pts_inv_def)
    have n: "tnode (mem s) r' ks \<noteq> Some q" if "r' \<in> R" "tpath ks" for r' ks
      using q0 that by (auto simp: tables_def)
    show "r1 = r2 \<and> is1 = js"
    proof (cases "p' = q")
      case True
      then show ?thesis using tn[OF h(1,3)] tn[OF h(2,4)] h(5,6) n[OF h(1,3)] n[OF h(2,4)]
        by (metis option.distinct(1))
    next
      case False
      have "tnode (mem s) r1 is1 = Some p'"
        using False tn[OF h(1,3)] h(5) by (cases "r1 = r \<and> is1 = is @ [i]") auto
      moreover have "tnode (mem s) r2 js = Some p'"
        using False tn[OF h(2,4)] h(6) by (cases "r2 = r \<and> js = is @ [i]") auto
      ultimately show ?thesis by (rule tnode_injD[OF inj h(1,2,3,4)])
    qed
  qed
  ultimately show "pts_inv (hang p i q s) R" by (simp add: pts_inv_def)
qed

section \<open>walk\<close>

text \<open>
  What the table operations leave alone: they only take pages off the free list, each of which becomes
  a table, and write to no page but table pages and pages that were free.
\<close>

definition pt_frame :: "u64 set \<Rightarrow> 'z kmem_scheme \<Rightarrow> 'z kmem_scheme \<Rightarrow> bool" where
  "pt_frame R s t \<longleftrightarrow> syms t = syms s \<and> kmem.more t = kmem.more s \<and> free_pages t \<subseteq> free_pages s
     \<and> (\<forall>n. refcnt s n \<noteq> 0 \<longrightarrow> refcnt t n = refcnt s n)
     \<and> (\<forall>x. PGROUNDDOWN x \<notin> free_pages s \<longrightarrow> PGROUNDDOWN x \<notin> tables (mem s) R \<longrightarrow> mem t x = mem s x)
     \<and> tables (mem s) R \<subseteq> tables (mem t) R \<and> tables (mem t) R \<subseteq> tables (mem s) R \<union> free_pages s
     \<and> free_pages s \<subseteq> free_pages t \<union> tables (mem t) R"

lemma pt_frame_refl [simp]: "pt_frame R s s"
  by (simp add: pt_frame_def)

lemma pt_frame_trans:
  assumes "pt_frame R s t" and "pt_frame R t u"
  shows "pt_frame R s u"
proof -
  have "mem u x = mem s x" if "PGROUNDDOWN x \<notin> free_pages s" "PGROUNDDOWN x \<notin> tables (mem s) R" for x
  proof -
    have "PGROUNDDOWN x \<notin> free_pages t" "PGROUNDDOWN x \<notin> tables (mem t) R"
      using assms(1) that by (auto simp: pt_frame_def)
    with assms that show ?thesis by (simp add: pt_frame_def)
  qed
  moreover have "refcnt u n = refcnt s n" if "refcnt s n \<noteq> 0" for n
    using assms that by (simp add: pt_frame_def)
  ultimately show ?thesis using assms unfolding pt_frame_def by auto
qed

lemma pt_frame_hang:
  assumes inv: "pts_inv s R" and r: "r \<in> R" and p: "tnode (mem s) r is = Some p"
    and is1: "tpath is" "length is \<le> 1" and i: "unat i < 512"
    and unset: "\<not> has (load64 (mem s) (slot p i)) PTE_V" and q: "q \<in> free_pages s"
    and kt: "kmem_inv (taken q s)"
  shows "pt_frame R s (hang p i q s)"
proof -
  have pt: "p \<in> tables (mem s) R" using r is1 p by (auto intro: tables_nodeI)
  have qr: "ram_page s q" and q0: "refcnt s (page_number q) = 0" using q by (auto simp: free_pages_def)
  have pq: "p \<noteq> q" using pts_inv_table(4)[OF inv pt] q by auto
  have "mem (hang p i q s) x = mem s x" if "PGROUNDDOWN x \<notin> free_pages s" "PGROUNDDOWN x \<notin> tables (mem s) R" for x
    using hang_mem(1)[OF pts_inv_table(2)[OF inv pt] qr pq i PX_less, of x] that pt q by blast
  then show ?thesis
    using hang_pts_inv(2)[OF inv r p is1 i unset q kt] hang_tables[OF inv r p is1 i unset q] q q0
    by (auto simp: pt_frame_def)
qed

fun vpath :: "nat \<Rightarrow> u64 \<Rightarrow> u64 list" where
  "vpath 0 va = []"
| "vpath (Suc l) va = PX (Suc l) va # vpath l va"

lemma walk_loop_find: "walk_loop l pt va False s = Ok (tnode (mem s) pt (vpath l va)) s"
  by (induction l arbitrary: pt) (simp_all add: Let_def)

lemma walk_find:
  assumes "va < MAXVA"
  shows "walk r va False s =
     Ok (case tnode (mem s) r [PX 2 va, PX 1 va] of None \<Rightarrow> 0 | Some p \<Rightarrow> slot p (PX 0 va)) s"
proof -
  have "vpath 2 va = [PX 2 va, PX 1 va]" by (simp add: numeral_2_eq_2)
  with assms show ?thesis by (simp add: walk_def walk_loop_find not_le split: option.splits del: tnode.simps)
qed

lemma walk_loop_alloc:
  assumes "pts_inv s R" and "r \<in> R" and "tnode (mem s) r is = Some p" and "tpath is" and "length is + l = 2"
  shows "\<exists>res t. walk_loop l p va True s = Ok res t \<and> pts_inv t R \<and> pt_frame R s t
     \<and> (\<forall>r' \<in> R. \<forall>a. vmap (mem t) r' a = vmap (mem s) r' a) \<and> card (free_pages s) \<le> card (free_pages t) + l
     \<and> (case res of None \<Rightarrow> free_pages t = {} | Some p' \<Rightarrow> tnode (mem t) r (is @ vpath l va) = Some p')"
  using assms
proof (induction l arbitrary: "is" p s)
  case 0
  then show ?case by simp
next
  case (Suc l)
  let ?i = "PX (Suc l) va"
  have is1: "length is \<le> 1" and path: "tpath (is @ [?i])"
    using Suc.prems by (auto simp: tpath_snoc PX_less)
  have ap: "(is @ [?i]) @ vpath l va = is @ vpath (Suc l) va" by simp
  show ?case
  proof (cases "has (load64 (mem s) (slot p ?i)) PTE_V")
    case True
    then have "tnode (mem s) r (is @ [?i]) = Some (PTE2PA (load64 (mem s) (slot p ?i)))"
      using Suc.prems(3) by (simp add: tnode_snoc)
    from Suc.IH[OF Suc.prems(1,2) this path, unfolded ap] Suc.prems(5) obtain res t where
      "walk_loop l (PTE2PA (load64 (mem s) (slot p ?i))) va True s = Ok res t" "pts_inv t R" "pt_frame R s t"
      "\<forall>r' \<in> R. \<forall>a. vmap (mem t) r' a = vmap (mem s) r' a" "card (free_pages s) \<le> card (free_pages t) + l"
      "case res of None \<Rightarrow> free_pages t = {} | Some p' \<Rightarrow> tnode (mem t) r (is @ vpath (Suc l) va) = Some p'"
      by auto
    with True show ?thesis by (intro exI[of _ res] exI[of _ t]) simp
  next
    case False
    note unset = False
    from pts_inv_kmem[OF Suc.prems(1)] show ?thesis
    proof (cases rule: kalloc_cases)
      case none
      with unset Suc.prems(1) show ?thesis by simp
    next
      case (some q)
      note h = Suc.prems(1,2,3,4) is1 PX_less[of "Suc l" va] unset some(1)
      have tq: "tnode (mem (hang p ?i q s)) r (is @ [?i]) = Some q"
        using hang_tnode[OF h Suc.prems(2) path] by simp
      have q0: "q \<noteq> 0" using some(1) pts_inv_kmem[OF Suc.prems(1)]
        by (rule free_page(4))
      from Suc.IH[OF hang_pts_inv(1)[OF h some(3)] Suc.prems(2) tq path, unfolded ap] Suc.prems(5)
      obtain res t where t: "walk_loop l q va True (hang p ?i q s) = Ok res t" "pts_inv t R"
        "pt_frame R (hang p ?i q s) t" "\<forall>r' \<in> R. \<forall>a. vmap (mem t) r' a = vmap (mem (hang p ?i q s)) r' a"
        "card (free_pages (hang p ?i q s)) \<le> card (free_pages t) + l"
        "case res of None \<Rightarrow> free_pages t = {} | Some p' \<Rightarrow> tnode (mem t) r (is @ vpath (Suc l) va) = Some p'"
        by auto
      have "walk_loop (Suc l) p va True s = Ok res t"
        using t(1) some(2) unset q0 by (simp add: hang_def Let_def)
      moreover have "card (free_pages s) \<le> card (free_pages t) + Suc l"
        using t(5) hang_pts_inv(2)[OF h some(3)] some(1) card_Suc_Diff1[of "free_pages s" q] by simp
      ultimately show ?thesis
        using t pt_frame_trans[OF pt_frame_hang[OF h some(3)] t(3)] hang_vmap[OF h] by auto
    qed
  qed
qed

lemma walk_alloc:
  assumes "pts_inv s R" and "r \<in> R" and "va < MAXVA"
  obtains (full) t where "walk r va True s = Ok 0 t" "pts_inv t R" "pt_frame R s t" "free_pages t = {} \<and> card (free_pages s) \<le> 2"
      "\<And>r' a. r' \<in> R \<Longrightarrow> vmap (mem t) r' a = vmap (mem s) r' a"
  | (found) t p where "walk r va True s = Ok (slot p (PX 0 va)) t" "pts_inv t R" "pt_frame R s t"
      "\<And>r' a. r' \<in> R \<Longrightarrow> vmap (mem t) r' a = vmap (mem s) r' a"
      "tnode (mem t) r [PX 2 va, PX 1 va] = Some p" "card (free_pages s) \<le> card (free_pages t) + 2"
proof -
  have v: "vpath 2 va = [PX 2 va, PX 1 va]" by (simp add: numeral_2_eq_2)
  from walk_loop_alloc[OF assms(1,2), of "[]" r 2 va, unfolded append_Nil] obtain res t where
    t: "walk_loop 2 r va True s = Ok res t" "pts_inv t R" "pt_frame R s t"
      "\<forall>r' \<in> R. \<forall>a. vmap (mem t) r' a = vmap (mem s) r' a" "card (free_pages s) \<le> card (free_pages t) + 2"
      "case res of None \<Rightarrow> free_pages t = {} | Some p' \<Rightarrow> tnode (mem t) r (vpath 2 va) = Some p'"
    by auto
  show ?thesis
  proof (cases res)
    case None
    with t assms(3) show ?thesis by (intro full[of t]) (auto simp: walk_def)
  next
    case (Some p)
    with t assms(3) v show ?thesis by (intro found[of p t]) (auto simp: walk_def simp del: tnode.simps)
  qed
qed

end
