(* ===== verification/Vm_map.thy ===== *)
theory Vm_map
  imports Vm_table
begin

text \<open>
  The operations that add, remove and edit mappings, in terms of the maps of the page
  tables: \<open>mappages\<close>, \<open>uvmunmap\<close>, \<open>uvmclear\<close> and \<open>uvmcreate\<close>. \<open>vset e r va f\<close> is the family of maps \<open>f\<close>
  with the page of \<open>va\<close> in the map of \<open>r\<close> set to \<open>e\<close>.
\<close>

definition vset :: "u64 option \<Rightarrow> u64 \<Rightarrow> u64 \<Rightarrow> (u64 \<Rightarrow> u64 \<Rightarrow> u64 option) \<Rightarrow> u64 \<Rightarrow> u64 \<Rightarrow> u64 option" where
  "vset e r va f = (\<lambda>r' a. if r' = r \<and> a < MAXVA \<and> PGROUNDDOWN a = PGROUNDDOWN va then e else f r' a)"

definition leaf_entry :: "u64 \<Rightarrow> u64 option" where
  "leaf_entry e = (if has e PTE_V then Some e else None)"

lemma leaf_store:
  assumes inv: "pts_inv s R" and r: "r \<in> R" and va: "va < MAXVA"
    and p: "tnode (mem s) r [PX 2 va, PX 1 va] = Some p"
  defines "m' \<equiv> store64 (mem s) (slot p (PX 0 va))"
  shows "pts_inv (s\<lparr>mem := m' e\<rparr>) R" and "pt_frame R s (s\<lparr>mem := m' e\<rparr>)"
    and "tables (m' e) R = tables (mem s) R"
    and "r' \<in> R \<Longrightarrow> vmap (m' e) r' a = vset (leaf_entry e) r va (vmap (mem s)) r' a"
    and "r' \<in> R \<Longrightarrow> tpath js \<Longrightarrow> tnode (m' e) r' js = tnode (mem s) r' js"
proof -
  note sl = set_leaf[OF inv r p tpath_PX _ PX_less[of 0 va], where e = e]
  have l: "length [PX 2 va, PX 1 va] = 2" by simp
  have pt: "p \<in> tables (mem s) R" by (rule tables_nodeI[OF r tpath_PX p])
  show "pts_inv (s\<lparr>mem := m' e\<rparr>) R" unfolding m'_def by (rule sl(2)[OF l])
  show tn: "tnode (m' e) r' js = tnode (mem s) r' js" if "r' \<in> R" "tpath js" for r' js
    unfolding m'_def by (rule sl(1)[OF l that])
  show tb: "tables (m' e) R = tables (mem s) R" by (rule tables_mono_cong) (rule tn)
  have "m' e x = mem s x" if "PGROUNDDOWN x \<notin> tables (mem s) R" for x
    unfolding m'_def using that pt
    by (intro store64_other_page[OF pts_inv_table(2)[OF inv pt] PX_less]) auto
  with tb show "pt_frame R s (s\<lparr>mem := m' e\<rparr>)" by (simp add: pt_frame_def)
  show "vmap (m' e) r' a = vset (leaf_entry e) r va (vmap (mem s)) r' a" if "r' \<in> R"
  proof -
    have "[PX 2 a, PX 1 a] = [PX 2 va, PX 1 va] \<and> PX 0 a = PX 0 va \<longleftrightarrow> PGROUNDDOWN a = PGROUNDDOWN va"
      if "a < MAXVA" using same_page_iff[OF that va] by auto
    then show ?thesis
      unfolding m'_def sl(3)[OF l \<open>r' \<in> R\<close>] vset_def leaf_entry_def by auto
  qed
qed

lemma vset_vmap_cong:
  "(\<And>r' a. r' \<in> R \<Longrightarrow> f r' a = g r' a) \<Longrightarrow> r' \<in> R \<Longrightarrow> vset e r va f r' a = vset e r va g r' a"
  by (simp add: vset_def)

lemma table_slot_nonzero:
  assumes "pts_inv s R" and "p \<in> tables (mem s) R" and "unat i < 512"
  shows "slot p i \<noteq> 0"
proof
  assume z: "slot p i = 0"
  have "PGROUNDDOWN (slot p i + of_nat 0) = p"
    using slot_page[OF pts_inv_table(2)[OF assms(1,2)] assms(3), of 0] by simp
  then have "p = 0" by (simp add: z PGROUNDDOWN_def)
  with pts_inv_table(5)[OF assms(1,2)] show False by simp
qed

lemma vmap_Some_iff:
  "vmap m r va = Some e \<longleftrightarrow> va < MAXVA \<and> (\<exists>p. tnode m r [PX 2 va, PX 1 va] = Some p
     \<and> load64 m (slot p (PX 0 va)) = e \<and> has e PTE_V)"
  unfolding vmap_def by (auto simp: not_le Let_def simp del: tnode.simps split: option.splits if_splits)

text \<open>Looking up a mapped address finds its entry.\<close>

lemma walk_mapped:
  assumes "pts_inv s R" and "r \<in> R" and "vmap (mem s) r va = Some e"
  obtains p where "walk r va False s = Ok (slot p (PX 0 va)) s" "slot p (PX 0 va) \<noteq> 0"
    "load64 (mem s) (slot p (PX 0 va)) = e" "has e PTE_V" "va < MAXVA"
    "tnode (mem s) r [PX 2 va, PX 1 va] = Some p"
proof -
  from assms(3) obtain p where p: "tnode (mem s) r [PX 2 va, PX 1 va] = Some p"
    "load64 (mem s) (slot p (PX 0 va)) = e" "has e PTE_V" "va < MAXVA"
    unfolding vmap_Some_iff by blast
  have "slot p (PX 0 va) \<noteq> 0"
    by (rule table_slot_nonzero[OF assms(1) tables_nodeI[OF assms(2) tpath_PX p(1)] PX_less])
  with p show ?thesis by (intro that[of p]) (simp_all add: walk_find del: tnode.simps)
qed

lemma walk_unmapped:
  assumes "pts_inv s R" and "r \<in> R" and "va < MAXVA" and "vmap (mem s) r va = None"
  obtains (nowhere) "walk r va False s = Ok 0 s"
  | (invalid) p where "walk r va False s = Ok (slot p (PX 0 va)) s" "slot p (PX 0 va) \<noteq> 0"
     "\<not> has (load64 (mem s) (slot p (PX 0 va))) PTE_V" "tnode (mem s) r [PX 2 va, PX 1 va] = Some p"
proof (cases "tnode (mem s) r [PX 2 va, PX 1 va]")
  case None
  with assms(3) show ?thesis by (intro nowhere) (simp add: walk_find del: tnode.simps)
next
  case (Some p)
  have "slot p (PX 0 va) \<noteq> 0"
    by (rule table_slot_nonzero[OF assms(1) tables_nodeI[OF assms(2) tpath_PX Some] PX_less])
  with Some assms(3,4) show ?thesis
    by (intro invalid[of p]) (auto simp: walk_find vmap_def not_le Let_def simp del: tnode.simps split: if_splits)
qed

section \<open>mappages\<close>

lemma mappages_one:
  assumes "aligned va" and "va < MAXVA"
  shows "mappages r va PGSIZE pa perm s = mappages_loop 0 r va pa perm s"
proof -
  have "PGROUNDDOWN (va + PGSIZE - 1) = va"
  proof -
    have "unat (va + PGSIZE - 1) = unat va + 4095"
    proof -
      have "va + PGSIZE - 1 = va + 4095" by simp
      then show ?thesis using assms(2) by (simp add: unat_word_ariths word_less_nat_alt)
    qed
    moreover obtain k where "unat va = 4096 * k" using assms(1) by (rule alignedE)
    ultimately show ?thesis by (simp add: word_unat_eq_iff unat_PGROUNDDOWN)
  qed
  then show ?thesis by (simp add: mappages_def PGROUNDDOWN_aligned[OF assms(1)])
qed

lemma has_mapped_entry: "has (PA2PTE pa OR perm OR PTE_V) PTE_V"
  by (simp add: bit_or_iff)

text \<open>One round: either no page is left for a table, or exactly this page becomes mapped.\<close>

lemma map_page:
  assumes "pts_inv s R" and "r \<in> R" and "va < MAXVA" and "vmap (mem s) r va = None"
  obtains (full) t where "mappages_loop n r va pa perm s = Ok (- 1) t" "pts_inv t R" "pt_frame R s t"
      "free_pages t = {} \<and> card (free_pages s) \<le> 2" "\<And>r' a. r' \<in> R \<Longrightarrow> vmap (mem t) r' a = vmap (mem s) r' a"
  | (mapped) t where "pts_inv t R" "pt_frame R s t"
      "mappages_loop n r va pa perm s =
         (case n of 0 \<Rightarrow> Ok 0 t | Suc k \<Rightarrow> mappages_loop k r (va + PGSIZE) (pa + PGSIZE) perm t)"
      "\<And>r' a. r' \<in> R \<Longrightarrow> vmap (mem t) r' a = vset (Some (PA2PTE pa OR perm OR PTE_V)) r va (vmap (mem s)) r' a"
      "card (free_pages s) \<le> card (free_pages t) + 2"
  using assms(1-3)
proof (cases rule: walk_alloc)
  case (full t)
  with that(1)[of t] show ?thesis by (simp add: mappages_loop.simps)
next
  case (found t p)
  let ?e = "PA2PTE pa OR perm OR PTE_V"
  note ls = leaf_store[OF found(2) assms(2,3) found(5), where e = ?e]
  have "slot p (PX 0 va) \<noteq> 0"
    by (rule table_slot_nonzero[OF found(2) tables_nodeI[OF assms(2) tpath_PX found(5)] PX_less])
  moreover have "\<not> has (load64 (mem t) (slot p (PX 0 va))) PTE_V"
  proof
    assume "has (load64 (mem t) (slot p (PX 0 va))) PTE_V"
    then have "vmap (mem t) r va \<noteq> None" using vmap_Some_iff found(5) assms(3) by blast
    with found(4)[OF assms(2), of va] assms(4) show False by simp
  qed
  ultimately have "mappages_loop n r va pa perm s = (case n of 0 \<Rightarrow> Ok 0 (t\<lparr>mem := store64 (mem t) (slot p (PX 0 va)) ?e\<rparr>)
      | Suc k \<Rightarrow> mappages_loop k r (va + PGSIZE) (pa + PGSIZE) perm (t\<lparr>mem := store64 (mem t) (slot p (PX 0 va)) ?e\<rparr>))"
    using found(1) by (subst mappages_loop.simps) (simp add: Let_def)
  moreover have "vmap (store64 (mem t) (slot p (PX 0 va)) ?e) r' a = vset (Some ?e) r va (vmap (mem s)) r' a"
    if "r' \<in> R" for r' a
    using ls(4)[OF that] found(4)[OF that] has_mapped_entry[of pa perm] by (simp add: leaf_entry_def vset_def)
  ultimately show ?thesis
    using ls(1,2) pt_frame_trans[OF found(3)] found(6)
    by (intro that(2)[of "t\<lparr>mem := store64 (mem t) (slot p (PX 0 va)) ?e\<rparr>"]) simp_all
qed

lemma page_range:
  assumes "aligned a"
  shows "PGROUNDDOWN x = a \<longleftrightarrow> unat a \<le> unat x \<and> unat x < unat a + 4096"
proof -
  obtain k where k: "unat a = 4096 * k" using assms by (rule alignedE)
  have "PGROUNDDOWN x = a \<longleftrightarrow> unat x div 4096 = k" by (auto simp: word_unat_eq_iff unat_PGROUNDDOWN k)
  also have "\<dots> \<longleftrightarrow> 4096 * k \<le> unat x \<and> unat x < 4096 * k + 4096" by linarith
  finally show ?thesis by (simp add: k)
qed

text \<open>The entry of the address \<open>x\<close> once \<open>k\<close> pages from \<open>a\<close> on are mapped, in the map that is being extended or another.\<close>

definition range_entry :: "u64 \<Rightarrow> u64 \<Rightarrow> nat \<Rightarrow> u64 \<Rightarrow> u64 \<Rightarrow> bool \<Rightarrow> u64 option \<Rightarrow> u64 option" where
  "range_entry a pa k perm x this old =
     (if this \<and> unat a \<le> unat x \<and> unat x < unat a + 4096 * k
      then Some (PA2PTE (pa + (PGROUNDDOWN x - a)) OR perm OR PTE_V) else old)"

lemma unat_page_add:
  assumes "unat a + 4096 * k < 2 ^ 64"
  shows "unat (a + 4096 * of_nat k :: u64) = unat a + 4096 * k"
proof -
  have "unat (4096 * of_nat k :: u64) = 4096 * k"
    using assms unat_of_nat_u64[of "4096 * k"] by simp
  with assms show ?thesis by (simp add: unat_add_u64)
qed

lemma aligned_page_add:
  assumes "aligned a" and "unat a + 4096 * k < 2 ^ 64"
  shows "aligned (a + 4096 * of_nat k)"
  using assms unat_page_add[OF assms(2)] by (auto simp: aligned_def)

lemma mappages_loop_range:
  assumes "pts_inv s R" and "r \<in> R" and "aligned a" and "unat a + 4096 * Suc n \<le> unat MAXVA"
    and "\<And>x. unat a \<le> unat x \<Longrightarrow> unat x < unat a + 4096 * Suc n \<Longrightarrow> vmap (mem s) r x = None"
  shows "\<exists>k t res. mappages_loop n r a pa perm s = Ok res t \<and> pts_inv t R \<and> pt_frame R s t
     \<and> (res = 0 \<and> k = Suc n \<or> res = - 1 \<and> k \<le> n \<and> free_pages t = {})
     \<and> (\<forall>r' \<in> R. \<forall>x. vmap (mem t) r' x = range_entry a pa k perm x (r' = r) (vmap (mem s) r' x))"
  using assms
proof (induction n arbitrary: a pa s)
  case 0
  have am: "a < MAXVA" using 0(4) by (simp add: word_less_nat_alt)
  have none: "vmap (mem s) r a = None" using 0(5)[of a] by simp
  from 0(1,2) am none show ?case
  proof (cases rule: map_page[where n = 0 and pa = pa and perm = perm])
    case (full t)
    then show ?thesis by (intro exI[of _ "0 :: nat"] exI[of _ t] exI[of _ "- 1 :: cint"]) (auto simp: range_entry_def)
  next
    case (mapped t)
    have "vmap (mem t) r' x = range_entry a pa 1 perm x (r' = r) (vmap (mem s) r' x)" if "r' \<in> R" for r' x
      using mapped(4)[OF that, of x] 0(4) page_range[OF 0(3), of x] PGROUNDDOWN_aligned[OF 0(3)]
      by (auto simp: vset_def range_entry_def word_less_nat_alt)
    with mapped show ?thesis by (intro exI[of _ "1 :: nat"] exI[of _ t] exI[of _ "0 :: cint"]) simp
  qed
next
  case (Suc n)
  have am: "a < MAXVA" using Suc.prems(4) by (simp add: word_less_nat_alt)
  have none: "vmap (mem s) r a = None" using Suc.prems(5)[of a] by simp
  have u: "unat (a + 4096) = unat a + 4096" using unat_page_add[of a 1] Suc.prems(4) by simp
  have al: "aligned (a + 4096)" using aligned_page_add[OF Suc.prems(3), of 1] Suc.prems(4) by simp
  from Suc.prems(1,2) am none show ?case
  proof (cases rule: map_page[where n = "Suc n" and pa = pa and perm = perm])
    case (full t)
    then show ?thesis by (intro exI[of _ "0 :: nat"] exI[of _ t] exI[of _ "- 1 :: cint"]) (auto simp: range_entry_def)
  next
    case (mapped t)
    have v: "vmap (mem t) r' x = range_entry a pa 1 perm x (r' = r) (vmap (mem s) r' x)" if "r' \<in> R" for r' x
      using mapped(4)[OF that, of x] Suc.prems(4) page_range[OF Suc.prems(3), of x] PGROUNDDOWN_aligned[OF Suc.prems(3)]
      by (auto simp: vset_def range_entry_def word_less_nat_alt)
    have "vmap (mem t) r x = None" if "unat (a + 4096) \<le> unat x" "unat x < unat (a + 4096) + 4096 * Suc n" for x
      using v[OF Suc.prems(2), of x] Suc.prems(5)[of x] that by (simp add: u range_entry_def)
    from Suc.IH[OF mapped(1) Suc.prems(2) al _ this, of "pa + 4096"] Suc.prems(4) u
    obtain k t' res where t': "mappages_loop n r (a + 4096) (pa + 4096) perm t = Ok res t'" "pts_inv t' R"
      "pt_frame R t t'" "res = 0 \<and> k = Suc n \<or> res = - 1 \<and> k \<le> n \<and> free_pages t' = {}"
      "\<forall>r' \<in> R. \<forall>x. vmap (mem t') r' x = range_entry (a + 4096) (pa + 4096) k perm x (r' = r) (vmap (mem t) r' x)"
      by auto
    have "vmap (mem t') r' x = range_entry a pa (Suc k) perm x (r' = r) (vmap (mem s) r' x)" if "r' \<in> R" for r' x
      using t'(5) v[OF that, of x] that u by (auto simp: range_entry_def algebra_simps)
    then show ?thesis
      using mapped(3) t'(1,2,4) pt_frame_trans[OF mapped(2) t'(3)]
      by (intro exI[of _ "Suc k"] exI[of _ t'] exI[of _ res]) auto
  qed
qed

section \<open>Unmapping without freeing, and clearing the user bit\<close>

lemma unmap_page_keep:
  assumes "pts_inv s R" and "r \<in> R" and "vmap (mem s) r a = Some e" and "PTE_FLAGS e \<noteq> PTE_V"
  obtains t where "unmap_page r a False s = Ok () t" "pts_inv t R" "pt_frame R s t"
    "\<And>r' x. r' \<in> R \<Longrightarrow> vmap (mem t) r' x = vset None r a (vmap (mem s)) r' x"
  using assms(1-3)
proof (cases rule: walk_mapped)
  case (1 p)
  note ls = leaf_store[OF assms(1,2) 1(5,6), where e = 0]
  have "leaf_entry 0 = None" by (simp add: leaf_entry_def)
  with 1 ls assms(4) show ?thesis
    by (intro that[of "s\<lparr>mem := store64 (mem s) (slot p (PX 0 a)) 0\<rparr>"]) (simp_all add: unmap_page_def)
qed

lemma uvmclear_entry:
  assumes "pts_inv s R" and "r \<in> R" and "vmap (mem s) r va = Some e"
  obtains t where "uvmclear r va s = Ok () t" "pts_inv t R" "pt_frame R s t"
    "\<And>r' x. r' \<in> R \<Longrightarrow> vmap (mem t) r' x = vset (Some (e AND NOT PTE_U)) r va (vmap (mem s)) r' x"
  using assms
proof (cases rule: walk_mapped)
  case (1 p)
  note ls = leaf_store[OF assms(1,2) 1(5,6), where e = "e AND NOT PTE_U"]
  have "bit (e AND NOT PTE_U) 0" using 1(4) by (simp add: bit_and_iff bit_not_iff)
  then have "leaf_entry (e AND NOT PTE_U) = Some (e AND NOT PTE_U)" by (simp add: leaf_entry_def)
  with 1 ls show ?thesis
    by (intro that[of "s\<lparr>mem := store64 (mem s) (slot p (PX 0 va)) (e AND NOT PTE_U)\<rparr>"])
      (simp_all add: uvmclear_def)
qed

section \<open>uvmcreate\<close>

lemma tnode_zero_page:
  assumes "\<And>k. unat k < 512 \<Longrightarrow> load64 m (slot q k) = 0" and "tpath js"
  shows "tnode m q js = (if js = [] then Some q else None)"
  using assms by (cases js) (auto simp: tpath_def Let_def)

definition blank :: "u64 \<Rightarrow> 'z kmem_scheme \<Rightarrow> 'z kmem_scheme" where
  "blank q s = (taken q s)\<lparr>mem := memset (mem (taken q s)) q 0 PGSIZE_nat\<rparr>"

lemma blank_simps [simp]:
  "syms (blank q s) = syms s" "refcnt (blank q s) = (refcnt s)(page_number q := 1)"
  "kmem.more (blank q s) = kmem.more s"
  by (simp_all add: blank_def)

lemma blank_mem: "aligned q \<Longrightarrow> mem (blank q s) = (\<lambda>x. if PGROUNDDOWN x = q then 0 else mem s x)"
  by (auto simp: blank_def memset_page)

lemma blank_free:
  assumes "q \<in> free_pages s"
  shows "free_pages (blank q s) = free_pages s - {q}"
  using free_pages_taken[of s q] assms by (simp add: blank_def free_pages_def)

lemma kmem_inv_blank:
  assumes "q \<in> free_pages s" and "kmem_inv (taken q s)"
  shows "kmem_inv (blank q s)"
  unfolding blank_def
proof (rule kmem_inv_mem[OF assms(2)])
  fix x assume "PGROUNDDOWN x \<in> free_pages (taken q s)"
  moreover have "ram_page s q" using assms(1) by (simp add: free_pages_def)
  ultimately have "PGROUNDDOWN x \<noteq> q" using free_pages_taken by blast
  then show "memset (mem (taken q s)) q 0 PGSIZE_nat x = mem (taken q s) x"
    using \<open>ram_page s q\<close> by (simp add: memset_page ram_page_def)
qed

text \<open>Taking and clearing a page leaves the page tables as they are.\<close>

lemma blank_pts_inv:
  assumes inv: "pts_inv s R" and q: "q \<in> free_pages s" and kt: "kmem_inv (taken q s)"
  shows "pts_inv (blank q s) R" and "q \<notin> tables (mem (blank q s)) R"
    and "r \<in> R \<Longrightarrow> tpath js \<Longrightarrow> tnode (mem (blank q s)) r js = tnode (mem s) r js"
    and "r \<in> R \<Longrightarrow> vmap (mem (blank q s)) r a = vmap (mem s) r a"
    and "tables (mem (blank q s)) R = tables (mem s) R"
proof -
  have al: "aligned q" and q0: "q \<notin> tables (mem s) R"
    using q pts_inv_table(4)[OF inv] by (auto simp: free_pages_def ram_page_def)
  have same: "mem (blank q s) x = mem s x" if "p \<in> tables (mem s) R" "PGROUNDDOWN x = p" for p x
    using that q0 by (auto simp: blank_mem[OF al])
  note tc = tables_cong[of "mem s" R "mem (blank q s)"]
  show tn: "tnode (mem (blank q s)) r js = tnode (mem s) r js" if "r \<in> R" "tpath js" for r js
    using that same pts_inv_table(2)[OF inv] by (intro tc(1)) auto
  show "vmap (mem (blank q s)) r a = vmap (mem s) r a" if "r \<in> R"
    using that same pts_inv_table(2)[OF inv] by (intro tc(2)) auto
  show tb: "tables (mem (blank q s)) R = tables (mem s) R" by (rule tables_mono_cong) (rule tn)
  show "q \<notin> tables (mem (blank q s)) R" using q0 tb by simp
  have "tnode_inj (mem (blank q s)) R = tnode_inj (mem s) R" by (rule tnode_inj_cong) (rule tn)
  moreover have "ram_page (blank q s) p = ram_page s p" for p by (rule ram_page_syms) simp
  ultimately show "pts_inv (blank q s) R"
    using inv kmem_inv_blank[OF q kt] q0 tb pts_inv_table[OF inv] by (auto simp: pts_inv_def)
qed

lemma uvmcreate_cases:
  assumes inv: "pts_inv s R"
  obtains (full) "uvmcreate s = Ok 0 s" "free_pages s = {}"
  | (new) q where "q \<in> free_pages s" "q \<noteq> 0" "uvmcreate s = Ok q (blank q s)" "pts_inv (blank q s) (insert q R)" "q \<notin> R"
      "\<And>a. vmap (mem (blank q s)) q a = None" "\<And>r a. r \<in> R \<Longrightarrow> vmap (mem (blank q s)) r a = vmap (mem s) r a"
      "tables (mem (blank q s)) (insert q R) = insert q (tables (mem s) R)"
  using pts_inv_kmem[OF inv]
proof (cases rule: kalloc_cases)
  case none
  then show ?thesis by (intro full) (simp_all add: uvmcreate_def)
next
  case (some q)
  note bl = blank_pts_inv[OF inv some(1,3)]
  have al: "aligned q" and rq: "ram_page s q" and nz: "q \<noteq> 0"
    using free_page[OF some(1)] pts_inv_kmem[OF inv] by auto
  have "load64 (mem (blank q s)) (slot q k) = 0" if "unat k < 512" for k
    unfolding blank_def using load64_zero_page[OF al that] by simp
  then have tz: "tnode (mem (blank q s)) q js = (if js = [] then Some q else None)" if "tpath js" for js
    using that by (rule tnode_zero_page)
  have nR: "q \<notin> R" using bl(2) tables_nodeI[of q R "[]"] by auto
  have tb: "tables (mem (blank q s)) (insert q R) = insert q (tables (mem (blank q s)) R)"
  proof (intro set_eqI iffI)
    fix x assume "x \<in> tables (mem (blank q s)) (insert q R)"
    then obtain r js where "r \<in> insert q R" "tpath js" "tnode (mem (blank q s)) r js = Some x"
      unfolding tables_def by blast
    then show "x \<in> insert q (tables (mem (blank q s)) R)"
      using tz[of js] tables_nodeI[of r R js] by (cases "r = q") (auto split: if_splits)
  next
    fix x assume "x \<in> insert q (tables (mem (blank q s)) R)"
    then show "x \<in> tables (mem (blank q s)) (insert q R)"
      using tables_nodeI[of q "insert q R" "[]" "mem (blank q s)" q] unfolding tables_def by auto
  qed
  have "tnode_inj (mem (blank q s)) (insert q R)"
    unfolding tnode_inj_def
  proof (intro ballI allI impI, elim conjE)
    fix r r' js ks p
    assume h: "r \<in> insert q R" "r' \<in> insert q R" "tpath js" "tpath ks"
      "tnode (mem (blank q s)) r js = Some p" "tnode (mem (blank q s)) r' ks = Some p"
    have inj: "tnode_inj (mem (blank q s)) R" using bl(1) by (simp add: pts_inv_def)
    have out: "p' \<noteq> q" if "r \<in> R" "tpath js" "tnode (mem (blank q s)) r js = Some p'" for r js p'
      using tables_nodeI[OF that] bl(2) by auto
    show "r = r' \<and> js = ks"
    proof (cases "p = q")
      case True
      then have e: "r = q" "r' = q" using h out by blast+
      then have "js = []" "ks = []"
        using h(5,6) tz[OF h(3)] tz[OF h(4)] by (simp_all split: if_splits)
      with e show ?thesis by simp
    next
      case False
      have "r \<noteq> q" using False h(5) tz[OF h(3)] by (auto split: if_splits)
      moreover have "r' \<noteq> q" using False h(6) tz[OF h(4)] by (auto split: if_splits)
      ultimately have "r \<in> R" "r' \<in> R" using h(1,2) by auto
      then show ?thesis using tnode_injD[OF inj _ _ h(3-6)] by blast
    qed
  qed
  moreover have "ram_page (blank q s) q" using rq ram_page_syms[of "blank q s" s q] by simp
  moreover have "refcnt (blank q s) (page_number q) = 1" by simp
  ultimately have "pts_inv (blank q s) (insert q R)"
    using bl(1) unfolding pts_inv_def tb by blast
  moreover have "vmap (mem (blank q s)) q a = None" for a
    using tz[OF tpath_PX[of a]] by (simp add: vmap_def del: tnode.simps)
  ultimately show ?thesis
    using some nz nR bl(4,5) tb by (intro new[of q]) (simp_all add: uvmcreate_def blank_def)
qed

end
