(* ===== verification/Vm_user.thy ===== *)
theory Vm_user
  imports Vm_map
begin

text \<open>
  User memory. \<open>U\<close> is the set of the mapped user pages of all address spaces, as pairs of a
  root and a page address, and \<open>X p\<close> the number of references to the page \<open>p\<close> that the kernel
  holds outside any page table (a page just allocated, a trapframe, a pipe). The
  invariant \<open>uvm_inv s R U X\<close> says that the reference count of every page in use is the number of
  its user mappings plus these references, and that only pages of \<open>U\<close> are accessible to user code.

  Mapping and unmapping a page turn references of one kind into the other and keep the
  sum \<open>held\<close>; \<open>kalloc\<close>, \<open>increse\<close> and \<open>kfree\<close> change it with the count.
\<close>

definition owners :: "memory \<Rightarrow> (u64 \<times> u64) set \<Rightarrow> u64 \<Rightarrow> (u64 \<times> u64) set" where
  "owners m U p = {(r, a) \<in> U. \<exists>e. vmap m r a = Some e \<and> PTE2PA e = p}"

definition held :: "memory \<Rightarrow> (u64 \<times> u64) set \<Rightarrow> (u64 \<Rightarrow> nat) \<Rightarrow> u64 \<Rightarrow> nat" where
  "held m U X p = card (owners m U p) + X p"

definition user_pages :: "memory \<Rightarrow> u64 set \<Rightarrow> (u64 \<times> u64) set \<Rightarrow> bool" where
  "user_pages m R U \<longleftrightarrow>
     (\<forall>(r, a) \<in> U. r \<in> R \<and> aligned a \<and> a < MAXVA \<and> (\<exists>e. vmap m r a = Some e \<and> has e PTE_R))
     \<and> (\<forall>r \<in> R. \<forall>a e. vmap m r a = Some e \<and> has e PTE_U \<longrightarrow> (r, PGROUNDDOWN a) \<in> U)"

definition uvm_inv :: "'z kmem_scheme \<Rightarrow> u64 set \<Rightarrow> (u64 \<times> u64) set \<Rightarrow> (u64 \<Rightarrow> nat) \<Rightarrow> bool" where
  "uvm_inv s R U X \<longleftrightarrow> pts_inv s R \<and> user_pages (mem s) R U
     \<and> (\<forall>p. 0 < held (mem s) U X p \<longrightarrow> ram_page s p \<and> p \<notin> tables (mem s) R
          \<and> sint (refcnt s (page_number p)) = int (held (mem s) U X p))"

text \<open>The contents of the pages in use stay as they are.\<close>

definition keeps :: "(u64 \<times> u64) set \<Rightarrow> (u64 \<Rightarrow> nat) \<Rightarrow> 'z kmem_scheme \<Rightarrow> 'z kmem_scheme \<Rightarrow> bool" where
  "keeps U X s t \<longleftrightarrow> syms t = syms s \<and> kmem.more t = kmem.more s
     \<and> (\<forall>p x. 0 < held (mem s) U X p \<longrightarrow> PGROUNDDOWN x = p \<longrightarrow> mem t x = mem s x)"

text \<open>
  The pages in use that neither a table nor a user mapping nor a reference of the kernel accounts for. An operation that
  leaves this set as it is leaks no page.
\<close>

definition lost :: "'z kmem_scheme \<Rightarrow> u64 set \<Rightarrow> (u64 \<times> u64) set \<Rightarrow> (u64 \<Rightarrow> nat) \<Rightarrow> u64 set" where
  "lost s R U X = {p. ram_page s p \<and> p \<notin> free_pages s \<and> p \<notin> tables (mem s) R \<and> held (mem s) U X p = 0}"

lemma keeps_refl [simp]: "keeps U X s s"
  by (simp add: keeps_def)

lemma user_pagesD:
  assumes "user_pages m R U"
  shows "(r, a) \<in> U \<Longrightarrow> r \<in> R \<and> aligned a \<and> a < MAXVA \<and> (\<exists>e. vmap m r a = Some e \<and> has e PTE_R)"
    and "r \<in> R \<Longrightarrow> vmap m r a = Some e \<Longrightarrow> has e PTE_U \<Longrightarrow> (r, PGROUNDDOWN a) \<in> U"
  using assms unfolding user_pages_def by blast+

lemma uvm_pts: "uvm_inv s R U X \<Longrightarrow> pts_inv s R"
  by (simp add: uvm_inv_def)

lemma uvm_kmem: "uvm_inv s R U X \<Longrightarrow> kmem_inv s"
  by (simp add: uvm_inv_def pts_inv_def)

lemma finite_owners [simp]: "finite (owners m U p)"
  by (rule finite)

lemma uvm_held:
  assumes "uvm_inv s R U X" and "0 < held (mem s) U X p"
  shows "ram_page s p" "aligned p" "p \<notin> tables (mem s) R" "p \<notin> free_pages s"
    "sint (refcnt s (page_number p)) = int (held (mem s) U X p)" "refcnt s (page_number p) \<noteq> 0"
proof -
  show r: "ram_page s p" and "p \<notin> tables (mem s) R"
    and c: "sint (refcnt s (page_number p)) = int (held (mem s) U X p)"
    using assms by (auto simp: uvm_inv_def)
  show "aligned p" using r by (rule ram_page_aligned)
  show "refcnt s (page_number p) \<noteq> 0" using c assms(2) by auto
  then show "p \<notin> free_pages s" by (simp add: free_pages_def)
qed

lemma free_not_held:
  assumes "uvm_inv s R U X" and "q \<in> free_pages s"
  shows "held (mem s) U X q = 0" "owners (mem s) U q = {}" "X q = 0"
proof -
  show h: "held (mem s) U X q = 0" using uvm_held(4)[OF assms(1), of q] assms(2) by (cases "held (mem s) U X q") auto
  then show "owners (mem s) U q = {}" "X q = 0" by (simp_all add: held_def)
qed

lemma uvm_user:
  assumes "uvm_inv s R U X" and "(r, a) \<in> U"
  obtains e where "vmap (mem s) r a = Some e" "has e PTE_R" "r \<in> R" "aligned a" "a < MAXVA"
    "(r, a) \<in> owners (mem s) U (PTE2PA e)" "0 < held (mem s) U X (PTE2PA e)"
proof -
  from assms obtain e where e: "vmap (mem s) r a = Some e" "has e PTE_R" "r \<in> R" "aligned a" "a < MAXVA"
    by (fastforce simp: uvm_inv_def user_pages_def)
  then have o: "(r, a) \<in> owners (mem s) U (PTE2PA e)" using assms(2) by (auto simp: owners_def)
  then have "0 < card (owners (mem s) U (PTE2PA e))" by (auto simp: card_gt_0_iff)
  then have "0 < held (mem s) U X (PTE2PA e)" by (simp add: held_def)
  with e o show ?thesis by (intro that) auto
qed

text \<open>A table operation that keeps the references of every page.\<close>

lemma uvm_transfer:
  assumes inv: "uvm_inv s R U X" and pts: "pts_inv t R" and fr: "pt_frame R s t"
    and h: "\<And>p. held (mem t) U' X' p = held (mem s) U X p" and u: "user_pages (mem t) R U'"
  shows "uvm_inv t R U' X'" and "keeps U X s t" and "lost t R U' X' = lost s R U X"
proof -
  have "p \<in> free_pages t \<or> p \<in> tables (mem t) R \<longleftrightarrow> p \<in> free_pages s \<or> p \<in> tables (mem s) R" for p
    using fr by (auto simp: pt_frame_def)
  moreover have "ram_page t p = ram_page s p" for p using fr ram_page_syms[of t s p] by (simp add: pt_frame_def)
  ultimately show "lost t R U' X' = lost s R U X" using h by (auto simp: lost_def)
  have "ram_page t p \<and> p \<notin> tables (mem t) R \<and> sint (refcnt t (page_number p)) = int (held (mem t) U' X' p)"
    if "0 < held (mem t) U' X' p" for p
  proof -
    have p: "0 < held (mem s) U X p" using that h by simp
    note hp = uvm_held[OF inv p]
    have "ram_page t p" using hp(1) fr ram_page_syms[of t s p] by (simp add: pt_frame_def)
    moreover have "p \<notin> tables (mem t) R" using hp(3,4) fr by (auto simp: pt_frame_def)
    moreover have "refcnt t (page_number p) = refcnt s (page_number p)" using hp(6) fr by (simp add: pt_frame_def)
    ultimately show ?thesis using hp(5) h by simp
  qed
  with pts u show "uvm_inv t R U' X'" by (simp add: uvm_inv_def)
  have "mem t x = mem s x" if "0 < held (mem s) U X (PGROUNDDOWN x)" for x
    using uvm_held[OF inv that] fr by (simp add: pt_frame_def)
  then show "keeps U X s t" using fr by (auto simp: keeps_def pt_frame_def)
qed

lemma owners_cong:
  assumes "user_pages (mem s) R U" and "\<And>r a. r \<in> R \<Longrightarrow> vmap m' r a = vmap (mem s) r a"
  shows "owners m' U p = owners (mem s) U p"
  using assms by (auto simp: owners_def user_pages_def; force)

lemma user_pages_cong:
  assumes "\<And>r a. r \<in> R \<Longrightarrow> vmap m' r a = vmap m r a"
  shows "user_pages m' R U = user_pages m R U"
  unfolding user_pages_def using assms by (auto; force)

lemma uvm_same_maps:
  assumes inv: "uvm_inv s R U X" and pts: "pts_inv t R" and fr: "pt_frame R s t"
    and v: "\<And>r a. r \<in> R \<Longrightarrow> vmap (mem t) r a = vmap (mem s) r a"
  shows "uvm_inv t R U X" and "keeps U X s t" and "lost t R U X = lost s R U X"
proof -
  have u: "user_pages (mem s) R U" using inv by (simp add: uvm_inv_def)
  have h: "held (mem t) U X p = held (mem s) U X p" for p
    using owners_cong[OF u v] by (simp add: held_def)
  have u': "user_pages (mem t) R U" using user_pages_cong[OF v] u by simp
  show "uvm_inv t R U X" by (rule uvm_transfer(1)[OF inv pts fr h u'])
  show "keeps U X s t" by (rule uvm_transfer(2)[OF inv pts fr h u'])
  show "lost t R U X = lost s R U X" by (rule uvm_transfer(3)[OF inv pts fr h u'])
qed

section \<open>Mapping and unmapping user pages\<close>

lemma vset_other: "aligned a \<Longrightarrow> aligned b \<Longrightarrow> (r', a) \<noteq> (r, b) \<Longrightarrow> vset e r b f r' a = f r' a"
  by (auto simp: vset_def PGROUNDDOWN_aligned)

lemma vset_same: "a < MAXVA \<Longrightarrow> vset e r a f r a = e"
  by (simp add: vset_def)

lemma uvm_add:
  assumes inv: "uvm_inv s R U X" and pts: "pts_inv t R" and fr: "pt_frame R s t"
    and r: "r \<in> R" "aligned a" "a < MAXVA" and new: "(r, a) \<notin> U"
    and v: "\<And>r' x. r' \<in> R \<Longrightarrow> vmap (mem t) r' x = vset (Some e) r a (vmap (mem s)) r' x"
    and e: "has e PTE_R" and x: "0 < X (PTE2PA e)"
  shows "uvm_inv t R (insert (r, a) U) (X(PTE2PA e := X (PTE2PA e) - 1))" and "keeps U X s t"
    and "held (mem t) (insert (r, a) U) (X(PTE2PA e := X (PTE2PA e) - 1)) p = held (mem s) U X p"
    and "lost t R (insert (r, a) U) (X(PTE2PA e := X (PTE2PA e) - 1)) = lost s R U X"
proof -
  let ?q = "PTE2PA e" and ?U = "insert (r, a) U"
  have u: "user_pages (mem s) R U" using inv by (simp add: uvm_inv_def)
  have same: "vmap (mem t) r' a' = vmap (mem s) r' a'" if "(r', a') \<in> U" for r' a'
    using v[of r' a'] vset_other[of a' a r' r] user_pagesD(1)[OF u that] that new r by auto
  have ow: "owners (mem t) ?U p = (if p = ?q then insert (r, a) (owners (mem s) U p) else owners (mem s) U p)" for p
  proof -
    have "vmap (mem t) r a = Some e" using v[OF r(1)] r(3) by (simp add: vset_same)
    with same show ?thesis by (auto simp: owners_def)
  qed
  have "(r, a) \<notin> owners (mem s) U ?q" using new by (auto simp: owners_def)
  then show h: "held (mem t) ?U (X(?q := X ?q - 1)) p = held (mem s) U X p" for p
    using x by (simp add: held_def ow)
  have u': "user_pages (mem t) R ?U"
    unfolding user_pages_def
  proof (intro conjI ballI allI impI)
    fix y assume "y \<in> ?U"
    then show "case y of (r', a') \<Rightarrow> r' \<in> R \<and> aligned a' \<and> a' < MAXVA \<and> (\<exists>e. vmap (mem t) r' a' = Some e \<and> has e PTE_R)"
    proof
      assume "y = (r, a)"
      then show ?thesis using v[OF r(1)] r e by (simp add: vset_same)
    next
      assume y: "y \<in> U"
      obtain r' a' where ra: "y = (r', a')" by (cases y)
      with y same[of r' a'] user_pagesD(1)[OF u, of r' a'] show ?thesis by auto
    qed
  next
    fix r' a' e' assume "r' \<in> R" "vmap (mem t) r' a' = Some e' \<and> has e' PTE_U"
    then show "(r', PGROUNDDOWN a') \<in> ?U"
      using v[of r' a'] u PGROUNDDOWN_aligned[OF r(2)] by (auto simp: user_pages_def vset_def split: if_splits)
  qed
  show "uvm_inv t R ?U (X(?q := X ?q - 1))" by (rule uvm_transfer(1)[OF inv pts fr h u'])
  show "lost t R ?U (X(?q := X ?q - 1)) = lost s R U X" by (rule uvm_transfer(3)[OF inv pts fr h u'])
  show "keeps U X s t" by (rule uvm_transfer(2)[OF inv pts fr h u'])
qed

lemma uvm_remove:
  assumes inv: "uvm_inv s R U X" and pts: "pts_inv t R" and fr: "pt_frame R s t"
    and ra: "(r, a) \<in> U" and e: "vmap (mem s) r a = Some e"
    and v: "\<And>r' x. r' \<in> R \<Longrightarrow> vmap (mem t) r' x = vset None r a (vmap (mem s)) r' x"
  shows "uvm_inv t R (U - {(r, a)}) (X(PTE2PA e := X (PTE2PA e) + 1))" and "keeps U X s t"
    and "held (mem t) (U - {(r, a)}) (X(PTE2PA e := X (PTE2PA e) + 1)) p = held (mem s) U X p"
    and "lost t R (U - {(r, a)}) (X(PTE2PA e := X (PTE2PA e) + 1)) = lost s R U X"
proof -
  let ?q = "PTE2PA e" and ?U = "U - {(r, a)}"
  have u: "user_pages (mem s) R U" using inv by (simp add: uvm_inv_def)
  from uvm_user[OF inv ra] have r: "r \<in> R" "aligned a" "a < MAXVA" by auto
  have same: "vmap (mem t) r' a' = vmap (mem s) r' a'" if "(r', a') \<in> ?U" for r' a'
  proof -
    have "r' \<in> R" "aligned a'" using that user_pagesD(1)[OF u] by blast+
    then show ?thesis using v[of r' a'] vset_other[of a' a r' r] that r by auto
  qed
  have ow: "owners (mem t) ?U p = owners (mem s) U p - {(r, a)}" for p
    using same by (auto simp: owners_def)
  have q: "(r, a) \<in> owners (mem s) U p \<longleftrightarrow> p = ?q" for p using ra e by (auto simp: owners_def)
  show h: "held (mem t) ?U (X(?q := X ?q + 1)) p = held (mem s) U X p" for p
  proof (cases "p = ?q")
    case True
    then have "0 < card (owners (mem s) U p)" using q[of p] by (auto simp: card_gt_0_iff)
    with True q[of p] show ?thesis by (simp add: held_def ow)
  next
    case False
    with q[of p] show ?thesis by (simp add: held_def ow)
  qed
  have u': "user_pages (mem t) R ?U"
    unfolding user_pages_def
  proof (intro conjI ballI allI impI)
    fix y assume y: "y \<in> ?U"
    obtain r' a' where ra': "y = (r', a')" by (cases y)
    with y same[of r' a'] user_pagesD(1)[OF u, of r' a']
    show "case y of (r', a') \<Rightarrow> r' \<in> R \<and> aligned a' \<and> a' < MAXVA \<and> (\<exists>e. vmap (mem t) r' a' = Some e \<and> has e PTE_R)"
      by auto
  next
    fix r' a' e' assume "r' \<in> R" "vmap (mem t) r' a' = Some e' \<and> has e' PTE_U"
    then show "(r', PGROUNDDOWN a') \<in> ?U"
      using v[of r' a'] u PGROUNDDOWN_aligned[OF r(2)] vmap_Some_iff[of "mem s" r' a' e']
      by (auto simp: user_pages_def vset_def split: if_splits)
  qed
  show "uvm_inv t R ?U (X(?q := X ?q + 1))" by (rule uvm_transfer(1)[OF inv pts fr h u'])
  show "lost t R ?U (X(?q := X ?q + 1)) = lost s R U X" by (rule uvm_transfer(3)[OF inv pts fr h u'])
  show "keeps U X s t" by (rule uvm_transfer(2)[OF inv pts fr h u'])
qed

text \<open>A mapping without user access (the trampoline, the trapframe) concerns no user page.\<close>

lemma uvm_kernel_map:
  assumes inv: "uvm_inv s R U X" and pts: "pts_inv t R" and fr: "pt_frame R s t"
    and r: "r \<in> R" "aligned a" "a < MAXVA" and new: "(r, a) \<notin> U"
    and v: "\<And>r' x. r' \<in> R \<Longrightarrow> vmap (mem t) r' x = vset e r a (vmap (mem s)) r' x"
    and e: "\<And>e'. e = Some e' \<Longrightarrow> \<not> has e' PTE_U"
  shows "uvm_inv t R U X" and "keeps U X s t"
proof -
  have u: "user_pages (mem s) R U" using inv by (simp add: uvm_inv_def)
  have same: "vmap (mem t) r' a' = vmap (mem s) r' a'" if "(r', a') \<in> U" for r' a'
    using v[of r' a'] vset_other[of a' a r' r] user_pagesD(1)[OF u that] that new r by auto
  have h: "held (mem t) U X p = held (mem s) U X p" for p
    using same by (auto simp: held_def owners_def intro!: arg_cong[where f = card])
  have u': "user_pages (mem t) R U"
    unfolding user_pages_def
  proof (intro conjI ballI allI impI)
    fix y assume y: "y \<in> U"
    obtain r' a' where ra': "y = (r', a')" by (cases y)
    with y same[of r' a'] user_pagesD(1)[OF u, of r' a']
    show "case y of (r', a') \<Rightarrow> r' \<in> R \<and> aligned a' \<and> a' < MAXVA \<and> (\<exists>e. vmap (mem t) r' a' = Some e \<and> has e PTE_R)"
      by auto
  next
    fix r' a' e' assume "r' \<in> R" "vmap (mem t) r' a' = Some e' \<and> has e' PTE_U"
    then show "(r', PGROUNDDOWN a') \<in> U"
      using v[of r' a'] e user_pagesD(2)[OF u] by (auto simp: vset_def split: if_splits)
  qed
  show "uvm_inv t R U X" by (rule uvm_transfer(1)[OF inv pts fr h u'])
  show "keeps U X s t" by (rule uvm_transfer(2)[OF inv pts fr h u'])
qed

section \<open>Taking, sharing, dropping and writing a page\<close>

lemma page_change:
  assumes inv: "pts_inv s R" and q: "q \<notin> tables (mem s) R" and m: "\<And>x. PGROUNDDOWN x \<noteq> q \<Longrightarrow> m' x = mem s x"
  shows "r \<in> R \<Longrightarrow> vmap m' r a = vmap (mem s) r a"
    and "tables m' R = tables (mem s) R" and "tnode_inj m' R"
    and "r \<in> R \<Longrightarrow> tpath js \<Longrightarrow> tnode m' r js = tnode (mem s) r js"
proof -
  have same: "m' x = mem s x" if "p \<in> tables (mem s) R" "PGROUNDDOWN x = p" for p x
    using that q by (intro m) auto
  note tc = tables_cong[of "mem s" R m']
  show "vmap m' r a = vmap (mem s) r a" if "r \<in> R"
    using that same pts_inv_table(2)[OF inv] by (intro tc(2)) auto
  show tn: "tnode m' r js = tnode (mem s) r js" if "r \<in> R" "tpath js" for r js
    using that same pts_inv_table(2)[OF inv] by (intro tc(1)) auto
  show "tables m' R = tables (mem s) R" by (rule tables_mono_cong) (rule tn)
  show "tnode_inj m' R" using tnode_inj_cong[OF tn] inv by (simp add: pts_inv_def)
qed

text \<open>
  The reference count of the page \<open>q\<close> and its contents may change, together with what
  is held of it; nothing else does.
\<close>

lemma uvm_page_change:
  assumes inv: "uvm_inv s R U X" and k: "kmem_inv t" and sy: "syms t = syms s"
    and q: "ram_page s q" "q \<notin> tables (mem s) R"
    and m: "\<forall>x. PGROUNDDOWN x \<noteq> q \<longrightarrow> mem t x = mem s x"
    and rc: "\<And>n. n \<noteq> page_number q \<Longrightarrow> refcnt t n = refcnt s n"
    and X: "\<And>p. p \<noteq> q \<Longrightarrow> X' p = X p"
    and h: "0 < held (mem s) U X' q \<Longrightarrow> sint (refcnt t (page_number q)) = int (held (mem s) U X' q)"
  shows "uvm_inv t R U X'" and "\<And>r a. r \<in> R \<Longrightarrow> vmap (mem t) r a = vmap (mem s) r a"
    and "held (mem t) U X' p = held (mem s) U X' p"
proof -
  have pc: "\<And>r a. r \<in> R \<Longrightarrow> vmap (mem t) r a = vmap (mem s) r a" "tables (mem t) R = tables (mem s) R"
    "tnode_inj (mem t) R"
    using page_change[OF uvm_pts[OF inv] q(2), of "mem t"] m by auto
  have rp: "ram_page t p = ram_page s p" for p by (rule ram_page_syms[OF sy])
  have pn: "page_number p \<noteq> page_number q" if "aligned p" "p \<noteq> q" for p
    using that page_number_inj[of p q] ram_page_aligned[OF q(1)] by blast
  show v: "vmap (mem t) r a = vmap (mem s) r a" if "r \<in> R" for r a using that by (rule pc(1))
  have u: "user_pages (mem s) R U" using inv by (simp add: uvm_inv_def)
  have ow: "owners (mem t) U p = owners (mem s) U p" for p by (rule owners_cong[OF u v])
  then show hh: "held (mem t) U X' p = held (mem s) U X' p" for p by (simp add: held_def)
  have "ram_page t p \<and> refcnt t (page_number p) = 1" if p: "p \<in> tables (mem s) R" for p
  proof -
    note pt = pts_inv_table[OF uvm_pts[OF inv] p]
    have "p \<noteq> q" using p q(2) by auto
    then show ?thesis using pt rc[OF pn[OF pt(2)]] by (simp add: rp)
  qed
  then have "pts_inv t R" using k pc(2,3) by (simp add: pts_inv_def)
  moreover have "user_pages (mem t) R U" using user_pages_cong[OF v] u by simp
  moreover have "ram_page t p \<and> p \<notin> tables (mem t) R \<and> sint (refcnt t (page_number p)) = int (held (mem t) U X' p)"
    if "0 < held (mem t) U X' p" for p
  proof (cases "p = q")
    case True
    then show ?thesis using that q h pc(2) by (simp add: hh rp)
  next
    case False
    then have "held (mem s) U X' p = held (mem s) U X p" using X by (simp add: held_def)
    moreover from this that have "0 < held (mem s) U X p" by (simp add: hh)
    note hp = uvm_held[OF inv this]
    ultimately show ?thesis using hp rc[OF pn[OF hp(2) False]] pc(2) by (simp add: hh rp)
  qed
  ultimately show "uvm_inv t R U X'" by (simp add: uvm_inv_def)
qed

text \<open>Nothing is lost where the page was free or held before and is free or held after.\<close>

lemma lost_page_change:
  assumes inv: "uvm_inv s R U X" and sy: "syms t = syms s" and q: "ram_page s q" "q \<notin> tables (mem s) R"
    and m: "\<forall>x. PGROUNDDOWN x \<noteq> q \<longrightarrow> mem t x = mem s x" and rc: "\<And>n. n \<noteq> page_number q \<Longrightarrow> refcnt t n = refcnt s n"
    and X: "\<And>p. p \<noteq> q \<Longrightarrow> X' p = X p"
    and before: "q \<in> free_pages s \<or> 0 < held (mem s) U X q" and after: "q \<in> free_pages t \<or> 0 < held (mem s) U X' q"
  shows "lost t R U X' = lost s R U X"
proof -
  have pc: "\<And>r a. r \<in> R \<Longrightarrow> vmap (mem t) r a = vmap (mem s) r a" "tables (mem t) R = tables (mem s) R"
    using page_change[OF uvm_pts[OF inv] q(2), of "mem t"] m by auto
  have rp: "ram_page t p = ram_page s p" for p by (rule ram_page_syms[OF sy])
  have "user_pages (mem s) R U" using inv by (simp add: uvm_inv_def)
  then have h: "held (mem t) U X' p = held (mem s) U X' p" for p using owners_cong[OF _ pc(1)] by (simp add: held_def)
  have "p \<in> lost t R U X' \<longleftrightarrow> p \<in> lost s R U X" for p
  proof (cases "p = q")
    case True
    then show ?thesis using before after h[of q] by (auto simp: lost_def)
  next
    case False
    have "refcnt t (page_number p) = refcnt s (page_number p)" if "ram_page s p"
      using that False page_number_inj[OF ram_page_aligned ram_page_aligned] q(1) by (intro rc) blast
    moreover have "held (mem s) U X' p = held (mem s) U X p" using X[OF False] by (simp add: held_def)
    ultimately show ?thesis by (auto simp: lost_def rp free_pages_def pc(2) h)
  qed
  then show ?thesis by blast
qed

lemma uvm_kalloc:
  assumes inv: "uvm_inv s R U X"
  obtains (none) "kalloc s = Ok 0 s" "free_pages s = {}"
  | (some) q where "kalloc s = Ok q (taken q s)" "q \<in> free_pages s" "q \<noteq> 0" "X q = 0" "ram_page s q"
      "owners (mem s) U q = {}" "q \<notin> tables (mem s) R" "uvm_inv (taken q s) R U (X(q := 1))"
      "keeps U X s (taken q s)" "kmem_inv (taken q s)"
      "\<And>r a. r \<in> R \<Longrightarrow> vmap (mem (taken q s)) r a = vmap (mem s) r a" "lost (taken q s) R U (X(q := 1)) = lost s R U X"
  using uvm_kmem[OF inv]
proof (cases rule: kalloc_cases)
  case none
  then show ?thesis by (intro that(1))
next
  case (some q)
  note f = free_not_held[OF inv some(1)] and fp = free_page[OF some(1)]
  have t: "q \<notin> tables (mem s) R" using pts_inv_table(4)[OF uvm_pts[OF inv]] some(1) by auto
  have h1: "held (mem s) U (X(q := 1)) q = 1" using f(2) by (simp add: held_def)
  have "uvm_inv (taken q s) R U (X(q := 1))"
    and v: "\<And>r a. r \<in> R \<Longrightarrow> vmap (mem (taken q s)) r a = vmap (mem s) r a"
    using uvm_page_change[OF inv some(3) _ fp(1) t, of "X(q := 1)"] h1 by simp_all
  moreover have "keeps U X s (taken q s)"
    unfolding keeps_def using f(1) by auto
  moreover have "lost (taken q s) R U (X(q := 1)) = lost s R U X"
    using lost_page_change[OF inv _ fp(1) t, of "taken q s" "X(q := 1)"] some(1) h1 by simp
  ultimately show ?thesis
    using that(2)[OF some(2,1) fp(4)[OF uvm_kmem[OF inv]] f(3) fp(1) f(2) t _ _ some(3)] by blast
qed

text \<open>Dropping a reference of the kernel frees the page when it was the last one.\<close>

definition same_maps :: "u64 set \<Rightarrow> 'z kmem_scheme \<Rightarrow> 'z kmem_scheme \<Rightarrow> bool" where
  "same_maps R s t \<longleftrightarrow> (\<forall>r \<in> R. \<forall>a. vmap (mem t) r a = vmap (mem s) r a)"

lemma uvm_kfree:
  assumes inv: "uvm_inv s R U X" and x: "0 < X p"
  shows "\<exists>t. kfree p s = Ok () t \<and> uvm_inv t R U (X(p := X p - 1)) \<and> keeps U (X(p := X p - 1)) s t
    \<and> same_maps R s t \<and> (held (mem s) U X p = 1 \<longrightarrow> p \<in> free_pages t) \<and> free_pages s \<subseteq> free_pages t
    \<and> lost t R U (X(p := X p - 1)) = lost s R U X"
proof -
  let ?X = "X(p := X p - 1)" and ?c = "refcnt s (page_number p)"
  have pos: "0 < held (mem s) U X p" using x by (simp add: held_def)
  note hp = uvm_held[OF inv pos]
  have hX: "held (mem s) U ?X p = held (mem s) U X p - 1" using x by (simp add: held_def)
  have ge: "\<not> sint ?c < 1" using hp(5) pos by simp
  show ?thesis
  proof (cases "?c = 1")
    case True
    then have one: "held (mem s) U X p = 1" using hp(5) by simp
    have k: "kmem_inv (released p s)" by (rule kmem_inv_released[OF uvm_kmem[OF inv] hp(1,4)])
    have m: "\<forall>x. PGROUNDDOWN x \<noteq> p \<longrightarrow> mem (released p s) x = mem s x"
      using mem_released_other[OF hp(2)] by blast
    have "uvm_inv (released p s) R U ?X"
      and v: "\<And>r a. r \<in> R \<Longrightarrow> vmap (mem (released p s)) r a = vmap (mem s) r a"
      using uvm_page_change[OF inv k _ hp(1,3) m, of ?X] hX one by simp_all
    moreover have "keeps U ?X s (released p s)"
      unfolding keeps_def
    proof (intro conjI allI impI)
      fix q x assume "0 < held (mem s) U ?X q" "PGROUNDDOWN x = q"
      then have "PGROUNDDOWN x \<noteq> p" using hX one by auto
      with m show "mem (released p s) x = mem s x" by simp
    qed simp_all
    moreover have "kfree p s = Ok () (released p s)" using kfree_ram[OF hp(1)] ge True by simp
    moreover have "lost (released p s) R U ?X = lost s R U X"
      using lost_page_change[OF inv _ hp(1,3) m, of ?X] pos free_pages_released[OF hp(1)] by simp
    ultimately show ?thesis
      using one v free_pages_released[OF hp(1)] by (auto simp: same_maps_def intro!: exI[of _ "released p s"])
  next
    case False
    note c = sint_gt_one[OF ge False]
    have ne: "held (mem s) U X p \<noteq> 1" using hp(5) c by auto
    have k: "kmem_inv (unshared p s)" using kmem_inv_unshared[OF uvm_kmem[OF inv] hp(1) c] by simp
    have "sint (?c - 1) = sint ?c - 1" using c by (intro sint_dec) simp
    then have "uvm_inv (unshared p s) R U ?X"
      using uvm_page_change(1)[OF inv k _ hp(1,3), of ?X] hX hp(5) pos by simp
    moreover have "keeps U ?X s (unshared p s)" by (simp add: keeps_def)
    moreover have "kfree p s = Ok () (unshared p s)" using kfree_ram[OF hp(1)] ge False by simp
    moreover have "lost (unshared p s) R U ?X = lost s R U X"
      using lost_page_change[OF inv _ hp(1,3), of "unshared p s" ?X] pos hX ne by simp
    ultimately show ?thesis
      using ne free_pages_unshared[OF hp(1) c] by (auto simp: same_maps_def intro!: exI[of _ "unshared p s"])
  qed
qed

lemma uvm_increse:
  assumes inv: "uvm_inv s R U X" and h: "0 < held (mem s) U X p" "held (mem s) U X p < 2 ^ 31 - 1"
  shows "increse p s = Ok () (shared p s)" and "uvm_inv (shared p s) R U (X(p := X p + 1))"
proof -
  let ?X = "X(p := X p + 1)" and ?c = "refcnt s (page_number p)"
  note hp = uvm_held[OF inv h(1)]
  have c: "0 < sint ?c" "sint ?c < 2 ^ 31 - 1" using hp(5) h by simp_all
  have "p < PHYSTOP" using hp(1) by (simp add: ram_page_def)
  with c increse_Ok_iff[of p s "()" "shared p s"] show "increse p s = Ok () (shared p s)" by simp
  have k: "kmem_inv (shared p s)" using kmem_inv_shared[OF uvm_kmem[OF inv] c] by simp
  have "held (mem s) U ?X p = held (mem s) U X p + 1" by (simp add: held_def)
  then show "uvm_inv (shared p s) R U ?X"
    using uvm_page_change(1)[OF inv k _ hp(1,3), of ?X] sint_inc[OF c(2)] hp(5) by simp
qed

lemma uvm_write:
  assumes inv: "uvm_inv s R U X" and h: "0 < held (mem s) U X q"
    and m: "\<And>x. PGROUNDDOWN x \<noteq> q \<Longrightarrow> m' x = mem s x"
  shows "uvm_inv (s\<lparr>mem := m'\<rparr>) R U X" and "r \<in> R \<Longrightarrow> vmap m' r a = vmap (mem s) r a"
proof -
  note hp = uvm_held[OF inv h]
  have k: "kmem_inv (s\<lparr>mem := m'\<rparr>)"
    by (rule kmem_inv_mem[OF uvm_kmem[OF inv]]) (use m hp(4) in metis)
  show "uvm_inv (s\<lparr>mem := m'\<rparr>) R U X" and "r \<in> R \<Longrightarrow> vmap m' r a = vmap (mem s) r a"
    using uvm_page_change(1,2)[OF inv k _ hp(1,3), of X] m hp(5) by auto
qed

end
