(* ===== verification/Vm_ops.thy ===== *)
theory Vm_ops
  imports Vm_user
begin

text \<open>
  The operations on user address spaces: \<open>uvmalloc\<close>, \<open>uvmdealloc\<close>, \<open>uvmcopy\<close>, \<open>uvmunmap\<close> with freeing and
  \<open>cowfault\<close>. Each keeps \<open>uvm_inv\<close>, and its effect is stated on the set of user pages, on their
  contents and on the maps.
\<close>

section \<open>Transitivity of what is kept\<close>

lemma held_mono:
  assumes "U' \<subseteq> U" and "X' p \<le> X p"
  shows "held m U' X' p \<le> held m U X p"
proof -
  have "owners m U' p \<subseteq> owners m U p" using assms(1) by (auto simp: owners_def)
  then have "card (owners m U' p) \<le> card (owners m U p)" by (intro card_mono) simp
  with assms(2) show ?thesis by (simp add: held_def)
qed

lemma keeps_trans:
  assumes "keeps U X s t" and "keeps U' X' t u"
    and "\<And>p. 0 < held (mem s) U2 X2 p \<Longrightarrow> 0 < held (mem s) U X p \<and> 0 < held (mem t) U' X' p"
  shows "keeps U2 X2 s u"
  using assms unfolding keeps_def by metis

lemma keeps_weaken:
  assumes "keeps U X s t" and "\<And>p. 0 < held (mem s) U' X' p \<Longrightarrow> 0 < held (mem s) U X p"
  shows "keeps U' X' s t"
  using assms unfolding keeps_def by metis

lemma held_cong:
  assumes "\<And>r a. (r, a) \<in> U \<Longrightarrow> vmap m' r a = vmap m r a"
  shows "held m' U X p = held m U X p"
proof -
  have "owners m' U p = owners m U p" using assms by (auto simp: owners_def)
  then show ?thesis by (simp add: held_def)
qed

section \<open>Freeing a page that is still entered in a table\<close>

lemma store64_page_commute:
  assumes p: "aligned p" "unat i < 512" and q: "aligned q" and pq: "p \<noteq> q"
  shows "store64 (\<lambda>x. if PGROUNDDOWN x = q then c else store64 m (slot p i) v x) q w
     = store64 (store64 (\<lambda>x. if PGROUNDDOWN x = q then c else m x) q w) (slot p i) v"
    (is "?l = ?r")
proof
  fix x
  have i0: "unat (0 :: u64) < 512" by simp
  show "?l x = ?r x"
  proof (cases "PGROUNDDOWN x = p")
    case True
    then have n: "PGROUNDDOWN x \<noteq> q" using pq by simp
    have a: "store64 f q w x = f x" for f using store64_other_page[OF q i0 n, of f w] by simp
    have "\<not> unat (x - q) < 8" using a[of "\<lambda>_. 0"] a[of "\<lambda>_. 1"] by (auto simp: store64_def split: if_splits)
    then show ?thesis using n by (simp add: store64_def)
  next
    case False
    have b: "store64 f (slot p i) v x = f x" for f by (rule store64_other_page[OF p False])
    have "?l x = store64 (\<lambda>x. if PGROUNDDOWN x = q then c else m x) q w x"
      using b[of m] unfolding store64_def[of _ q] by simp
    then show ?thesis by (simp only: b)
  qed
qed

lemma kfree_store_commute:
  assumes q: "ram_page s q" and p: "aligned p" "unat i < 512" "p \<noteq> q"
    and k: "kfree q (s\<lparr>mem := store64 (mem s) (slot p i) v\<rparr>) = Ok () t"
  shows "\<exists>t0. kfree q s = Ok () t0 \<and> t = t0\<lparr>mem := store64 (mem t0) (slot p i) v\<rparr>"
proof -
  let ?s = "s\<lparr>mem := store64 (mem s) (slot p i) v\<rparr>"
  have q': "ram_page ?s q" using q by simp
  have c: "\<not> sint (refcnt s (page_number q)) < 1" using k kfree_ram[OF q'] by (auto split: if_splits)
  show ?thesis
  proof (cases "refcnt s (page_number q) = 1")
    case True
    have "released q ?s = (released q s)\<lparr>mem := store64 (mem (released q s)) (slot p i) v\<rparr>"
      using store64_page_commute[OF p(1,2) ram_page_aligned[OF q] p(3), of 1 "mem s" v "freelist s"]
      by (simp add: released_def cong: if_cong)
    with True c k kfree_ram[OF q] kfree_ram[OF q'] show ?thesis by simp
  next
    case False
    have "unshared q ?s = (unshared q s)\<lparr>mem := store64 (mem (unshared q s)) (slot p i) v\<rparr>"
      by (simp add: unshared_def)
    with False c k kfree_ram[OF q] kfree_ram[OF q'] show ?thesis by simp
  qed
qed

section \<open>Unmapping and freeing one user page\<close>

lemma flags_not_V: "has e PTE_R \<Longrightarrow> PTE_FLAGS e \<noteq> PTE_V"
  using bit_PTE_FLAGS[of e 1] by (auto simp: bit_1_iff)

lemma unmap_user:
  assumes inv: "uvm_inv s R U X" and ra: "(r, a) \<in> U"
  shows "\<exists>t. unmap_page r a True s = Ok () t \<and> uvm_inv t R (U - {(r, a)}) X
    \<and> keeps (U - {(r, a)}) X s t \<and> free_pages s \<subseteq> free_pages t
    \<and> (\<forall>r' \<in> R. \<forall>x. vmap (mem t) r' x = vset None r a (vmap (mem s)) r' x) \<and> lost t R (U - {(r, a)}) X = lost s R U X"
proof -
  from uvm_user[OF inv ra] obtain e where e: "vmap (mem s) r a = Some e" "has e PTE_R" "r \<in> R" "aligned a"
    "a < MAXVA" "0 < held (mem s) U X (PTE2PA e)" by blast
  let ?q = "PTE2PA e" and ?U = "U - {(r, a)}"
  note hq = uvm_held[OF inv e(6)]
  from walk_mapped[OF uvm_pts[OF inv] e(3,1)] obtain p where
    w: "walk r a False s = Ok (slot p (PX 0 a)) s" "slot p (PX 0 a) \<noteq> 0"
      "load64 (mem s) (slot p (PX 0 a)) = e" "has e PTE_V" "tnode (mem s) r [PX 2 a, PX 1 a] = Some p" .
  let ?s = "s\<lparr>mem := store64 (mem s) (slot p (PX 0 a)) 0\<rparr>"
  note ls = leaf_store[OF uvm_pts[OF inv] e(3,5) w(5), where e = 0]
  have v: "\<And>r' x. r' \<in> R \<Longrightarrow> vmap (mem ?s) r' x = vset None r a (vmap (mem s)) r' x"
    using ls(4) by (simp add: leaf_entry_def)
  note rm = uvm_remove[OF inv ls(1,2) ra e(1) v]
  have x: "0 < (X(?q := X ?q + 1)) ?q" by simp
  have Xe: "(X(?q := X ?q + 1))(?q := (X(?q := X ?q + 1)) ?q - 1) = X" by auto
  from uvm_kfree[OF rm(1) x, unfolded Xe] obtain t where t: "kfree ?q ?s = Ok () t" "uvm_inv t R ?U X"
    "keeps ?U X ?s t" "same_maps R ?s t" "free_pages ?s \<subseteq> free_pages t"
    "lost t R ?U X = lost ?s R ?U (X(?q := X ?q + 1))" by blast
  have pt: "p \<in> tables (mem s) R" by (rule tables_nodeI[OF e(3) tpath_PX w(5)])
  from kfree_store_commute[OF hq(1) pts_inv_table(2)[OF uvm_pts[OF inv] pt] PX_less _ t(1)] hq(3) pt
  obtain t0 where "kfree ?q s = Ok () t0" "t = t0\<lparr>mem := store64 (mem t0) (slot p (PX 0 a)) 0\<rparr>" by auto
  then have "unmap_page r a True s = Ok () t"
    using w flags_not_V[OF e(2)] by (simp add: unmap_page_def)
  moreover have "keeps ?U X s t"
  proof (rule keeps_trans[OF rm(2) t(3)])
    fix p' assume h: "0 < held (mem s) ?U X p'"
    have "held (mem s) ?U X p' \<le> held (mem s) U X p'" by (rule held_mono) auto
    moreover have "held (mem ?s) ?U X p' = held (mem s) ?U X p'"
    proof (rule held_cong)
      fix r' a' assume y: "(r', a') \<in> ?U"
      then have "r' \<in> R" "aligned a'" using uvm_user[OF inv] by blast+
      with y e(4) v[of r' a'] vset_other[of a' a r' r] show "vmap (mem ?s) r' a' = vmap (mem s) r' a'" by auto
    qed
    ultimately show "0 < held (mem s) U X p' \<and> 0 < held (mem ?s) ?U X p'" using h by simp
  qed
  ultimately show ?thesis using t(2,4,5) v trans[OF t(6) rm(4)] by (intro exI[of _ t]) (simp add: same_maps_def)
qed

section \<open>Ranges of pages\<close>

definition pspan :: "u64 \<Rightarrow> nat \<Rightarrow> nat \<Rightarrow> (u64 \<times> u64) set" where
  "pspan r lo hi = {(r', a). r' = r \<and> aligned a \<and> lo \<le> unat a \<and> unat a < hi}"

lemma pspan_empty [simp]: "hi \<le> lo \<Longrightarrow> pspan r lo hi = {}"
  by (auto simp: pspan_def)

lemma pspan_step:
  assumes "aligned a" and "unat a < hi"
  shows "pspan r (unat a) hi = insert (r, a) (pspan r (unat a + 4096) hi)"
proof -
  have "unat a \<le> unat b \<longleftrightarrow> b = a \<or> unat a + 4096 \<le> unat b" if "aligned b" for b
    using page_range[OF assms(1), of b] PGROUNDDOWN_aligned[OF that] by auto
  with assms show ?thesis by (auto simp: pspan_def)
qed

lemma pspan_last:
  assumes "aligned a" and "lo \<le> unat a"
  shows "pspan r lo (unat a + 4096) = insert (r, a) (pspan r lo (unat a))"
proof -
  have "unat b < unat a + 4096 \<longleftrightarrow> b = a \<or> unat b < unat a" if "aligned b" for b
    using page_range[OF assms(1), of b] PGROUNDDOWN_aligned[OF that] by auto
  with assms show ?thesis by (auto simp: pspan_def)
qed

lemma next_page:
  assumes "aligned a" and "unat a + 4096 \<le> 2 ^ 38"
  shows "unat (a + 4096) = unat a + 4096" "aligned (a + 4096)"
  using unat_page_add[of a 1] aligned_page_add[OF assms(1), of 1] assms(2) by simp_all

definition cleared :: "u64 \<Rightarrow> nat \<Rightarrow> nat \<Rightarrow> (u64 \<Rightarrow> u64 \<Rightarrow> u64 option) \<Rightarrow> u64 \<Rightarrow> u64 \<Rightarrow> u64 option" where
  "cleared r lo hi f = (\<lambda>r' x. if r' = r \<and> lo \<le> unat x \<and> unat x < hi then None else f r' x)"

lemma cleared_empty [simp]: "cleared r lo lo f = f"
  by (auto simp: cleared_def fun_eq_iff)

lemma uvmunmap_loop_user:
  assumes "uvm_inv s R U X" and "aligned a" and "unat a + 4096 * n \<le> 2 ^ 38"
    and "pspan r (unat a) (unat a + 4096 * n) \<subseteq> U"
  shows "\<exists>t. uvmunmap_loop n r a True s = Ok () t \<and> uvm_inv t R (U - pspan r (unat a) (unat a + 4096 * n)) X
     \<and> keeps (U - pspan r (unat a) (unat a + 4096 * n)) X s t \<and> free_pages s \<subseteq> free_pages t
     \<and> (\<forall>r' \<in> R. \<forall>x. vmap (mem t) r' x = cleared r (unat a) (unat a + 4096 * n) (vmap (mem s)) r' x)
     \<and> lost t R (U - pspan r (unat a) (unat a + 4096 * n)) X = lost s R U X"
  using assms
proof (induction n arbitrary: a s U)
  case 0
  then show ?case by (auto simp: cleared_def)
next
  case (Suc n)
  let ?hi = "unat a + 4096 * Suc n" and ?b = "a + 4096"
  have st: "pspan r (unat a) ?hi = insert (r, a) (pspan r (unat a + 4096) ?hi)"
    using Suc.prems(2) by (intro pspan_step) simp_all
  then have ra: "(r, a) \<in> U" using Suc.prems(4) by auto
  note nx = next_page[OF Suc.prems(2)]
  from unmap_user[OF Suc.prems(1) ra] obtain s1 where s1: "unmap_page r a True s = Ok () s1" "uvm_inv s1 R (U - {(r, a)}) X"
    "keeps (U - {(r, a)}) X s s1" "free_pages s \<subseteq> free_pages s1"
    "\<And>r' x. r' \<in> R \<Longrightarrow> vmap (mem s1) r' x = vset None r a (vmap (mem s)) r' x" "lost s1 R (U - {(r, a)}) X = lost s R U X"
    by blast
  have b: "unat ?b = unat a + 4096" "aligned ?b" using nx Suc.prems(3) by simp_all
  have hi: "unat ?b + 4096 * n = ?hi" using b by simp
  have sub: "pspan r (unat ?b) (unat ?b + 4096 * n) \<subseteq> U - {(r, a)}"
    using Suc.prems(4) unfolding st hi b(1) by (auto simp: pspan_def)
  let ?V = "U - {(r, a)} - pspan r (unat ?b) (unat ?b + 4096 * n)"
  from Suc.IH[OF s1(2) b(2) _ sub] Suc.prems(3) b obtain t where
    t: "uvmunmap_loop n r ?b True s1 = Ok () t" "uvm_inv t R ?V X" "keeps ?V X s1 t" "free_pages s1 \<subseteq> free_pages t"
     "\<forall>r' \<in> R. \<forall>x. vmap (mem t) r' x = cleared r (unat ?b) (unat ?b + 4096 * n) (vmap (mem s1)) r' x"
     "lost t R ?V X = lost s1 R (U - {(r, a)}) X"
    by auto
  have V: "?V = U - pspan r (unat a) ?hi" unfolding st b(1)[symmetric] hi by auto
  have "keeps ?V X s t"
  proof (rule keeps_trans[OF s1(3) t(3)])
    fix p assume h: "0 < held (mem s) ?V X p"
    have "held (mem s) ?V X p \<le> held (mem s) (U - {(r, a)}) X p" by (rule held_mono) auto
    moreover have "held (mem s1) ?V X p = held (mem s) ?V X p"
    proof (rule held_cong)
      fix r' a' assume y: "(r', a') \<in> ?V"
      then have "r' \<in> R" "aligned a'" using uvm_user[OF Suc.prems(1)] by blast+
      with y s1(5)[of r' a'] vset_other[of a' a r' r] Suc.prems(2) show "vmap (mem s1) r' a' = vmap (mem s) r' a'" by auto
    qed
    ultimately show "0 < held (mem s) (U - {(r, a)}) X p \<and> 0 < held (mem s1) ?V X p" using h by simp
  qed
  moreover have "vmap (mem t) r' x = cleared r (unat a) ?hi (vmap (mem s)) r' x" if "r' \<in> R" for r' x
    using t(5) that s1(5)[OF that, of x] page_range[OF Suc.prems(2), of x] PGROUNDDOWN_aligned[OF Suc.prems(2)] b(1) Suc.prems(3)
    by (auto simp: cleared_def vset_def word_less_nat_alt)
  ultimately show ?case
    using s1(1,4,6) t(1,2,4,6) unfolding V by (intro exI[of _ t]) auto
qed

lemma uvmunmap_eq:
  assumes "aligned va" and "unat va + 4096 * n \<le> 2 ^ 38"
  shows "uvmunmap r va (of_nat n) f s = uvmunmap_loop n r va f s"
proof -
  have "unat (va + of_nat n * PGSIZE) = unat va + 4096 * n"
    using unat_page_add[of va n] assms(2) by (simp add: mult.commute)
  with assms(1) show ?thesis by (simp add: uvmunmap_def aligned_def)
qed

section \<open>uvmdealloc\<close>

definition pup :: "u64 \<Rightarrow> nat" where
  "pup z = (unat z + 4095) div 4096 * 4096"

lemma pup_PGROUNDUP: "unat z \<le> 2 ^ 38 \<Longrightarrow> unat (PGROUNDUP z) = pup z"
  unfolding pup_def by (intro unat_PGROUNDUP) simp

lemma pup_mono: "z \<le> z' \<Longrightarrow> pup z \<le> pup z'"
  by (simp add: pup_def word_le_nat_alt div_le_mono)

lemma pup_bound: "unat z \<le> 2 ^ 38 \<Longrightarrow> pup z \<le> 2 ^ 38"
  using div_le_mono[of "unat z + 4095" "2 ^ 38 + 4095" 4096] by (simp add: pup_def)

lemma pup_aligned: "aligned z \<Longrightarrow> pup z = unat z"
  by (auto elim!: alignedE simp: pup_def)

lemma pup_dvd: "\<exists>k. pup z = 4096 * k"
  by (auto simp: pup_def)

lemma scast_npages:
  fixes w :: u64
  assumes "unat w < 2 ^ 31"
  shows "scast (ucast w :: cint) = w"
proof -
  have "uint w = int (unat w)" "unat w < 2147483648" using assms by simp_all
  then have "uint w < 2147483648" by linarith
  then have u: "uint w < 2 ^ 31" by simp
  have "sint (ucast w :: cint) = signed_take_bit 31 (uint w)" by (simp add: signed_ucast_eq)
  also have "\<dots> = uint w" by (rule signed_take_bit_int_eq_self) (use u in \<open>simp_all add: order.trans[OF _ uint_ge_0]\<close>)
  finally show ?thesis unfolding scast_eq by simp
qed

lemma uvmdealloc_user:
  assumes inv: "uvm_inv s R U X" and sz: "unat oldsz \<le> 2 ^ 38" and sub: "pspan r (pup newsz) (pup oldsz) \<subseteq> U"
  shows "\<exists>t. uvmdealloc r oldsz newsz s = Ok (if newsz \<ge> oldsz then oldsz else newsz) t
     \<and> uvm_inv t R (U - pspan r (pup newsz) (pup oldsz)) X \<and> keeps (U - pspan r (pup newsz) (pup oldsz)) X s t
     \<and> free_pages s \<subseteq> free_pages t
     \<and> (\<forall>r' \<in> R. \<forall>x. vmap (mem t) r' x = cleared r (pup newsz) (pup oldsz) (vmap (mem s)) r' x)
     \<and> lost t R (U - pspan r (pup newsz) (pup oldsz)) X = lost s R U X"
proof (cases "newsz < oldsz \<and> PGROUNDUP newsz < PGROUNDUP oldsz")
  case True
  have sz': "unat newsz \<le> 2 ^ 38" using True sz by (simp add: word_less_nat_alt)
  note u = pup_PGROUNDUP[OF sz] and u' = pup_PGROUNDUP[OF sz']
  obtain i j where ij: "pup oldsz = 4096 * i" "pup newsz = 4096 * j" using pup_dvd by blast
  have lt: "pup newsz < pup oldsz" using True u u' by (simp add: word_less_nat_alt)
  define n where "n = i - j"
  have n: "pup newsz + 4096 * n = pup oldsz" using lt ij by (simp add: n_def)
  have b: "pup oldsz \<le> 2 ^ 38" by (rule pup_bound[OF sz])
  have "unat (PGROUNDUP oldsz - PGROUNDUP newsz) = 4096 * n"
    using lt n u u' by (simp add: unat_sub_if')
  then have w: "(PGROUNDUP oldsz - PGROUNDUP newsz) div PGSIZE = of_nat n"
    using b n by (simp add: word_unat_eq_iff unat_div unat_of_nat_u64)
  have "unat (of_nat n :: u64) < 2 ^ 31" using b n by (simp add: unat_of_nat_u64)
  then have c: "scast (ucast (of_nat n :: u64) :: cint) = (of_nat n :: u64)" by (rule scast_npages)
  have "uvmdealloc r oldsz newsz s = bnd (uvmunmap_loop n r (PGROUNDUP newsz) True s) (\<lambda>_ s. Ok newsz s)"
    using True uvmunmap_eq[of "PGROUNDUP newsz" n r True s] b n u' not_le[of oldsz newsz]
    by (simp add: uvmdealloc_def w c)
  with uvmunmap_loop_user[OF inv aligned_PGROUNDUP, of newsz n r] True b n u' sub show ?thesis
    by (auto simp: not_le)
next
  case False
  have "pup oldsz \<le> pup newsz"
  proof (cases "oldsz \<le> newsz")
    case True
    then show ?thesis by (rule pup_mono)
  next
    case f: False
    then have "unat newsz \<le> 2 ^ 38" using sz by (simp add: word_less_nat_alt not_le)
    with False f show ?thesis using pup_PGROUNDUP[OF sz] pup_PGROUNDUP[of newsz] by (simp add: word_less_nat_alt not_le not_less)
  qed
  moreover have "uvmdealloc r oldsz newsz s = Ok (if newsz \<ge> oldsz then oldsz else newsz) s"
    using False by (auto simp: uvmdealloc_def not_le)
  ultimately show ?thesis using inv by (auto simp: cleared_def)
qed

section \<open>Mapping one user page\<close>

lemma unat_or_1: "unat p < 2 ^ 10 \<Longrightarrow> unat (p OR 1 :: u64) < 2 ^ 10"
proof -
  assume p: "unat p < 2 ^ 10"
  have "take_bit 10 (p OR 1 :: u64) = p OR 1"
  proof (rule bit_word_eqI)
    fix n show "bit (take_bit 10 (p OR 1)) n = bit (p OR 1) n"
      using bit_le_exp[OF p, of n] by (cases "n < 10") (auto simp: bit_simps bit_1_iff)
  qed
  then have "unat (p OR 1 :: u64) = take_bit 10 (unat (p OR 1 :: u64))" by (metis unsigned_take_bit_eq)
  then show ?thesis by (metis take_bit_nat_less_exp)
qed

lemma mapped_entry:
  assumes "ram_page s q" and "unat perm < 2 ^ 10"
  shows "PTE2PA (PA2PTE q OR perm OR PTE_V) = q" "PTE_FLAGS (PA2PTE q OR perm OR PTE_V) = perm OR PTE_V"
    and "n < 10 \<Longrightarrow> bit (PA2PTE q OR perm OR PTE_V) n = bit (perm OR PTE_V) n"
proof -
  note p = unat_or_1[OF assms(2)]
  show "PTE2PA (PA2PTE q OR perm OR PTE_V) = q"
    by (rule PTE2PA_PA2PTE[OF ram_page_aligned[OF assms(1)] ram_page_unat[OF assms(1)] p])
  show f: "PTE_FLAGS (PA2PTE q OR perm OR PTE_V) = perm OR PTE_V" by (rule PTE_FLAGS_PA2PTE[OF p])
  show "n < 10 \<Longrightarrow> bit (PA2PTE q OR perm OR PTE_V) n = bit (perm OR PTE_V) n"
    using bit_PTE_FLAGS[of "PA2PTE q OR perm OR PTE_V" n] f by simp
qed

lemma map_user:
  assumes inv: "uvm_inv s R U X" and r: "r \<in> R" "aligned a" "a < MAXVA" and new: "(r, a) \<notin> U"
    and none: "vmap (mem s) r a = None" and x: "0 < X q" and perm: "unat perm < 2 ^ 10" "bit perm 1"
  shows "(\<exists>t. mappages r a PGSIZE q perm s = Ok (- 1) t \<and> uvm_inv t R U X \<and> keeps U X s t
         \<and> same_maps R s t \<and> free_pages t = {} \<and> card (free_pages s) \<le> 2 \<and> lost t R U X = lost s R U X)
     \<or> (\<exists>t. mappages r a PGSIZE q perm s = Ok 0 t \<and> uvm_inv t R (insert (r, a) U) (X(q := X q - 1)) \<and> keeps U X s t
         \<and> card (free_pages s) \<le> card (free_pages t) + 2
         \<and> (\<forall>r' \<in> R. \<forall>y. vmap (mem t) r' y = vset (Some (PA2PTE q OR perm OR PTE_V)) r a (vmap (mem s)) r' y)
         \<and> lost t R (insert (r, a) U) (X(q := X q - 1)) = lost s R U X)"
proof -
  have "0 < held (mem s) U X q" using x by (simp add: held_def)
  note hq = uvm_held[OF inv this] and me = mapped_entry[OF uvm_held(1)[OF inv this] perm(1)]
  from uvm_pts[OF inv] r(1,3) none show ?thesis
  proof (cases rule: map_page[where n = 0 and pa = q and perm = perm])
    case (full t)
    with uvm_same_maps[OF inv full(2,3)] show ?thesis
      by (auto simp: mappages_one[OF r(2,3)] same_maps_def)
  next
    case (mapped t)
    let ?e = "PA2PTE q OR perm OR PTE_V"
    have "has ?e PTE_R" using me(3)[of 1] perm(2) by (simp add: bit_or_iff)
    with uvm_add[OF inv mapped(1,2) r new mapped(4)] me(1) x mapped show ?thesis
      by (auto simp: mappages_one[OF r(2,3)])
  qed
qed

end
