(* ===== verification/Vm_grow.thy ===== *)
theory Vm_grow
  imports Vm_ops
begin

text \<open>
  Growing and sharing user memory: \<open>uvmalloc\<close> gives a process zeroed pages or, when memory
  runs out, exactly what it had before; \<open>uvmcopy\<close> makes the child share every page of the
  parent; \<open>cowfault\<close> gives the faulting page a private copy. \<open>vbyte m r x\<close> is the byte user code of
  the address space \<open>r\<close> reads at \<open>x\<close>.
\<close>

definition vbyte :: "memory \<Rightarrow> u64 \<Rightarrow> u64 \<Rightarrow> u8 option" where
  "vbyte m r x = map_option (\<lambda>e. m (PTE2PA e + (x - PGROUNDDOWN x))) (vmap m r x)"

lemma page_plus_offset: "aligned p \<Longrightarrow> unat d < 4096 \<Longrightarrow> PGROUNDDOWN (p + d) = p"
  using page_iff[of p "p + d"] by simp

lemma page_of_byte [simp]: "PGROUNDDOWN (PTE2PA e + (x - PGROUNDDOWN x)) = PTE2PA e"
  by (rule page_plus_offset) (simp_all add: unat_page_offset)

lemma vbyte_keeps:
  assumes k: "keeps U X s t" and u: "(r, PGROUNDDOWN x) \<in> U"
    and v: "map_option PTE2PA (vmap (mem t) r x) = map_option PTE2PA (vmap (mem s) r x)"
  shows "vbyte (mem t) r x = vbyte (mem s) r x"
proof (cases "vmap (mem s) r x")
  case None
  with v show ?thesis by (simp add: vbyte_def)
next
  case (Some e)
  with v obtain e' where e': "vmap (mem t) r x = Some e'" "PTE2PA e' = PTE2PA e" by auto
  have "(r, PGROUNDDOWN x) \<in> owners (mem s) U (PTE2PA e)" using u Some by (auto simp: owners_def)
  then have "0 < card (owners (mem s) U (PTE2PA e))" by (auto simp: card_gt_0_iff)
  then have "0 < held (mem s) U X (PTE2PA e)" by (simp add: held_def)
  then have "mem t (PTE2PA e + (x - PGROUNDDOWN x)) = mem s (PTE2PA e + (x - PGROUNDDOWN x))"
    using k by (simp add: keeps_def)
  with Some e' show ?thesis by (simp add: vbyte_def)
qed

definition fresh_zero :: "memory \<Rightarrow> u64 \<Rightarrow> u64 \<Rightarrow> u64 \<Rightarrow> bool" where
  "fresh_zero m r x fl \<longleftrightarrow> (\<exists>e. vmap m r x = Some e \<and> PTE_FLAGS e = fl) \<and> vbyte m r x = Some 0"

section \<open>Allocating and mapping a page\<close>

lemma uvm_blank:
  assumes inv: "uvm_inv s R U X" and q: "q \<in> free_pages s" and kt: "uvm_inv (taken q s) R U (X(q := 1))"
    and v: "same_maps R s (taken q s)" and l: "lost (taken q s) R U (X(q := 1)) = lost s R U X"
  shows "uvm_inv (blank q s) R U (X(q := 1))" and "keeps U X s (blank q s)" and "same_maps R s (blank q s)"
    and "lost (blank q s) R U (X(q := 1)) = lost s R U X"
proof -
  have al: "aligned q" by (rule free_page(2)[OF q])
  have h: "0 < held (mem (taken q s)) U (X(q := 1)) q" by (simp add: held_def)
  have m: "memset (mem (taken q s)) q 0 PGSIZE_nat x = mem (taken q s) x" if "PGROUNDDOWN x \<noteq> q" for x
    using that by (simp add: memset_page[OF al])
  show "uvm_inv (blank q s) R U (X(q := 1))" unfolding blank_def by (rule uvm_write(1)[OF kt h m])
  show "same_maps R s (blank q s)"
    using uvm_write(2)[OF kt h m] v unfolding same_maps_def by (auto simp: blank_def)
  have "lost (blank q s) R U (X(q := 1)) = lost (taken q s) R U (X(q := 1))" unfolding blank_def
    by (rule lost_page_change[OF kt _ uvm_held(1,3)[OF kt h]]) (use h m in simp_all)
  then show "lost (blank q s) R U (X(q := 1)) = lost s R U X" using l by simp
  have "held (mem s) U X q = 0" by (rule free_not_held(1)[OF inv q])
  then show "keeps U X s (blank q s)" by (auto simp: keeps_def blank_mem[OF al])
qed

lemma alloc_user_page:
  assumes inv: "uvm_inv s R U X" and r: "r \<in> R" "aligned a" "a < MAXVA" and new: "(r, a) \<notin> U"
    and none: "vmap (mem s) r a = None" and perm: "unat perm < 2 ^ 10" "bit perm 1"
  shows "(kalloc s = Ok 0 s \<and> free_pages s = {})
     \<or> (\<exists>q t t'. kalloc s = Ok q (taken q s) \<and> q \<noteq> 0 \<and> mappages r a PGSIZE q perm (blank q s) = Ok (- 1) t
          \<and> kfree q t = Ok () t' \<and> uvm_inv t' R U X \<and> keeps U X s t' \<and> same_maps R s t' \<and> card (free_pages s) \<le> 3
          \<and> lost t' R U X = lost s R U X)
     \<or> (\<exists>q t. kalloc s = Ok q (taken q s) \<and> q \<noteq> 0 \<and> mappages r a PGSIZE q perm (blank q s) = Ok 0 t
          \<and> uvm_inv t R (insert (r, a) U) X \<and> keeps U X s t \<and> card (free_pages s) \<le> card (free_pages t) + 3
          \<and> (\<forall>r' \<in> R. \<forall>y. vmap (mem t) r' y = vset (Some (PA2PTE q OR perm OR PTE_V)) r a (vmap (mem s)) r' y)
          \<and> (\<forall>y. PGROUNDDOWN y = a \<longrightarrow> fresh_zero (mem t) r y (perm OR PTE_V)) \<and> lost t R (insert (r, a) U) X = lost s R U X)"
  using inv
proof (cases rule: uvm_kalloc)
  case none
  then show ?thesis by simp
next
  case (some q)
  have sm: "same_maps R s (taken q s)" using some(11) by (simp add: same_maps_def)
  note bl = uvm_blank[OF inv some(2,8) sm some(12)]
  have n: "vmap (mem (blank q s)) r a = None" using bl(3) r(1) none by (simp add: same_maps_def)
  have X: "(X(q := 1))(q := (X(q := 1)) q - 1) = X" using some(4) by auto
  have al: "aligned q" by (rule free_page(2)[OF some(2)])
  have hs: "0 < held (mem s) U X p \<Longrightarrow> 0 < held (mem (blank q s)) U (X(q := 1)) p" for p
  proof -
    assume h: "0 < held (mem s) U X p"
    have "held (mem (blank q s)) U (X(q := 1)) p = held (mem s) U (X(q := 1)) p"
      using bl(3) uvm_user[OF inv] by (intro held_cong) (metis same_maps_def)
    moreover have "p \<noteq> q" using h free_not_held(1)[OF inv some(2)] by auto
    ultimately show ?thesis using h by (simp add: held_def)
  qed
  have x1: "0 < (X(q := 1)) q" by simp
  have cd: "card (free_pages s) = card (free_pages (blank q s)) + 1"
    using blank_free[OF some(2)] some(2) card_Suc_Diff1[of "free_pages s" q] by simp
  from map_user[OF bl(1) r new n x1 perm] show ?thesis
  proof (elim disjE exE conjE)
    fix t assume t: "mappages r a PGSIZE q perm (blank q s) = Ok (- 1) t" "uvm_inv t R U (X(q := 1))"
      "keeps U (X(q := 1)) (blank q s) t" "same_maps R (blank q s) t" "card (free_pages (blank q s)) \<le> 2"
      "lost t R U (X(q := 1)) = lost (blank q s) R U (X(q := 1))"
    from uvm_kfree[OF t(2), of q, unfolded X] obtain t' where
      t': "kfree q t = Ok () t'" "uvm_inv t' R U X" "keeps U X t t'" "same_maps R t t'" "lost t' R U X = lost t R U (X(q := 1))" by auto
    have "keeps U X s t" by (rule keeps_trans[OF bl(2) t(3)]) (blast intro: hs)
    moreover have "held (mem t) U X p = held (mem s) U X p" for p
      using bl(3) t(4) uvm_user[OF inv] by (intro held_cong) (metis same_maps_def)
    ultimately have "keeps U X s t'" using t'(3) by (auto intro: keeps_trans)
    moreover have "same_maps R s t'" using bl(3) t(4) t'(4) by (simp add: same_maps_def)
    moreover have "card (free_pages s) \<le> 3" using t(5) cd by simp
    moreover have "lost t' R U X = lost s R U X" using t'(5) t(6) bl(4) by simp
    ultimately show ?thesis using some(1,3) t(1) t'(1,2) by blast
  next
    fix t assume t: "mappages r a PGSIZE q perm (blank q s) = Ok 0 t" "uvm_inv t R (insert (r, a) U) ((X(q := 1))(q := (X(q := 1)) q - 1))"
      "keeps U (X(q := 1)) (blank q s) t" "card (free_pages (blank q s)) \<le> card (free_pages t) + 2"
      "\<forall>r' \<in> R. \<forall>y. vmap (mem t) r' y = vset (Some (PA2PTE q OR perm OR PTE_V)) r a (vmap (mem (blank q s))) r' y"
      "lost t R (insert (r, a) U) ((X(q := 1))(q := (X(q := 1)) q - 1)) = lost (blank q s) R U (X(q := 1))"
    have v: "vmap (mem t) r' y = vset (Some (PA2PTE q OR perm OR PTE_V)) r a (vmap (mem s)) r' y" if "r' \<in> R" for r' y
      using t(5) bl(3) that by (simp add: vset_def same_maps_def)
    have "keeps U X s t" by (rule keeps_trans[OF bl(2) t(3)]) (blast intro: hs)
    moreover have "fresh_zero (mem t) r y (perm OR PTE_V)" if "PGROUNDDOWN y = a" for y
    proof -
      let ?e = "PA2PTE q OR perm OR PTE_V"
      have y: "y < MAXVA" using r(3) that PGROUNDDOWN_less_MAXVA[of y] by simp
      have e: "vmap (mem t) r y = Some ?e" using v[OF r(1), of y] that y PGROUNDDOWN_aligned[OF r(2)] by (simp add: vset_def)
      note me = mapped_entry[OF some(5) perm(1)]
      have pg: "PGROUNDDOWN (q + (y - PGROUNDDOWN y)) = q" using page_of_byte[of ?e y] me(1) by simp
      have "0 < held (mem (blank q s)) U (X(q := 1)) q" by (simp add: held_def)
      then have "mem t (q + (y - PGROUNDDOWN y)) = mem (blank q s) (q + (y - PGROUNDDOWN y))"
        using t(3) pg by (simp add: keeps_def)
      then have "mem t (q + (y - PGROUNDDOWN y)) = 0" using pg by (simp add: blank_mem[OF al])
      then show ?thesis using e me by (simp add: fresh_zero_def vbyte_def)
    qed
    moreover have "card (free_pages s) \<le> card (free_pages t) + 3" using t(4) cd by simp
    moreover have "lost t R (insert (r, a) U) X = lost s R U X" using t(6) bl(4) unfolding X by simp
    ultimately show ?thesis using some(1,3) t(1,2) v unfolding X by blast
  qed
qed

section \<open>uvmalloc\<close>

lemma fresh_zero_keeps:
  assumes "keeps U X s t" and "(r, PGROUNDDOWN x) \<in> U"
    and "vmap (mem t) r x = vmap (mem s) r x" and "fresh_zero (mem s) r x fl"
  shows "fresh_zero (mem t) r x fl"
  using vbyte_keeps[OF assms(1,2)] assms(3,4) by (simp add: fresh_zero_def)

lemma pspan_page:
  assumes "aligned b" and "unat b \<le> unat x"
  shows "unat x < hi \<Longrightarrow> (r, PGROUNDDOWN x) \<in> pspan r (unat b) hi"
proof -
  have "unat b \<le> unat (PGROUNDDOWN x)"
    using assms by (auto elim!: alignedE simp: unat_PGROUNDDOWN)
  moreover have "unat (PGROUNDDOWN x) \<le> unat x" by (simp add: unat_PGROUNDDOWN)
  ultimately show "unat x < hi \<Longrightarrow> (r, PGROUNDDOWN x) \<in> pspan r (unat b) hi" by (simp add: pspan_def)
qed

definition unmapped_range :: "memory \<Rightarrow> u64 \<Rightarrow> nat \<Rightarrow> nat \<Rightarrow> bool" where
  "unmapped_range m r lo hi \<longleftrightarrow> (\<forall>x. lo \<le> unat x \<longrightarrow> unat x < hi \<longrightarrow> vmap m r x = None)"

definition zero_range :: "memory \<Rightarrow> u64 \<Rightarrow> nat \<Rightarrow> nat \<Rightarrow> u64 \<Rightarrow> bool" where
  "zero_range m r lo hi fl \<longleftrightarrow> (\<forall>x. lo \<le> unat x \<longrightarrow> unat x < hi \<longrightarrow> fresh_zero m r x fl)"

definition same_outside :: "u64 set \<Rightarrow> u64 \<Rightarrow> nat \<Rightarrow> nat \<Rightarrow> memory \<Rightarrow> memory \<Rightarrow> bool" where
  "same_outside R r lo hi m m' \<longleftrightarrow>
     (\<forall>r' \<in> R. \<forall>x. \<not> (r' = r \<and> lo \<le> unat x \<and> unat x < hi) \<longrightarrow> vmap m' r' x = vmap m r' x)"

text \<open>What a failed \<open>uvmalloc\<close> does: it gives back the pages it had added.\<close>

lemma held_old:
  assumes "uvm_inv s R V X" and "U \<subseteq> V" and "\<And>r' a'. (r', a') \<in> U \<Longrightarrow> vmap (mem t) r' a' = vmap (mem s) r' a'"
    and "0 < held (mem s) U X p"
  shows "0 < held (mem s) V X p \<and> 0 < held (mem t) U X p"
proof -
  have "held (mem s) U X p \<le> held (mem s) V X p" by (rule held_mono[OF assms(2)]) simp
  moreover have "held (mem t) U X p = held (mem s) U X p" by (rule held_cong) (rule assms(3))
  ultimately show ?thesis using assms(4) by simp
qed

lemma uvmalloc_undo:
  assumes inv0: "uvm_inv s0 R (U \<union> pspan r (unat old) (unat a)) X" and dj: "pspan r (unat old) (unat a) \<inter> U = {}"
    and al: "aligned old" "aligned a" and sz: "unat a \<le> 2 ^ 38"
    and inv: "uvm_inv s R (U \<union> pspan r (unat old) (unat a)) X"
    and k: "keeps (U \<union> pspan r (unat old) (unat a)) X s0 s" and sm: "same_maps R s0 s"
    and l: "lost s R (U \<union> pspan r (unat old) (unat a)) X = lost s0 R (U \<union> pspan r (unat old) (unat a)) X"
  shows "\<exists>t. bnd (uvmdealloc r a old s) (\<lambda>_ s. Ok (0 :: u64) s) = Ok 0 t \<and> uvm_inv t R U X \<and> keeps U X s0 t
     \<and> (\<forall>r' \<in> R. \<forall>x. vmap (mem t) r' x = cleared r (unat old) (unat a) (vmap (mem s0)) r' x)
     \<and> lost t R U X = lost s0 R (U \<union> pspan r (unat old) (unat a)) X"
proof -
  let ?V = "U \<union> pspan r (unat old) (unat a)"
  have U: "?V - pspan r (unat old) (unat a) = U" using dj by auto
  have "pspan r (pup old) (pup a) \<subseteq> ?V" using al by (simp add: pup_aligned)
  from uvmdealloc_user[OF inv sz this] obtain t where
    t: "bnd (uvmdealloc r a old s) (\<lambda>_ s. Ok (0 :: u64) s) = Ok 0 t" "uvm_inv t R U X" "keeps U X s t"
      "\<forall>r' \<in> R. \<forall>x. vmap (mem t) r' x = cleared r (unat old) (unat a) (vmap (mem s)) r' x" "lost t R U X = lost s R ?V X"
    using U al by (auto simp: pup_aligned)
  have "vmap (mem s) r' a' = vmap (mem s0) r' a'" if "(r', a') \<in> U" for r' a'
    using uvm_user[OF inv0, of r' a'] that sm by (auto simp: same_maps_def)
  then have "keeps U X s0 t" using keeps_trans[OF k t(3)] held_old[OF inv0, of U s] by blast
  moreover have "cleared r (unat old) (unat a) (vmap (mem s)) r' x = cleared r (unat old) (unat a) (vmap (mem s0)) r' x"
    if "r' \<in> R" for r' x using sm that by (simp add: same_maps_def cleared_def)
  ultimately show ?thesis using t l by (intro exI[of _ t]) simp
qed

text \<open>One more page, cleared, at the end of the pages added so far.\<close>

lemma uvmalloc_grown:
  assumes inv: "uvm_inv s R V X" and V: "V = U \<union> pspan r (unat old) (unat a)" and r: "r \<in> R"
    and al: "aligned old" "aligned a" "unat old \<le> unat a" "unat a + 4096 \<le> 2 ^ 38" and new: "(r, a) \<notin> V"
    and zs: "zero_range (mem s) r (unat old) (unat a) fl" and k: "keeps V X s t"
    and v: "\<forall>r' \<in> R. \<forall>y. vmap (mem t) r' y = vset (Some e) r a (vmap (mem s)) r' y"
    and z: "\<forall>y. PGROUNDDOWN y = a \<longrightarrow> fresh_zero (mem t) r y fl"
  shows "insert (r, a) V = U \<union> pspan r (unat old) (unat (a + 4096))"
    and "zero_range (mem t) r (unat old) (unat (a + 4096)) fl"
    and "r' \<in> R \<Longrightarrow> \<not> (r' = r \<and> unat a \<le> unat x \<and> unat x < unat (a + 4096)) \<Longrightarrow> vmap (mem t) r' x = vmap (mem s) r' x"
    and "keeps U X t u \<Longrightarrow> keeps U X s u"
proof -
  let ?b = "a + 4096"
  have b: "unat ?b = unat a + 4096" "aligned ?b" using next_page[OF al(2,4)] .
  show "insert (r, a) V = U \<union> pspan r (unat old) (unat ?b)"
    using pspan_last[OF al(2,3), of r] b(1) V by simp
  show same: "vmap (mem t) r' x = vmap (mem s) r' x"
    if "r' \<in> R" "\<not> (r' = r \<and> unat a \<le> unat x \<and> unat x < unat ?b)" for r' x
    using v that page_range[OF al(2), of x] b(1) PGROUNDDOWN_aligned[OF al(2)] by (auto simp: vset_def)
  show "zero_range (mem t) r (unat old) (unat ?b) fl"
    unfolding zero_range_def
  proof (intro allI impI)
    fix x :: u64 assume x: "unat old \<le> unat x" "unat x < unat ?b"
    show "fresh_zero (mem t) r x fl"
    proof (cases "unat x < unat a")
      case True
      have "(r, PGROUNDDOWN x) \<in> V" using pspan_page[OF al(1) x(1) True, of r] V by simp
      moreover have "vmap (mem t) r x = vmap (mem s) r x" using same[OF r, of x] True by simp
      moreover have "fresh_zero (mem s) r x fl" using zs x True by (simp add: zero_range_def)
      ultimately show ?thesis by (rule fresh_zero_keeps[OF k])
    next
      case False
      then have "PGROUNDDOWN x = a" using x b(1) page_range[OF al(2), of x] by simp
      then show ?thesis using z by simp
    qed
  qed
  assume ku: "keeps U X t u"
  have "vmap (mem t) r' a' = vmap (mem s) r' a'" if y: "(r', a') \<in> U" for r' a'
  proof -
    have "(r', a') \<in> V" using y V by simp
    then have "r' \<in> R" "aligned a'" using uvm_user[OF inv] by blast+
    moreover have "(r', a') \<noteq> (r, a)" using y new V by auto
    ultimately show ?thesis using v vset_other[of a' a r' r] al(2) by auto
  qed
  then show "keeps U X s u" using keeps_trans[OF k ku] held_old[OF inv, of U t] V by blast
qed

lemma uvmalloc_loop_user:
  assumes "uvm_inv s R (U \<union> pspan r (unat old) (unat a)) X" and "pspan r (unat old) (unat a + 4096 * n) \<inter> U = {}"
    and "r \<in> R" and "aligned old" "aligned a" and "unat old \<le> unat a" and "unat a + 4096 * n \<le> 2 ^ 38"
    and "unmapped_range (mem s) r (unat a) (unat a + 4096 * n)"
    and "zero_range (mem s) r (unat old) (unat a) ((PTE_R OR PTE_U OR xperm) OR PTE_V)"
    and "unat (PTE_R OR PTE_U OR xperm) < 2 ^ 10"
  shows "(\<exists>t. uvmalloc_loop n r old a newsz xperm s = Ok newsz t
         \<and> uvm_inv t R (U \<union> pspan r (unat old) (unat a + 4096 * n)) X \<and> keeps U X s t
         \<and> zero_range (mem t) r (unat old) (unat a + 4096 * n) ((PTE_R OR PTE_U OR xperm) OR PTE_V)
         \<and> same_outside R r (unat old) (unat a + 4096 * n) (mem s) (mem t)
         \<and> lost t R (U \<union> pspan r (unat old) (unat a + 4096 * n)) X = lost s R (U \<union> pspan r (unat old) (unat a)) X)
     \<or> (\<exists>t. uvmalloc_loop n r old a newsz xperm s = Ok 0 t \<and> uvm_inv t R U X \<and> keeps U X s t
         \<and> card (free_pages s) \<le> 3 * n \<and> (\<forall>r' \<in> R. \<forall>x. vmap (mem t) r' x = cleared r (unat old) (unat a) (vmap (mem s)) r' x)
         \<and> lost t R U X = lost s R (U \<union> pspan r (unat old) (unat a)) X)"
  using assms
proof (induction n arbitrary: a s)
  case 0
  have "keeps U X s s" by simp
  with 0 show ?case by (auto simp: same_outside_def)
next
  case (Suc n)
  let ?P = "pspan r (unat old) (unat a)" and ?perm = "PTE_R OR PTE_U OR xperm" and ?hi = "unat a + 4096 * Suc n"
  let ?V = "U \<union> ?P"
  have am: "a < MAXVA" using Suc.prems(7) by (simp add: word_less_nat_alt)
  have "?P \<subseteq> pspan r (unat old) ?hi" by (auto simp: pspan_def)
  then have dj: "?P \<inter> U = {}" using Suc.prems(2) by blast
  have "(r, a) \<in> pspan r (unat old) ?hi" using Suc.prems(5,6) by (simp add: pspan_def)
  then have new: "(r, a) \<notin> ?V" using Suc.prems(2) by (auto simp: pspan_def[of r "unat old" "unat a"])
  have none: "vmap (mem s) r a = None" using Suc.prems(8) by (simp add: unmapped_range_def)
  have bit: "bit ?perm 1" by (simp add: bit_or_iff)
  have sz: "unat a \<le> 2 ^ 38" using Suc.prems(7) by simp
  note undo = uvmalloc_undo[OF Suc.prems(1) dj Suc.prems(4,5) sz]
  from alloc_user_page[OF Suc.prems(1,3,5) am new none Suc.prems(10) bit] show ?case
  proof (elim disjE exE conjE)
    assume "kalloc s = Ok 0 s" "free_pages s = {}"
    then show ?thesis using undo[OF Suc.prems(1)] by (simp add: same_maps_def)
  next
    fix q t t' assume q: "kalloc s = Ok q (taken q s)" "q \<noteq> 0"
      "mappages r a PGSIZE q ?perm (blank q s) = Ok (- 1) t" "kfree q t = Ok () t'"
      "uvm_inv t' R ?V X" "keeps ?V X s t'" "same_maps R s t'" "card (free_pages s) \<le> 3"
      "lost t' R ?V X = lost s R ?V X"
    then show ?thesis using undo[OF q(5,6,7,9)] by (simp add: blank_def Let_def)
  next
    fix q t assume q: "kalloc s = Ok q (taken q s)" "q \<noteq> 0" "mappages r a PGSIZE q ?perm (blank q s) = Ok 0 t"
      and inv: "uvm_inv t R (insert (r, a) ?V) X" and k: "keeps ?V X s t"
      and cd: "card (free_pages s) \<le> card (free_pages t) + 3"
      and v: "\<forall>r' \<in> R. \<forall>y. vmap (mem t) r' y = vset (Some (PA2PTE q OR ?perm OR PTE_V)) r a (vmap (mem s)) r' y"
      and z: "\<forall>y. PGROUNDDOWN y = a \<longrightarrow> fresh_zero (mem t) r y (?perm OR PTE_V)"
      and l: "lost t R (insert (r, a) ?V) X = lost s R ?V X"
    let ?b = "a + 4096"
    have a4: "unat a + 4096 \<le> 2 ^ 38" using Suc.prems(7) by simp
    note g = uvmalloc_grown[OF Suc.prems(1) refl Suc.prems(3-6) a4 new Suc.prems(9) k v z]
    have b: "unat ?b = unat a + 4096" "aligned ?b" using next_page[OF Suc.prems(5) a4] .
    have hi: "unat ?b + 4096 * n = ?hi" using b by simp
    have "unmapped_range (mem t) r (unat ?b) ?hi"
      using Suc.prems(8) g(3)[OF Suc.prems(3)] b(1) by (simp add: unmapped_range_def)
    then have "(\<exists>u. uvmalloc_loop n r old ?b newsz xperm t = Ok newsz u
         \<and> uvm_inv u R (U \<union> pspan r (unat old) ?hi) X \<and> keeps U X t u
         \<and> zero_range (mem u) r (unat old) ?hi (?perm OR PTE_V)
         \<and> same_outside R r (unat old) ?hi (mem t) (mem u)
         \<and> lost u R (U \<union> pspan r (unat old) ?hi) X = lost s R ?V X)
     \<or> (\<exists>u. uvmalloc_loop n r old ?b newsz xperm t = Ok 0 u \<and> uvm_inv u R U X \<and> keeps U X t u
         \<and> card (free_pages s) \<le> 3 * Suc n \<and> (\<forall>r' \<in> R. \<forall>x. vmap (mem u) r' x = cleared r (unat old) (unat ?b) (vmap (mem t)) r' x)
         \<and> lost u R U X = lost s R ?V X)"
      using Suc.IH[OF inv[unfolded g(1)] _ Suc.prems(3,4) b(2), unfolded hi l[unfolded g(1)]] Suc.prems(2,6,7,10) g(2) b(1) cd by fastforce
    moreover have "same_outside R r (unat old) ?hi (mem s) (mem u)" if "same_outside R r (unat old) ?hi (mem t) (mem u)" for u
      using that g(3) b(1) Suc.prems(6) by (auto simp: same_outside_def)
    moreover have "cleared r (unat old) (unat ?b) (vmap (mem t)) r' x = cleared r (unat old) (unat a) (vmap (mem s)) r' x"
      if "r' \<in> R" for r' x
      using g(3)[OF that, of x] Suc.prems(6,8) b(1) by (auto simp: cleared_def unmapped_range_def)
    moreover have "uvmalloc_loop (Suc n) r old a newsz xperm s = uvmalloc_loop n r old ?b newsz xperm t"
      using q by (simp add: blank_def Let_def)
    ultimately show ?thesis using g(4) by (elim disjE exE conjE) (simp_all, blast+)
  qed
qed

lemma unat_or_less:
  assumes "unat a < 2 ^ k" and "unat b < 2 ^ k"
  shows "unat (a OR b :: u64) < 2 ^ k"
proof -
  have "take_bit k (a OR b) = a OR b"
  proof (rule bit_word_eqI)
    fix n show "bit (take_bit k (a OR b)) n = bit (a OR b) n"
      using bit_le_exp[OF assms(1), of n] bit_le_exp[OF assms(2), of n] by (cases "n < k") (auto simp: bit_simps)
  qed
  then have "unat (a OR b) = take_bit k (unat (a OR b))" by (metis unsigned_take_bit_eq)
  then show ?thesis by (metis take_bit_nat_less_exp)
qed

lemma diff_pages_div: "(x - 4096 * i) div 4096 = x div 4096 - i" for x i :: nat
proof (cases "4096 * i \<le> x")
  case True
  then obtain y where "x = 4096 * i + y" using le_Suc_ex by blast
  then show ?thesis by simp
next
  case False
  then have "x div 4096 < Suc i" by (intro less_mult_imp_div_less) simp
  with False show ?thesis by simp
qed

lemma uvmalloc_user:
  assumes inv: "uvm_inv s R U X" and r: "r \<in> R" and sz: "oldsz \<le> newsz" "unat newsz \<le> 2 ^ 38"
    and dj: "pspan r (pup oldsz) (pup newsz) \<inter> U = {}" and un: "unmapped_range (mem s) r (pup oldsz) (pup newsz)"
    and x: "unat xperm < 2 ^ 10"
  shows "(\<exists>t. uvmalloc r oldsz newsz xperm s = Ok newsz t
         \<and> uvm_inv t R (U \<union> pspan r (pup oldsz) (pup newsz)) X \<and> keeps U X s t
         \<and> zero_range (mem t) r (pup oldsz) (pup newsz) (PTE_R OR PTE_U OR xperm OR PTE_V)
         \<and> same_outside R r (pup oldsz) (pup newsz) (mem s) (mem t)
         \<and> lost t R (U \<union> pspan r (pup oldsz) (pup newsz)) X = lost s R U X)
     \<or> (\<exists>t. uvmalloc r oldsz newsz xperm s = Ok 0 t \<and> uvm_inv t R U X \<and> keeps U X s t \<and> same_maps R s t
         \<and> lost t R U X = lost s R U X \<and> 4096 * card (free_pages s) \<le> 3 * (pup newsz - pup oldsz))"
proof -
  let ?a = "PGROUNDUP oldsz" and ?n = "(unat newsz + (PGSIZE_nat - 1) - unat (PGROUNDUP oldsz)) div PGSIZE_nat"
  have o: "unat oldsz \<le> 2 ^ 38" using sz by (simp add: word_le_nat_alt)
  note u = pup_PGROUNDUP[OF o]
  obtain i where i: "pup oldsz = 4096 * i" using pup_dvd by blast
  have "i \<le> (unat newsz + 4095) div 4096"
  proof -
    have "pup oldsz \<le> pup newsz" by (rule pup_mono[OF sz(1)])
    then show ?thesis using i by (simp add: pup_def)
  qed
  then have n: "pup oldsz + 4096 * ?n = pup newsz"
    using i u diff_pages_div[of "unat newsz + 4095" i] by (simp add: pup_def algebra_simps)
  have b: "pup newsz \<le> 2 ^ 38" by (rule pup_bound[OF sz(2)])
  have perm: "unat (PTE_R OR PTE_U OR xperm) < 2 ^ 10"
    using unat_or_less[OF _ unat_or_less[OF _ x], of PTE_R PTE_U] by simp
  have z: "zero_range (mem s) r (unat ?a) (unat ?a) fl" for fl by (simp add: zero_range_def)
  have "uvmalloc r oldsz newsz xperm s = uvmalloc_loop ?n r ?a ?a newsz xperm s"
    using sz(1) by (simp add: uvmalloc_def Let_def not_less[symmetric])
  with uvmalloc_loop_user[where s = s and U = U and X = X and n = ?n and newsz = newsz and old = ?a and a = ?a,
      OF _ _ r aligned_PGROUNDUP aligned_PGROUNDUP order_refl _ _ z perm] inv dj un n b u
  show ?thesis by (auto simp: same_maps_def or.assoc)
qed

end
