(* ===== verification/Vm_cow.thy ===== *)
theory Vm_cow
  imports Vm_grow
begin

text \<open>
  Copy-on-write: \<open>uvmcopy\<close> gives the child the parent's pages, read-only in both address
  spaces and with one more reference each; \<open>cowfault\<close> replaces a shared page by a private,
  writable copy. Neither changes a byte that user code can read.
\<close>

section \<open>The references to a page stay below the range of the counter\<close>

lemma owners_bound:
  assumes inv: "uvm_inv s R U X"
  shows "card (owners (mem s) U p) \<le> 285212672"
proof -
  let ?f = "\<lambda>(r, a). unat (the (tnode (mem s) r [PX 2 a, PX 1 a])) div 4096 * 512 + unat (PX 0 a)"
  have node: "\<exists>q. tnode (mem s) r [PX 2 a, PX 1 a] = Some q \<and> q \<in> tables (mem s) R" if "(r, a) \<in> U" for r a
  proof -
    from uvm_user[OF inv that] obtain e where "vmap (mem s) r a = Some e" "r \<in> R" by blast
    then show ?thesis unfolding vmap_Some_iff using tables_nodeI[OF _ tpath_PX] by blast
  qed
  have inj: "tnode_inj (mem s) R" using uvm_pts[OF inv] by (simp add: pts_inv_def)
  have "inj_on ?f U"
  proof (rule inj_onI, clarify)
    fix r a r' a' assume y: "(r, a) \<in> U" "(r', a') \<in> U"
      and eq: "unat (the (tnode (mem s) r [PX 2 a, PX 1 a])) div 4096 * 512 + unat (PX 0 a)
        = unat (the (tnode (mem s) r' [PX 2 a', PX 1 a'])) div 4096 * 512 + unat (PX 0 a')"
    obtain q where q: "tnode (mem s) r [PX 2 a, PX 1 a] = Some q" "q \<in> tables (mem s) R" using node[OF y(1)] by blast
    obtain q' where q': "tnode (mem s) r' [PX 2 a', PX 1 a'] = Some q'" "q' \<in> tables (mem s) R" using node[OF y(2)] by blast
    obtain k where k: "unat q = 4096 * k" using pts_inv_table(2)[OF uvm_pts[OF inv] q(2)] by (rule alignedE)
    obtain k' where k': "unat q' = 4096 * k'" using pts_inv_table(2)[OF uvm_pts[OF inv] q'(2)] by (rule alignedE)
    from uvm_user[OF inv y(1)] have ra: "r \<in> R" "aligned a" "a < MAXVA" by blast+
    from uvm_user[OF inv y(2)] have ra': "r' \<in> R" "aligned a'" "a' < MAXVA" by blast+
    have e: "k * 512 + unat (PX 0 a) = k' * 512 + unat (PX 0 a')"
      using eq unfolding q(1) q'(1) by (simp add: k k')
    have kk: "k = k'" using e PX_less[of 0 a] PX_less[of 0 a'] by linarith
    with e have "unat (PX 0 a) = unat (PX 0 a')" by linarith
    with kk have "q = q'" using k k' by (simp add: word_unat_eq_iff)
    have px0: "PX 0 a = PX 0 a'" using \<open>unat (PX 0 a) = unat (PX 0 a')\<close> by (simp only: word_unat_eq_iff)
    from \<open>q = q'\<close> tnode_injD[OF inj ra(1) ra'(1) tpath_PX tpath_PX q(1)] q'(1) have "r = r'" "PX 2 a = PX 2 a'" "PX 1 a = PX 1 a'"
      by simp_all
    with px0 same_page_iff[OF ra(3) ra'(3)] ra ra' show "r = r' \<and> a = a'"
      by (simp add: PGROUNDDOWN_aligned)
  qed
  moreover have "?f y < 285212672" if y: "y \<in> U" for y
  proof -
    obtain r a where ra: "y = (r, a)" by (cases y)
    with y have "(r, a) \<in> U" by simp
    from node[OF this] obtain q where q: "tnode (mem s) r [PX 2 a, PX 1 a] = Some q" "q \<in> tables (mem s) R" by blast
    have "unat q < 2281701376"
      using pts_inv_table(1)[OF uvm_pts[OF inv] q(2)] by (simp add: ram_page_def word_less_nat_alt)
    then have "unat q div 4096 < 557056" by (intro less_mult_imp_div_less) simp
    then show ?thesis using PX_less[of 0 a] unfolding ra prod.case q(1) by simp
  qed
  then have "?f ` U \<subseteq> {..<285212672}" by blast
  ultimately have "card U \<le> card {..<285212672 :: nat}" by (intro card_inj_on_le) simp_all
  moreover have "card (owners (mem s) U p) \<le> card U" by (intro card_mono) (auto simp: owners_def)
  ultimately show ?thesis by simp
qed

lemma held_bound: "uvm_inv s R U X \<Longrightarrow> X p < 2 ^ 30 \<Longrightarrow> held (mem s) U X p < 2 ^ 31 - 1"
  using owners_bound[of s R U X p] by (simp add: held_def)

section \<open>Editing and replacing an entry\<close>

lemma uvm_edit:
  assumes inv: "uvm_inv s R U X" and pts: "pts_inv t R" and fr: "pt_frame R s t"
    and ra: "(r, a) \<in> U" and e: "vmap (mem s) r a = Some e"
    and v: "\<And>r' x. r' \<in> R \<Longrightarrow> vmap (mem t) r' x = vset (Some e') r a (vmap (mem s)) r' x"
    and e': "PTE2PA e' = PTE2PA e" "has e' PTE_R"
  shows "uvm_inv t R U X" and "keeps U X s t" and "held (mem t) U X p = held (mem s) U X p"
proof -
  have u: "user_pages (mem s) R U" using inv by (simp add: uvm_inv_def)
  from uvm_user[OF inv ra] have r: "r \<in> R" "aligned a" "a < MAXVA" by auto
  have vt: "vmap (mem t) r' a' = (if (r', a') = (r, a) then Some e' else vmap (mem s) r' a')" if "(r', a') \<in> U" for r' a'
  proof -
    have "r' \<in> R" "aligned a'" using user_pagesD(1)[OF u that] by blast+
    then show ?thesis using v[of r' a'] vset_other[of a' a r' r] vset_same[OF r(3)] r by auto
  qed
  have ow: "owners (mem t) U p = owners (mem s) U p" for p
    unfolding owners_def using vt e e'(1) by (auto split: if_splits)
  then show h: "held (mem t) U X p = held (mem s) U X p" for p by (simp add: held_def)
  have u': "user_pages (mem t) R U"
    unfolding user_pages_def
  proof (intro conjI ballI allI impI)
    fix y assume y: "y \<in> U"
    obtain r' a' where ra': "y = (r', a')" by (cases y)
    with y vt[of r' a'] user_pagesD(1)[OF u, of r' a'] e'(2)
    show "case y of (r', a') \<Rightarrow> r' \<in> R \<and> aligned a' \<and> a' < MAXVA \<and> (\<exists>e. vmap (mem t) r' a' = Some e \<and> has e PTE_R)"
      by auto
  next
    fix r' a' e2 assume "r' \<in> R" "vmap (mem t) r' a' = Some e2 \<and> has e2 PTE_U"
    then show "(r', PGROUNDDOWN a') \<in> U"
      using v[of r' a'] ra PGROUNDDOWN_aligned[OF r(2)] user_pagesD(2)[OF u]
      by (auto simp: vset_def split: if_splits)
  qed
  show "uvm_inv t R U X" by (rule uvm_transfer(1)[OF inv pts fr h u'])
  show "keeps U X s t" by (rule uvm_transfer(2)[OF inv pts fr h u'])
qed

text \<open>Entering the page \<open>q\<close>, which the kernel holds, in place of the page mapped at \<open>a\<close>.\<close>

lemma store64_twice: "store64 (store64 m a v) a w = store64 m a w"
  by (auto simp: store64_def)

lemma uvm_replace:
  assumes inv: "uvm_inv s R U X" and ra: "(r, a) \<in> U" and e: "vmap (mem s) r a = Some e"
    and p: "tnode (mem s) r [PX 2 a, PX 1 a] = Some p" and e': "has e' PTE_V" "has e' PTE_R" "0 < X (PTE2PA e')"
    and ne: "PTE2PA e' \<noteq> PTE2PA e"
  defines "t \<equiv> s\<lparr>mem := store64 (mem s) (slot p (PX 0 a)) e'\<rparr>"
  shows "uvm_inv t R U (X(PTE2PA e := X (PTE2PA e) + 1, PTE2PA e' := X (PTE2PA e') - 1))" and "keeps U X s t"
    and "r' \<in> R \<Longrightarrow> vmap (mem t) r' x = vset (Some e') r a (vmap (mem s)) r' x"
proof -
  from uvm_user[OF inv ra] have r: "r \<in> R" "aligned a" "a < MAXVA" by auto
  let ?s = "s\<lparr>mem := store64 (mem s) (slot p (PX 0 a)) 0\<rparr>" and ?X = "X(PTE2PA e := X (PTE2PA e) + 1)"
  note l0 = leaf_store[OF uvm_pts[OF inv] r(1,3) p, where e = 0]
  have v0: "vmap (mem ?s) r' x = vset None r a (vmap (mem s)) r' x" if "r' \<in> R" for r' x
    using l0(4)[OF that] by (simp add: leaf_entry_def)
  note rm = uvm_remove[OF inv l0(1,2) ra e v0]
  have p': "tnode (mem ?s) r [PX 2 a, PX 1 a] = Some p" using l0(5)[OF r(1) tpath_PX[of a]] p by simp
  have t: "t = ?s\<lparr>mem := store64 (mem ?s) (slot p (PX 0 a)) e'\<rparr>" by (simp add: t_def store64_twice)
  note l1 = leaf_store[OF l0(1) r(1,3) p', where e = e', folded t]
  have v1: "vmap (mem t) r' x = vset (Some e') r a (vmap (mem ?s)) r' x" if "r' \<in> R" for r' x
    using l1(4)[OF that] e'(1) by (simp add: leaf_entry_def t)
  have x: "0 < ?X (PTE2PA e')" using e'(3) by simp
  have "(r, a) \<notin> U - {(r, a)}" by simp
  note ad = uvm_add[OF rm(1) l1(1,2) r this v1 e'(2) x]
  have U: "insert (r, a) (U - {(r, a)}) = U" and X: "?X (PTE2PA e') = X (PTE2PA e')" using ra ne by auto
  show "uvm_inv t R U (X(PTE2PA e := X (PTE2PA e) + 1, PTE2PA e' := X (PTE2PA e') - 1))"
    using ad(1) unfolding U X .
  show "vmap (mem t) r' x = vset (Some e') r a (vmap (mem s)) r' x" if "r' \<in> R" for r' x
    using v0[OF that] v1[OF that] by (simp add: vset_def)
  show "keeps U X s t"
  proof (rule keeps_trans[OF rm(2) ad(2)])
    fix p' assume "0 < held (mem s) U X p'"
    then show "0 < held (mem s) U X p' \<and> 0 < held (mem ?s) (U - {(r, a)}) ?X p'" by (simp only: rm(3) simp_thms)
  qed
qed

section \<open>cowfault\<close>

abbreviation (input) cow_entry :: "u64 \<Rightarrow> u64" where
  "cow_entry q \<equiv> PA2PTE q OR PTE_U OR PTE_V OR PTE_W OR PTE_X OR PTE_R"

lemma cow_entry:
  assumes "ram_page s q"
  shows "PTE2PA (cow_entry q) = q" "has (cow_entry q) PTE_V" "has (cow_entry q) PTE_R" "has (cow_entry q) PTE_W"
    "has (cow_entry q) PTE_U"
  using PTE2PA_PA2PTE[OF ram_page_aligned[OF assms] ram_page_unat[OF assms], of 31] bit_PA2PTE[of _ q]
  by (simp_all add: bit_or_iff)

text \<open>The page that is copied into is not in use by anyone else.\<close>

lemma uvm_copy_page:
  assumes inv: "uvm_inv s R U X" and q: "q \<in> free_pages s" and kt: "uvm_inv (taken q s) R U (X(q := 1))"
    and v: "same_maps R s (taken q s)" and p: "aligned p" "p \<noteq> q"
  defines "t \<equiv> (taken q s)\<lparr>mem := memmove (mem (taken q s)) q p PGSIZE_nat\<rparr>"
  shows "uvm_inv t R U (X(q := 1))" and "keeps U X s t" and "same_maps R s t"
    and "PGROUNDDOWN x = q \<Longrightarrow> mem t x = mem s (p + (x - q))" and "PGROUNDDOWN x \<noteq> q \<Longrightarrow> mem t x = mem s x"
proof -
  have al: "aligned q" by (rule free_page(2)[OF q])
  have h: "0 < held (mem (taken q s)) U (X(q := 1)) q" by (simp add: held_def)
  have mm: "mem t x = (if PGROUNDDOWN x = q then mem (taken q s) (p + (x - q)) else mem (taken q s) x)" for x
    unfolding t_def using memmove_page[OF al p(1)] by simp
  have m: "memmove (mem (taken q s)) q p PGSIZE_nat x = mem (taken q s) x" if "PGROUNDDOWN x \<noteq> q" for x
    using mm[of x] that by (simp add: t_def)
  show "uvm_inv t R U (X(q := 1))" unfolding t_def by (rule uvm_write(1)[OF kt h m])
  show "same_maps R s t"
    using uvm_write(2)[OF kt h m] v unfolding same_maps_def t_def by auto
  show o: "mem t x = mem s x" if "PGROUNDDOWN x \<noteq> q" for x using mm[of x] that by simp
  have "held (mem s) U X q = 0" by (rule free_not_held(1)[OF inv q])
  then have "mem t y = mem s y" if "0 < held (mem s) U X (PGROUNDDOWN y)" for y
    using o[of y] that by (cases "PGROUNDDOWN y = q") auto
  then show "keeps U X s t" by (auto simp: keeps_def t_def)
  assume x: "PGROUNDDOWN x = q"
  have "unat (x - q) < 4096" using page_iff[OF al, of x] x by simp
  then have "PGROUNDDOWN (p + (x - q)) = p" by (rule page_plus_offset[OF p(1)])
  then show "mem t x = mem s (p + (x - q))" using mm[of x] x p(2) by simp
qed

lemma cowfault_unmapped:
  assumes inv: "uvm_inv s R U X" and r: "r \<in> R"
    and no: "\<not> (\<exists>e. vmap (mem s) r va = Some e \<and> has e PTE_U)"
  shows "cowfault r va s = Ok (- 1) s"
proof (cases "va < MAXVA")
  case False
  then show ?thesis by (simp add: cowfault_def not_less)
next
  case va: True
  show ?thesis
  proof (cases "vmap (mem s) r va")
    case None
    from walk_unmapped[OF uvm_pts[OF inv] r va None] show ?thesis
      using va by (cases rule: walk_unmapped[OF uvm_pts[OF inv] r va None]) (auto simp: cowfault_def not_le)
  next
    case (Some e)
    with no have "\<not> has e PTE_U" by auto
    from walk_mapped[OF uvm_pts[OF inv] r Some] obtain p where
      "walk r va False s = Ok (slot p (PX 0 va)) s" "load64 (mem s) (slot p (PX 0 va)) = e" by metis
    with va \<open>\<not> has e PTE_U\<close> show ?thesis by (simp add: cowfault_def not_le)
  qed
qed

lemma vset_page [simp]: "vset e r (PGROUNDDOWN va) f = vset e r va f"
  by (simp add: vset_def PGROUNDDOWN_aligned)

text \<open>The steps of a successful \<open>cowfault\<close> on the user page at \<open>a\<close>.\<close>

lemma cow_steps:
  assumes inv: "uvm_inv s R U X" and ra: "(r, a) \<in> U" and e: "vmap (mem s) r a = Some e"
    and p: "tnode (mem s) r [PX 2 a, PX 1 a] = Some p"
    and q: "q \<in> free_pages s" "uvm_inv (taken q s) R U (X(q := 1))" "same_maps R s (taken q s)"
  shows "\<exists>t0 t. t0 = (taken q s)\<lparr>mem := store64 (memmove (mem (taken q s)) q (PTE2PA e) PGSIZE_nat)
              (slot p (PX 0 a)) (cow_entry q)\<rparr>
     \<and> kfree (PTE2PA e) t0 = Ok () t \<and> uvm_inv t R U X \<and> keeps (U - {(r, a)}) X s t
     \<and> (\<forall>r' \<in> R. \<forall>x. vmap (mem t) r' x = vset (Some (cow_entry q)) r a (vmap (mem s)) r' x)
     \<and> (\<forall>x. PGROUNDDOWN x = q \<longrightarrow> mem t x = mem s (PTE2PA e + (x - q)))"
proof -
  let ?pa = "PTE2PA e" and ?X1 = "X(q := 1)" and ?U = "U - {(r, a)}"
  let ?s1 = "(taken q s)\<lparr>mem := memmove (mem (taken q s)) q ?pa PGSIZE_nat\<rparr>"
  let ?t0 = "?s1\<lparr>mem := store64 (mem ?s1) (slot p (PX 0 a)) (cow_entry q)\<rparr>"
  note fr = free_not_held[OF inv q(1)] and ce = cow_entry[OF free_page(1)[OF q(1)]]
  from uvm_user[OF inv ra] have r: "r \<in> R" by auto
  have pq: "?pa \<noteq> q" using ra e fr(2) by (auto simp: owners_def)
  note cp = uvm_copy_page[OF inv q aligned_PTE2PA pq]
  have e1: "vmap (mem ?s1) r a = Some e" using cp(3) r e by (simp add: same_maps_def)
  have qt: "q \<notin> tables (mem s) R" using pts_inv_table(4)[OF uvm_pts[OF inv]] q(1) by auto
  have p1: "tnode (mem ?s1) r [PX 2 a, PX 1 a] = Some p"
    using page_change(4)[OF uvm_pts[OF inv] qt _ r tpath_PX[of a], of "mem ?s1"] cp(5) p by simp
  have x1: "0 < ?X1 (PTE2PA (cow_entry q))" using ce(1) by simp
  have ne: "PTE2PA (cow_entry q) \<noteq> ?pa" using ce(1) pq by simp
  note rp = uvm_replace[OF cp(1) ra e1 p1 ce(2,3) x1 ne]
  have X2: "?X1(?pa := ?X1 ?pa + 1, PTE2PA (cow_entry q) := ?X1 (PTE2PA (cow_entry q)) - 1) = X(?pa := X ?pa + 1)"
    using pq fr(3) unfolding ce(1) by auto
  have X3: "(X(?pa := X ?pa + 1))(?pa := (X(?pa := X ?pa + 1)) ?pa - 1) = X" by auto
  have x2: "0 < (X(?pa := X ?pa + 1)) ?pa" by simp
  from uvm_kfree[OF rp(1)[unfolded X2] x2, unfolded X3] obtain t where
    t: "kfree ?pa ?t0 = Ok () t" "uvm_inv t R U X" "keeps U X ?t0 t" "same_maps R ?t0 t" by auto
  have v: "vmap (mem t) r' x = vset (Some (cow_entry q)) r a (vmap (mem s)) r' x" if "r' \<in> R" for r' x
    using t(4) rp(3)[OF that, of x] cp(3) that by (simp add: same_maps_def vset_def)
  have hs: "0 < held (mem s) U X p' \<Longrightarrow> 0 < held (mem ?s1) U ?X1 p'" for p'
  proof -
    assume h: "0 < held (mem s) U X p'"
    have "held (mem ?s1) U ?X1 p' = held (mem s) U ?X1 p'"
      using cp(3) uvm_user[OF inv] by (intro held_cong) (metis same_maps_def)
    moreover have "p' \<noteq> q" using h fr(1) by auto
    ultimately show ?thesis using h by (simp add: held_def)
  qed
  have "keeps U X s ?t0" by (rule keeps_trans[OF cp(2) rp(2)]) (blast intro: hs)
  then have "keeps ?U X s t"
  proof (rule keeps_trans[OF _ t(3)])
    fix p' assume h: "0 < held (mem s) ?U X p'"
    have "held (mem s) ?U X p' \<le> held (mem s) U X p'" by (rule held_mono) auto
    moreover have "held (mem ?t0) ?U X p' = held (mem s) ?U X p'"
    proof (rule held_cong)
      fix r' a' assume y: "(r', a') \<in> ?U"
      then have "r' \<in> R" "aligned a'" "aligned a" using uvm_user[OF inv] ra by blast+
      with y v[of r' a'] t(4) vset_other[of a' a r' r] show "vmap (mem ?t0) r' a' = vmap (mem s) r' a'"
        by (auto simp: same_maps_def)
    qed
    moreover have "held (mem ?t0) ?U X p' \<le> held (mem ?t0) U X p'" by (rule held_mono) auto
    ultimately show "0 < held (mem s) U X p' \<and> 0 < held (mem ?t0) U X p'" using h by simp
  qed
  moreover have "mem t x = mem s (?pa + (x - q))" if x: "PGROUNDDOWN x = q" for x
  proof -
    have am: "a < MAXVA" using uvm_user[OF inv ra] by blast
    have "vmap (mem ?t0) r a = Some (cow_entry q)"
      using rp(3)[OF r, of a] am by (simp add: vset_same)
    then have "(r, a) \<in> owners (mem ?t0) U q" using ra ce(1) by (auto simp: owners_def)
    then have "0 < card (owners (mem ?t0) U q)" by (auto simp: card_gt_0_iff)
    then have "mem t x = mem ?t0 x" using t(3) x by (simp add: keeps_def held_def)
    moreover have "0 < held (mem ?s1) U ?X1 q" by (simp add: held_def)
    then have "mem ?t0 x = mem ?s1 x" using rp(2) x by (simp only: keeps_def)
    ultimately show ?thesis using cp(4)[OF x] by simp
  qed
  ultimately show ?thesis using t(1,2) v by (intro exI[of _ ?t0] exI[of _ t]) simp
qed

lemma cowfault_user:
  assumes inv: "uvm_inv s R U X" and r: "r \<in> R" and e: "vmap (mem s) r va = Some e" "has e PTE_U"
  shows "(free_pages s = {} \<and> cowfault r va s = Ok (- 1) s)
     \<or> (\<exists>t q. cowfault r va s = Ok 0 t \<and> uvm_inv t R U X \<and> keeps (U - {(r, PGROUNDDOWN va)}) X s t
         \<and> q \<in> free_pages s \<and> held (mem t) U X q = 1 \<and> owners (mem t) U q = {(r, PGROUNDDOWN va)}
         \<and> (\<forall>r' \<in> R. \<forall>x. vmap (mem t) r' x = vset (Some (cow_entry q)) r va (vmap (mem s)) r' x)
         \<and> (\<forall>x. PGROUNDDOWN x = PGROUNDDOWN va \<longrightarrow> vbyte (mem t) r x = vbyte (mem s) r x))"
proof -
  from walk_mapped[OF uvm_pts[OF inv] r e(1)] obtain p where
    w: "walk r va False s = Ok (slot p (PX 0 va)) s" "slot p (PX 0 va) \<noteq> 0"
      "load64 (mem s) (slot p (PX 0 va)) = e" "has e PTE_V" "va < MAXVA"
      "tnode (mem s) r [PX 2 va, PX 1 va] = Some p" by metis
  from inv show ?thesis
  proof (cases rule: uvm_kalloc)
    case none
    with w e(2) show ?thesis by (simp add: cowfault_def not_le)
  next
    case (some q)
    let ?a = "PGROUNDDOWN va" and ?pa = "PTE2PA e" and ?e = "cow_entry q"
    have u: "user_pages (mem s) R U" using inv by (simp add: uvm_inv_def)
    have ra: "(r, ?a) \<in> U" by (rule user_pagesD(2)[OF u r e])
    have ea: "vmap (mem s) r ?a = Some e" using e(1) by simp
    have px: "PX 0 ?a = PX 0 va" "PX 1 ?a = PX 1 va" "PX 2 ?a = PX 2 va" by (simp_all add: PX_PGROUNDDOWN)
    have pa: "tnode (mem s) r [PX 2 ?a, PX 1 ?a] = Some p" using w(6) by (simp only: px)
    have sm: "same_maps R s (taken q s)" using some(11) by (simp add: same_maps_def)
    note ce = cow_entry[OF some(5)]
    from cow_steps[OF inv ra ea pa some(2,8) sm] obtain t0 t where
      t0: "t0 = (taken q s)\<lparr>mem := store64 (memmove (mem (taken q s)) q ?pa PGSIZE_nat) (slot p (PX 0 va)) ?e\<rparr>"
      and t: "kfree ?pa t0 = Ok () t" "uvm_inv t R U X" "keeps (U - {(r, ?a)}) X s t"
        "\<forall>r' \<in> R. \<forall>x. vmap (mem t) r' x = vset (Some ?e) r va (vmap (mem s)) r' x"
        "\<forall>x. PGROUNDDOWN x = q \<longrightarrow> mem t x = mem s (?pa + (x - q))"
      unfolding px vset_page by blast
    have "cowfault r va s = Ok 0 t"
      using w e(2) some(1,3) t(1) t0 by (simp add: cowfault_def not_le Let_def)
    moreover have ow: "owners (mem t) U q = {(r, ?a)}"
    proof -
      have "vmap (mem t) r ?a = Some ?e" using t(4) r w(5) by (simp add: vset_def PGROUNDDOWN_aligned)
      then have "(r, ?a) \<in> owners (mem t) U q" using ra ce(1) unfolding owners_def by blast
      moreover have "(r', a') = (r, ?a)" if y: "(r', a') \<in> owners (mem t) U q" for r' a'
      proof (rule ccontr)
        assume n: "(r', a') \<noteq> (r, ?a)"
        have y': "(r', a') \<in> U" using y by (auto simp: owners_def)
        then have "r' \<in> R" "aligned a'" using user_pagesD(1)[OF u y'] by blast+
        then have "vmap (mem t) r' a' = vset (Some ?e) r ?a (vmap (mem s)) r' a'" using t(4) by simp
        also have "\<dots> = vmap (mem s) r' a'" by (rule vset_other[OF \<open>aligned a'\<close> aligned_PGROUNDDOWN n])
        finally have "vmap (mem t) r' a' = vmap (mem s) r' a'" .
        with y y' have "(r', a') \<in> owners (mem s) U q" unfolding owners_def by simp
        with some(6) show False by simp
      qed
      then have "owners (mem t) U q \<subseteq> {(r, ?a)}" by (metis insertI1 subrelI)
      ultimately show ?thesis by blast
    qed
    moreover have "held (mem t) U X q = 1" using ow some(4) by (simp add: held_def)
    moreover have "vbyte (mem t) r x = vbyte (mem s) r x" if x: "PGROUNDDOWN x = ?a" for x
    proof -
      have "x < MAXVA" using w(5) x PGROUNDDOWN_less_MAXVA[of x] PGROUNDDOWN_less_MAXVA[of va] by simp
      then have "vmap (mem t) r x = Some ?e" using t(4) r x by (simp add: vset_def)
      moreover have "vmap (mem s) r x = Some e" using e(1) x vmap_PGROUNDDOWN[of "mem s" r x] vmap_PGROUNDDOWN[of "mem s" r va] by simp
      moreover have "PGROUNDDOWN (q + (x - PGROUNDDOWN x)) = q" by (metis ce(1) page_of_byte)
      ultimately show ?thesis using t(5) ce(1) by (simp add: vbyte_def)
    qed
    ultimately show ?thesis using t(2,3,4) some(2) by blast
  qed
qed

section \<open>uvmcopy\<close>

lemma bit_clear_W: "bit (e AND NOT PTE_W) n \<longleftrightarrow> bit e n \<and> n \<noteq> 2" for e :: u64
proof -
  have "bit (4 :: u64) n \<longleftrightarrow> n = 2"
    unfolding flag_bits(3) bit_push_bit_iff bit_1_iff by auto
  then show ?thesis unfolding bit_and_iff bit_not_iff using bit_imp_possible_bit[of e n] by auto
qed

lemma PTE2PA_clear_W: "PTE2PA (e AND NOT PTE_W) = PTE2PA e"
proof (rule bit_word_eqI)
  fix n show "bit (PTE2PA (e AND NOT PTE_W)) n = bit (PTE2PA e) n"
    by (auto simp only: PTE2PA_def bit_push_bit_iff bit_drop_bit_eq comp_apply bit_clear_W)
qed

lemma PTE_FLAGS_clear_W: "PTE_FLAGS (e AND NOT PTE_W) = PTE_FLAGS e AND NOT PTE_W"
  by (rule bit_word_eqI) (simp only: bit_PTE_FLAGS bit_clear_W conj_assoc)

text \<open>The entries of the parent and of the child for a page whose entry was \<open>e\<close>.\<close>

definition cow_pair :: "u64 \<Rightarrow> u64 \<Rightarrow> u64 \<Rightarrow> bool" where
  "cow_pair e eo en \<longleftrightarrow> PTE2PA eo = PTE2PA e \<and> PTE2PA en = PTE2PA e
     \<and> PTE_FLAGS eo = PTE_FLAGS e AND NOT PTE_W \<and> PTE_FLAGS en = PTE_FLAGS eo"

lemma flags_less: "unat (PTE_FLAGS e) < 2 ^ 10"
proof -
  have "take_bit 10 (PTE_FLAGS e) = PTE_FLAGS e"
    by (rule bit_word_eqI) (auto simp: bit_take_bit_iff bit_PTE_FLAGS)
  then have "unat (PTE_FLAGS e) = take_bit 10 (unat (PTE_FLAGS e))" by (metis unsigned_take_bit_eq)
  then show ?thesis by (metis take_bit_nat_less_exp)
qed

lemma share_page:
  assumes inv: "uvm_inv s R U X" and r: "new \<in> R" "old \<noteq> new" and oi: "(old, i) \<in> U" and e: "vmap (mem s) old i = Some e"
    and ni: "(new, i) \<notin> U" "vmap (mem s) new i = None" and x: "\<forall>p. X p < 2 ^ 30 - 1"
    and p: "tnode (mem s) old [PX 2 i, PX 1 i] = Some p"
  defines "s1 \<equiv> s\<lparr>mem := store64 (mem s) (slot p (PX 0 i)) (e AND NOT PTE_W)\<rparr>"
  shows "load64 (mem s1) (slot p (PX 0 i)) = e AND NOT PTE_W"
    and "increse (PTE2PA e) s1 = Ok () (shared (PTE2PA e) s1)"
    and "(\<exists>t. mappages new i PGSIZE (PTE2PA e) (PTE_FLAGS (e AND NOT PTE_W)) (shared (PTE2PA e) s1) = Ok (- 1) t
          \<and> uvm_inv t R U (X(PTE2PA e := X (PTE2PA e) + 1)) \<and> keeps U X s t
          \<and> (\<forall>r' \<in> R. \<forall>y. vmap (mem t) r' y = vset (Some (e AND NOT PTE_W)) old i (vmap (mem s)) r' y))
      \<or> (\<exists>t en. mappages new i PGSIZE (PTE2PA e) (PTE_FLAGS (e AND NOT PTE_W)) (shared (PTE2PA e) s1) = Ok 0 t
          \<and> uvm_inv t R (insert (new, i) U) X \<and> keeps U X s t \<and> cow_pair e (e AND NOT PTE_W) en
          \<and> (\<forall>r' \<in> R. \<forall>y. vmap (mem t) r' y
               = vset (Some en) new i (vset (Some (e AND NOT PTE_W)) old i (vmap (mem s))) r' y))"
proof -
  let ?pa = "PTE2PA e" and ?eo = "e AND NOT PTE_W" and ?X = "X(PTE2PA e := X (PTE2PA e) + 1)"
  let ?s2 = "shared ?pa s1" and ?fl = "PTE_FLAGS (e AND NOT PTE_W)"
  show "load64 (mem s1) (slot p (PX 0 i)) = ?eo" by (simp add: s1_def)
  from uvm_user[OF inv oi] e have o: "old \<in> R" "aligned i" "i < MAXVA" "has e PTE_R" by auto
  have V: "has e PTE_V" using e by (auto simp: vmap_Some_iff)
  have eo: "has ?eo PTE_V" "has ?eo PTE_R" using o(4) V by (simp_all only: has_bit bit_clear_W) simp_all
  note ls = leaf_store[OF uvm_pts[OF inv] o(1,3) p, where e = ?eo, folded s1_def]
  have v1: "vmap (mem s1) r' y = vset (Some ?eo) old i (vmap (mem s)) r' y" if "r' \<in> R" for r' y
    using ls(4)[OF that] eo(1) by (simp add: leaf_entry_def s1_def)
  have ed: "uvm_inv s1 R U X" "keeps U X s s1" "\<And>q. held (mem s1) U X q = held (mem s) U X q"
    using uvm_edit[OF inv ls(1,2) oi e v1 PTE2PA_clear_W eo(2)] by blast+
  have pos: "0 < held (mem s) U X ?pa" using uvm_user[OF inv oi] e by auto
  have lt: "held (mem s1) U X ?pa < 2 ^ 31 - 1"
    using held_bound[OF ed(1), of ?pa] x[rule_format, of ?pa] by simp
  have pos1: "0 < held (mem s1) U X ?pa" using pos ed(3) by simp
  note ic = uvm_increse[OF ed(1) pos1 lt]
  show "increse ?pa s1 = Ok () ?s2" by (rule ic(1))
  have k2: "keeps U X s ?s2" using ed(2) by (simp add: keeps_def)
  have v2: "vmap (mem ?s2) new i = None"
    using v1[OF r(1), of i] ni(2) vset_other[of i i new old] o(2) r(2) by simp
  have x2: "0 < ?X ?pa" by simp
  have X3: "?X(?pa := ?X ?pa - 1) = X" by auto
  have bit: "bit ?fl 1" using eo(2) by (simp only: bit_PTE_FLAGS has_bit) simp
  have hs: "0 < held (mem ?s2) U ?X q" if "0 < held (mem s) U X q" for q
    using that ed(3)[of q] by (simp add: held_def)
  have kt: "keeps U X s t" if "keeps U ?X ?s2 t" for t
    by (rule keeps_trans[OF k2 that]) (blast intro: hs)
  note me = mapped_entry[OF uvm_held(1)[OF inv pos] flags_less[of ?eo]]
  have fl: "?fl OR PTE_V = ?fl"
  proof (rule bit_word_eqI)
    fix n show "bit (?fl OR PTE_V) n = bit ?fl n"
      using eo(1) by (auto simp only: bit_or_iff bit_1_iff bit_PTE_FLAGS has_bit)
  qed
  have cp: "cow_pair e ?eo (PA2PTE ?pa OR ?fl OR PTE_V)"
    unfolding cow_pair_def using me(1,2) fl PTE2PA_clear_W PTE_FLAGS_clear_W by simp
  from map_user[OF ic(2) r(1) o(2,3) ni(1) v2 x2 flags_less bit, unfolded X3]
  show "(\<exists>t. mappages new i PGSIZE ?pa ?fl ?s2 = Ok (- 1) t \<and> uvm_inv t R U ?X \<and> keeps U X s t
          \<and> (\<forall>r' \<in> R. \<forall>y. vmap (mem t) r' y = vset (Some ?eo) old i (vmap (mem s)) r' y))
      \<or> (\<exists>t en. mappages new i PGSIZE ?pa ?fl ?s2 = Ok 0 t
          \<and> uvm_inv t R (insert (new, i) U) X \<and> keeps U X s t \<and> cow_pair e ?eo en
          \<and> (\<forall>r' \<in> R. \<forall>y. vmap (mem t) r' y = vset (Some en) new i (vset (Some ?eo) old i (vmap (mem s))) r' y))"
  proof (elim disjE exE conjE)
    fix t assume t: "mappages new i PGSIZE ?pa ?fl ?s2 = Ok (- 1) t" "uvm_inv t R U ?X" "keeps U ?X ?s2 t"
      "same_maps R ?s2 t"
    have "\<forall>r' \<in> R. \<forall>y. vmap (mem t) r' y = vset (Some ?eo) old i (vmap (mem s)) r' y"
      using t(4) v1 by (simp add: same_maps_def)
    with t(1,2) kt[OF t(3)] show ?thesis by blast
  next
    fix t assume t: "mappages new i PGSIZE ?pa ?fl ?s2 = Ok 0 t" "uvm_inv t R (insert (new, i) U) X" "keeps U ?X ?s2 t"
      "\<forall>r' \<in> R. \<forall>y. vmap (mem t) r' y = vset (Some (PA2PTE ?pa OR ?fl OR PTE_V)) new i (vmap (mem ?s2)) r' y"
    have "\<forall>r' \<in> R. \<forall>y. vmap (mem t) r' y
       = vset (Some (PA2PTE ?pa OR ?fl OR PTE_V)) new i (vset (Some ?eo) old i (vmap (mem s))) r' y"
    proof (intro ballI allI)
      fix r' y assume "r' \<in> R"
      then show "vmap (mem t) r' y = vset (Some (PA2PTE ?pa OR ?fl OR PTE_V)) new i (vset (Some ?eo) old i (vmap (mem s))) r' y"
        using t(4) v1[OF \<open>r' \<in> R\<close>, of y] by (simp only: vset_def shared_simps)
    qed
    with t(1,2) kt[OF t(3)] cp show ?thesis by blast
  qed
qed

text \<open>
  What a call has done to the maps: the pages from \<open>lo\<close> up to \<open>hi\<close> are shared between
  \<open>old\<close> and \<open>new\<close>, and the rest is as before.
\<close>

definition cow_range :: "u64 set \<Rightarrow> memory \<Rightarrow> memory \<Rightarrow> u64 \<Rightarrow> u64 \<Rightarrow> nat \<Rightarrow> nat \<Rightarrow> bool" where
  "cow_range R m m' old new lo hi \<longleftrightarrow>
     (\<forall>x. lo \<le> unat x \<and> unat x < hi \<longrightarrow>
        (\<exists>e eo en. vmap m old x = Some e \<and> vmap m' old x = Some eo \<and> vmap m' new x = Some en \<and> cow_pair e eo en))
     \<and> (\<forall>r \<in> R. \<forall>x. \<not> ((r = old \<or> r = new) \<and> lo \<le> unat x \<and> unat x < hi) \<longrightarrow> vmap m' r x = vmap m r x)"

lemma vset_in:
  assumes "aligned a" and "unat a + 4096 \<le> 2 ^ 38"
  shows "vset e r a f r' y = (if r' = r \<and> PGROUNDDOWN y = a then e else f r' y)"
proof (cases "PGROUNDDOWN y = a")
  case True
  then have "unat y < 2 ^ 38" using page_range[OF assms(1), of y] assms(2) by linarith
  then have "y < MAXVA" by (simp add: word_less_nat_alt)
  then show ?thesis unfolding vset_def PGROUNDDOWN_aligned[OF assms(1)] by simp
next
  case False
  then show ?thesis unfolding vset_def PGROUNDDOWN_aligned[OF assms(1)] by simp
qed

lemma cow_range_step:
  assumes R: "old \<in> R" "new \<in> R" "old \<noteq> new" and i: "aligned i" "unat i + 4096 \<le> 2 ^ 38" and e: "vmap m old i = Some e"
    and v: "\<forall>r' \<in> R. \<forall>y. vmap m1 r' y = vset (Some en) new i (vset (Some eo) old i (vmap m)) r' y" and c: "cow_pair e eo en"
    and rest: "cow_range R m1 m' old new (unat (i + 4096)) hi" and hi: "unat i + 4096 \<le> hi"
  shows "cow_range R m m' old new (unat i) hi"
proof -
  have b: "unat (i + 4096) = unat i + 4096" using next_page[OF i] by simp
  have pg: "PGROUNDDOWN x = i \<longleftrightarrow> unat i \<le> unat x \<and> unat x < unat i + 4096" for x by (rule page_range[OF i(1)])
  have v1: "vmap m1 r' y = (if PGROUNDDOWN y = i \<and> r' = new then Some en else if PGROUNDDOWN y = i \<and> r' = old then Some eo else vmap m r' y)"
    if "r' \<in> R" for r' y
    using v[rule_format, OF that, of y] unfolding vset_in[OF i] by simp
  note rA = rest[unfolded cow_range_def, THEN conjunct1, rule_format]
  have rB: "vmap m' r x = vmap m1 r x" if "r \<in> R" "\<not> unat (i + 4096) \<le> unat x \<or> \<not> unat x < hi \<or> (r \<noteq> old \<and> r \<noteq> new)" for r x
    by (rule rest[unfolded cow_range_def, THEN conjunct2, rule_format, OF that(1)]) (use that(2) in blast)
  have one: "\<exists>e eo en. vmap m old x = Some e \<and> vmap m' old x = Some eo \<and> vmap m' new x = Some en \<and> cow_pair e eo en"
    if x: "unat i \<le> unat x" "unat x < hi" for x
  proof (cases "PGROUNDDOWN x = i")
    case True
    then have "\<not> unat (i + 4096) \<le> unat x" using pg[of x] b by simp
    then have "vmap m' old x = vmap m1 old x" "vmap m' new x = vmap m1 new x"
      using rB[OF R(1)] rB[OF R(2)] by simp_all
    moreover have "vmap m old x = Some e" using e True vmap_PGROUNDDOWN[of m old x] by simp
    ultimately show ?thesis using v1[OF R(1), of x] v1[OF R(2), of x] True c R(3) by auto
  next
    case False
    then have "unat (i + 4096) \<le> unat x" using pg[of x] b x(1) by simp
    from rA[OF conjI[OF this x(2)]] obtain e eo en where
      "vmap m1 old x = Some e" "vmap m' old x = Some eo" "vmap m' new x = Some en" "cow_pair e eo en" by auto
    moreover have "vmap m1 old x = vmap m old x" using v1[OF R(1), of x] False by simp
    ultimately show ?thesis by auto
  qed
  moreover have "vmap m' r x = vmap m r x" if "r \<in> R" "\<not> ((r = old \<or> r = new) \<and> unat i \<le> unat x \<and> unat x < hi)" for r x
  proof -
    have "vmap m' r x = vmap m1 r x" using that b by (intro rB) auto
    moreover have "\<not> (PGROUNDDOWN x = i \<and> (r = old \<or> r = new))" using that(2) pg[of x] hi by auto
    ultimately show ?thesis using v1[OF that(1), of x] by auto
  qed
  ultimately show ?thesis unfolding cow_range_def by blast
qed

text \<open>The parent's maps up to the write permission, for a call that fails.\<close>

definition same_pages :: "u64 set \<Rightarrow> u64 \<Rightarrow> memory \<Rightarrow> memory \<Rightarrow> bool" where
  "same_pages R new m m' \<longleftrightarrow>
     (\<forall>r \<in> R - {new}. \<forall>x. map_option PTE2PA (vmap m' r x) = map_option PTE2PA (vmap m r x))"

lemma vset_same_page:
  assumes "vmap m old i = Some e" and "PTE2PA eo = PTE2PA e"
  shows "map_option PTE2PA (vset (Some eo) old i (vmap m) r x) = map_option PTE2PA (vmap m r x)"
proof -
  have "vmap m old x = Some e" if "PGROUNDDOWN x = PGROUNDDOWN i"
    using assms(1) that vmap_PGROUNDDOWN[of m old x] vmap_PGROUNDDOWN[of m old i] by simp
  with assms(2) show ?thesis by (auto simp: vset_def)
qed

lemma held_cong_pa:
  assumes "\<And>r a. (r, a) \<in> U \<Longrightarrow> map_option PTE2PA (vmap m' r a) = map_option PTE2PA (vmap m r a)"
  shows "held m' U X p = held m U X p"
proof -
  have "(\<exists>e. vmap m' r a = Some e \<and> PTE2PA e = p) \<longleftrightarrow> (\<exists>e. vmap m r a = Some e \<and> PTE2PA e = p)"
    if "(r, a) \<in> U" for r a
    using assms[OF that] by (cases "vmap m' r a"; cases "vmap m r a") auto
  then have "owners m' U p = owners m U p" unfolding owners_def by auto
  then show ?thesis by (simp add: held_def)
qed

lemma keeps_chain:
  assumes k: "keeps V X s t" "keeps U X' t u" and U: "U \<subseteq> V" and X: "\<And>p. X p \<le> X' p"
    and v: "\<And>r a. (r, a) \<in> U \<Longrightarrow> map_option PTE2PA (vmap (mem t) r a) = map_option PTE2PA (vmap (mem s) r a)"
  shows "keeps U X s u"
proof (rule keeps_trans[OF k])
  fix p assume h: "0 < held (mem s) U X p"
  have "held (mem s) U X p \<le> held (mem s) V X p" by (rule held_mono[OF U]) simp
  moreover have "held (mem t) U X p = held (mem s) U X p" by (rule held_cong_pa) (rule v)
  moreover have "held (mem t) U X p \<le> held (mem t) U X' p" using X by (simp add: held_def)
  ultimately show "0 < held (mem s) V X p \<and> 0 < held (mem t) U X' p" using h by simp
qed

lemma uvmcopy_undo:
  assumes inv: "uvm_inv t R U X" and i: "aligned i" "unat i \<le> 2 ^ 38" and C: "pspan new 0 (unat i) \<subseteq> U"
  shows "\<exists>u. uvmunmap new 0 (i div PGSIZE) True t = Ok () u \<and> uvm_inv u R (U - pspan new 0 (unat i)) X
     \<and> keeps (U - pspan new 0 (unat i)) X t u
     \<and> (\<forall>r \<in> R. \<forall>x. vmap (mem u) r x = cleared new 0 (unat i) (vmap (mem t)) r x)"
proof -
  define n where "n = unat i div 4096"
  have n: "4096 * n = unat i" using i(1) by (auto elim!: alignedE simp: n_def)
  have "n < 2 ^ 64" using unat_u64[of i] n by simp
  then have w: "i div PGSIZE = of_nat n" by (simp add: word_unat_eq_iff unat_div unat_of_nat_u64 n_def[symmetric])
  have "aligned 0" by (simp add: aligned_def)
  with uvmunmap_eq[of 0 n new True t] uvmunmap_loop_user[OF inv, of 0 n new] i C n show ?thesis by (auto simp: w)
qed

text \<open>What holds once the page at \<open>i\<close> is shared, and carries over to the state \<open>u\<close> at the end of the loop.\<close>

lemma uvmcopy_shared:
  assumes inv: "uvm_inv s R U X" and R: "old \<in> R" "new \<in> R" "old \<noteq> new" and i: "aligned i" "unat i + 4096 \<le> 2 ^ 38"
    and ni: "(new, i) \<notin> U" and e: "vmap (mem s) old i = Some e" and k: "keeps U X s t" and c: "cow_pair e eo en"
    and vt: "\<forall>r' \<in> R. \<forall>y. vmap (mem t) r' y = vset (Some en) new i (vset (Some eo) old i (vmap (mem s))) r' y"
  shows "V \<subseteq> U \<Longrightarrow> V \<subseteq> W \<Longrightarrow> keeps W X t u \<Longrightarrow> keeps V X s u"
    and "cow_range R (mem t) (mem u) old new (unat (i + 4096)) hi \<Longrightarrow> unat i + 4096 \<le> hi \<Longrightarrow> cow_range R (mem s) (mem u) old new (unat i) hi"
    and "same_pages R new (mem t) (mem u) \<Longrightarrow> same_pages R new (mem s) (mem u)"
    and "unmapped_range (mem s) new (unat i) hi \<Longrightarrow> unmapped_range (mem t) new (unat (i + 4096)) hi"
proof -
  have b: "unat (i + 4096) = unat i + 4096" using next_page[OF i] by simp
  have vin: "vmap (mem t) r' y = (if r' = new \<and> PGROUNDDOWN y = i then Some en
      else if r' = old \<and> PGROUNDDOWN y = i then Some eo else vmap (mem s) r' y)" if "r' \<in> R" for r' y
    using vt[rule_format, OF that, of y] unfolding vset_in[OF i] .
  have eo: "PTE2PA eo = PTE2PA e" using c by (simp add: cow_pair_def)
  have pa: "map_option PTE2PA (vmap (mem t) r a) = map_option PTE2PA (vmap (mem s) r a)"
    if "r \<in> R" "(r, PGROUNDDOWN a) \<noteq> (new, i)" for r a
    using vset_same_page[OF e eo, of r a] vin[OF that(1), of a] that(2) R(3)
    unfolding vset_in[OF i] by (auto split: if_splits)
  have paU: "map_option PTE2PA (vmap (mem t) r a) = map_option PTE2PA (vmap (mem s) r a)" if "(r, a) \<in> U" for r a
  proof -
    have "r \<in> R" "aligned a" using uvm_user[OF inv that] by blast+
    with that ni show ?thesis by (intro pa) (auto simp: PGROUNDDOWN_aligned)
  qed
  show "keeps V X s u" if "V \<subseteq> U" "V \<subseteq> W" "keeps W X t u"
  proof -
    have "keeps V X t u" using that(3)
    proof (rule keeps_weaken)
      fix p assume "0 < held (mem t) V X p"
      also have "held (mem t) V X p \<le> held (mem t) W X p" by (rule held_mono[OF that(2)]) simp
      finally show "0 < held (mem t) W X p" .
    qed
    then show ?thesis by (rule keeps_chain[OF k]) (use that(1) paU in auto)
  qed
  show "cow_range R (mem s) (mem u) old new (unat i) hi"
    if "cow_range R (mem t) (mem u) old new (unat (i + 4096)) hi" "unat i + 4096 \<le> hi"
    by (rule cow_range_step[OF R i e vt c that])
  show "same_pages R new (mem s) (mem u)" if "same_pages R new (mem t) (mem u)"
    using that pa unfolding same_pages_def by auto
  show "unmapped_range (mem t) new (unat (i + 4096)) hi" if h: "unmapped_range (mem s) new (unat i) hi"
    unfolding unmapped_range_def
  proof (intro allI impI)
    fix x :: u64 assume x: "unat (i + 4096) \<le> unat x" "unat x < hi"
    then have "PGROUNDDOWN x \<noteq> i" using page_range[OF i(1), of x] b by simp
    then show "vmap (mem t) new x = None"
      using vin[OF R(2), of x] h x b by (simp add: unmapped_range_def)
  qed
qed

lemma uvmcopy_loop_user:
  assumes "uvm_inv s R U X" and "old \<in> R" "new \<in> R" "old \<noteq> new" and "aligned i" and "unat i + 4096 * n \<le> 2 ^ 38"
    and "pspan old (unat i) (unat i + 4096 * n) \<subseteq> U" and "pspan new 0 (unat i) \<subseteq> U"
    and "pspan new (unat i) (unat i + 4096 * n) \<inter> U = {}" and "unmapped_range (mem s) new (unat i) (unat i + 4096 * n)"
    and "\<forall>p. X p < 2 ^ 30 - 1"
  shows "(\<exists>t. uvmcopy_loop n old new i s = Ok 0 t \<and> uvm_inv t R (U \<union> pspan new (unat i) (unat i + 4096 * n)) X
         \<and> keeps U X s t \<and> cow_range R (mem s) (mem t) old new (unat i) (unat i + 4096 * n))
     \<or> (\<exists>t p. uvmcopy_loop n old new i s = Ok (- 1) t \<and> uvm_inv t R (U - pspan new 0 (unat i)) (X(p := X p + 1))
         \<and> keeps (U - pspan new 0 (unat i)) X s t \<and> same_pages R new (mem s) (mem t))"
  using assms
proof (induction n arbitrary: i s U)
  case 0
  then show ?case by (auto simp: cow_range_def)
next
  case (Suc n)
  let ?hi = "unat i + 4096 * Suc n" and ?b = "i + 4096" and ?C = "pspan new 0 (unat i)"
  have i4: "unat i + 4096 \<le> 2 ^ 38" using Suc.prems(6) by simp
  have b: "unat ?b = unat i + 4096" "aligned ?b" using next_page[OF Suc.prems(5) i4] .
  have hi: "unat ?b + 4096 * n = ?hi" using b by simp
  have ilt: "unat i < ?hi" by simp
  have oi: "(old, i) \<in> U" using Suc.prems(7) pspan_step[OF Suc.prems(5) ilt, of old] by auto
  have ni: "(new, i) \<notin> U" using Suc.prems(9) pspan_step[OF Suc.prems(5) ilt, of new] by auto
  have nu: "vmap (mem s) new i = None" using Suc.prems(10) by (simp add: unmapped_range_def)
  from uvm_user[OF Suc.prems(1) oi] obtain e where e: "vmap (mem s) old i = Some e" by blast
  from walk_mapped[OF uvm_pts[OF Suc.prems(1)] Suc.prems(2) e] obtain p where
    w: "walk old i False s = Ok (slot p (PX 0 i)) s" "slot p (PX 0 i) \<noteq> 0"
      "load64 (mem s) (slot p (PX 0 i)) = e" "has e PTE_V" "tnode (mem s) old [PX 2 i, PX 1 i] = Some p" by metis
  note sh = share_page[OF Suc.prems(1,3,4) oi e ni nu Suc.prems(11) w(5)]
  let ?s1 = "s\<lparr>mem := store64 (mem s) (slot p (PX 0 i)) (e AND NOT PTE_W)\<rparr>"
  let ?mp = "mappages new i PGSIZE (PTE2PA e) (PTE_FLAGS (e AND NOT PTE_W)) (shared (PTE2PA e) ?s1)"
  have body: "uvmcopy_loop (Suc n) old new i s = bnd ?mp (\<lambda>r s.
      if r \<noteq> 0 then bnd (uvmunmap new 0 (i div PGSIZE) True s) (\<lambda>_ s. Ok (- 1) s)
      else uvmcopy_loop n old new ?b s)"
    using w(1-4) sh(1,2) by (simp add: Let_def)
  from sh(3) show ?case
  proof (elim disjE exE conjE)
    fix t assume t: "?mp = Ok (- 1) t" "uvm_inv t R U (X(PTE2PA e := X (PTE2PA e) + 1))" "keeps U X s t"
      and vt: "\<forall>r' \<in> R. \<forall>y. vmap (mem t) r' y = vset (Some (e AND NOT PTE_W)) old i (vmap (mem s)) r' y"
    have pa: "map_option PTE2PA (vmap (mem t) r a) = map_option PTE2PA (vmap (mem s) r a)" if "r \<in> R" for r a
      using vset_same_page[OF e PTE2PA_clear_W] vt that by simp
    have "unat i \<le> 2 ^ 38" using i4 by simp
    from uvmcopy_undo[OF t(2) Suc.prems(5) this Suc.prems(8)] obtain u where
      u: "uvmunmap new 0 (i div PGSIZE) True t = Ok () u" "uvm_inv u R (U - ?C) (X(PTE2PA e := X (PTE2PA e) + 1))"
        "keeps (U - ?C) (X(PTE2PA e := X (PTE2PA e) + 1)) t u"
        "\<forall>r \<in> R. \<forall>x. vmap (mem u) r x = cleared new 0 (unat i) (vmap (mem t)) r x" by blast
    have "keeps (U - ?C) X s u"
    proof (rule keeps_chain[OF t(3) u(3)])
      fix r a assume "(r, a) \<in> U - ?C"
      then have "r \<in> R" using uvm_user[OF Suc.prems(1)] by blast
      then show "map_option PTE2PA (vmap (mem t) r a) = map_option PTE2PA (vmap (mem s) r a)" by (rule pa)
    qed auto
    moreover have "same_pages R new (mem s) (mem u)"
      unfolding same_pages_def using u(4) pa by (simp add: cleared_def)
    moreover have "uvmcopy_loop (Suc n) old new i s = Ok (- 1) u" using body t(1) u(1) by simp
    ultimately show ?thesis using u(2) by blast
  next
    fix t en assume t: "?mp = Ok 0 t" "uvm_inv t R (insert (new, i) U) X" "keeps U X s t" "cow_pair e (e AND NOT PTE_W) en"
      and vt: "\<forall>r' \<in> R. \<forall>y. vmap (mem t) r' y = vset (Some en) new i (vset (Some (e AND NOT PTE_W)) old i (vmap (mem s))) r' y"
    note g = uvmcopy_shared[OF Suc.prems(1-5) i4 ni e t(3,4) vt]
    let ?U = "insert (new, i) U"
    have C': "pspan new 0 (unat ?b) = insert (new, i) ?C" using pspan_last[OF Suc.prems(5), of 0 new] b(1) by simp
    have N': "pspan new (unat i) ?hi = insert (new, i) (pspan new (unat ?b) ?hi)"
      using pspan_step[OF Suc.prems(5) ilt, of new] b(1) by simp
    have O': "pspan old (unat i) ?hi = insert (old, i) (pspan old (unat ?b) ?hi)"
      using pspan_step[OF Suc.prems(5) ilt, of old] b(1) by simp
    have sub: "pspan old (unat ?b) ?hi \<subseteq> ?U" "pspan new 0 (unat ?b) \<subseteq> ?U" "pspan new (unat ?b) ?hi \<inter> ?U = {}"
      using Suc.prems(7,8,9) b(1) unfolding C' O' N' by (auto simp: pspan_def)
    have U1: "?U \<union> pspan new (unat ?b) ?hi = U \<union> pspan new (unat i) ?hi" unfolding N' by auto
    have U2: "?U - pspan new 0 (unat ?b) = U - ?C" using ni unfolding C' by auto
    from Suc.IH[OF t(2) Suc.prems(2-4) b(2), unfolded hi, OF Suc.prems(6) sub g(4)[OF Suc.prems(10)] Suc.prems(11), unfolded U1 U2]
    show ?thesis
    proof (elim disjE exE conjE)
      fix u assume u: "uvmcopy_loop n old new ?b t = Ok 0 u" "uvm_inv u R (U \<union> pspan new (unat i) ?hi) X"
        "keeps ?U X t u" "cow_range R (mem t) (mem u) old new (unat ?b) ?hi"
      have "uvmcopy_loop (Suc n) old new i s = Ok 0 u" using body t(1) u(1) by simp
      with u(2) g(1)[OF order_refl _ u(3)] g(2)[OF u(4)] show ?thesis by auto
    next
      fix u q assume u: "uvmcopy_loop n old new ?b t = Ok (- 1) u" "uvm_inv u R (U - ?C) (X(q := X q + 1))"
        "keeps (U - ?C) X t u" "same_pages R new (mem t) (mem u)"
      have "uvmcopy_loop (Suc n) old new i s = Ok (- 1) u" using body t(1) u(1) by simp
      with u(2) g(1)[OF _ order_refl u(3)] g(3)[OF u(4)] show ?thesis by blast
    qed
  qed
qed

end
