(* ===== verification/Vm_copy.thy ===== *)
theory Vm_copy
  imports Vm_cow
begin

text \<open>
  Copying between the kernel and user memory. \<open>uacc m r x\<close>: user code of the address space \<open>r\<close> may
  access the address \<open>x\<close>. The lemmas show that \<open>copyin\<close> returns exactly the bytes user code sees,
  that \<open>copyout\<close> changes exactly the bytes it is asked to change, in one address space, and
  that neither ever panics.
\<close>

definition uacc :: "memory \<Rightarrow> u64 \<Rightarrow> u64 \<Rightarrow> bool" where
  "uacc m r x \<longleftrightarrow> (\<exists>e. vmap m r x = Some e \<and> has e PTE_U)"

lemma uacc_page [simp]: "uacc m r (PGROUNDDOWN x) = uacc m r x"
  by (simp add: uacc_def)

lemma uacc_less: "uacc m r x \<Longrightarrow> x < MAXVA"
  by (auto simp: uacc_def vmap_Some_iff)

lemma uacc_user: "uvm_inv s R U X \<Longrightarrow> r \<in> R \<Longrightarrow> uacc (mem s) r x \<Longrightarrow> (r, PGROUNDDOWN x) \<in> U"
  unfolding uacc_def uvm_inv_def by (elim conjE exE) (rule user_pagesD(2))

lemma walkaddr_user:
  assumes inv: "uvm_inv s R U X" and r: "r \<in> R" and u: "uacc (mem s) r va"
  obtains e where "vmap (mem s) r va = Some e" "has e PTE_U" "walkaddr r va s = Ok (PTE2PA e) s" "PTE2PA e \<noteq> 0"
    "0 < held (mem s) U X (PTE2PA e)"
proof -
  from u obtain e where e: "vmap (mem s) r va = Some e" "has e PTE_U" by (auto simp: uacc_def)
  from walk_mapped[OF uvm_pts[OF inv] r e(1)] obtain p where
    w: "walk r va False s = Ok (slot p (PX 0 va)) s" "slot p (PX 0 va) \<noteq> 0"
      "load64 (mem s) (slot p (PX 0 va)) = e" "has e PTE_V" "va < MAXVA" by metis
  have "(r, PGROUNDDOWN va) \<in> U" by (rule uacc_user[OF inv r u])
  from uvm_user[OF inv this] e(1) have h: "0 < held (mem s) U X (PTE2PA e)" by auto
  have "0 < sym_end (syms s)" using uvm_kmem[OF inv] by (simp add: kmem_inv_def)
  then have "PTE2PA e \<noteq> 0" using uvm_held(1)[OF inv h] by (auto simp: ram_page_def)
  moreover have "walkaddr r va s = Ok (PTE2PA e) s" using w e(2) not_le[of MAXVA va] by (simp add: walkaddr_def)
  ultimately show ?thesis using that e h by blast
qed

lemma walkaddr_none:
  assumes inv: "uvm_inv s R U X" and r: "r \<in> R" and u: "\<not> uacc (mem s) r va"
  shows "walkaddr r va s = Ok 0 s"
proof (cases "va < MAXVA")
  case False
  then show ?thesis by (simp add: walkaddr_def not_less)
next
  case va: True
  show ?thesis
  proof (cases "vmap (mem s) r va")
    case None
    show ?thesis
      by (cases rule: walk_unmapped[OF uvm_pts[OF inv] r va None]) (use va in \<open>auto simp: walkaddr_def not_le\<close>)
  next
    case (Some e)
    with u have "\<not> has e PTE_U" by (simp add: uacc_def)
    moreover from walk_mapped[OF uvm_pts[OF inv] r Some] obtain p where
      "walk r va False s = Ok (slot p (PX 0 va)) s" "load64 (mem s) (slot p (PX 0 va)) = e" by metis
    ultimately show ?thesis using va by (simp add: walkaddr_def not_le)
  qed
qed

section \<open>The part of a range that lies in its first page\<close>

lemma page_part_page:
  assumes "i < page_part va len"
  shows "PGROUNDDOWN (va + of_nat i) = PGROUNDDOWN va"
    and "unat (va + of_nat i - PGROUNDDOWN va) = unat va mod 4096 + i"
proof -
  have i: "unat va mod 4096 + i < 4096" using assms by (auto simp: page_part_def unat_page_offset less_diff_conv add.commute)
  have e: "va + of_nat i - PGROUNDDOWN va = (va - PGROUNDDOWN va) + of_nat i" by simp
  have "unat (of_nat i :: u64) = i" using i by (intro unat_of_nat_u64) simp
  then show u: "unat (va + of_nat i - PGROUNDDOWN va) = unat va mod 4096 + i"
    unfolding e using i by (subst unat_add_u64) (simp_all add: unat_page_offset)
  show "PGROUNDDOWN (va + of_nat i) = PGROUNDDOWN va"
    using page_iff[of "PGROUNDDOWN va" "va + of_nat i"] u i by simp
qed

lemma page_part_next:
  assumes "page_part va len < len"
  shows "va + of_nat (page_part va len) = PGROUNDDOWN va + PGSIZE"
proof -
  have n: "page_part va len = 4096 - unat va mod 4096" using assms by (simp add: page_part_def unat_page_offset)
  have "of_nat (page_part va len) = PGSIZE - (va - PGROUNDDOWN va)"
  proof -
    have "unat (of_nat (page_part va len) :: u64) = page_part va len" by (rule unat_of_nat_u64) (simp add: n)
    moreover have "unat (PGSIZE - (va - PGROUNDDOWN va)) = 4096 - unat va mod 4096"
      using unat_sub[of "va - PGROUNDDOWN va" PGSIZE] by (simp add: word_le_nat_alt unat_page_offset)
    ultimately show ?thesis using n by (simp add: word_unat_eq_iff)
  qed
  then show ?thesis by simp
qed

text \<open>A range is accessible when its first page is and what lies beyond that page is.\<close>

lemma uacc_parts:
  assumes "uacc m r va" and "\<forall>i < k. uacc m r (PGROUNDDOWN va + PGSIZE + of_nat i)" and "k \<le> n - page_part va n"
    and "i < page_part va n + k"
  shows "uacc m r (va + of_nat i)"
proof (cases "i < page_part va n")
  case True
  then show ?thesis using page_part_page(1)[OF True] assms(1) uacc_page[of m r "va + of_nat i"] by simp
next
  case False
  then have i: "i - page_part va n < k" "page_part va n < n" using assms(3,4) by auto
  have "va + of_nat i = PGROUNDDOWN va + PGSIZE + of_nat (i - page_part va n)"
    using page_part_next[OF i(2)] False by (simp add: of_nat_diff algebra_simps)
  then show ?thesis using assms(2) i(1) by simp
qed

section \<open>copyin\<close>

text \<open>\<open>copyin\<close> returns what user code sees at the addresses, and fails exactly at the first it may not access.\<close>

definition ubytes :: "memory \<Rightarrow> u64 \<Rightarrow> u64 \<Rightarrow> nat \<Rightarrow> u8 option list" where
  "ubytes m r va n = map (\<lambda>i. vbyte m r (va + of_nat i)) [0..<n]"

lemma ubytes_append: "ubytes m r va (n + k) = ubytes m r va n @ ubytes m r (va + of_nat n) k"
proof -
  have "[0..<n + k] = [0..<n] @ map (\<lambda>i. n + i) [0..<k]" 
    using upt_add_eq_append[of 0 n k] map_add_upt[of n k] by (simp add: add.commute)
  then show ?thesis by (simp add: ubytes_def add.assoc)
qed

lemma mread_ubytes:
  assumes "vmap (mem s) r va = Some e"
  shows "map Some (mread (mem s) (PTE2PA e + (va - PGROUNDDOWN va)) (page_part va len)) = ubytes (mem s) r va (page_part va len)"
proof (rule nth_equalityI)
  fix i assume "i < length (map Some (mread (mem s) (PTE2PA e + (va - PGROUNDDOWN va)) (page_part va len)))"
  then have i: "i < page_part va len" by simp
  note pp = page_part_page(1)[OF i]
  have "vmap (mem s) r (va + of_nat i) = Some e"
    using assms pp vmap_PGROUNDDOWN[of "mem s" r "va + of_nat i"] vmap_PGROUNDDOWN[of "mem s" r va] by simp
  then have "vbyte (mem s) r (va + of_nat i) = Some (mem s (PTE2PA e + (va + of_nat i - PGROUNDDOWN va)))"
    by (simp add: vbyte_def pp)
  then show "map Some (mread (mem s) (PTE2PA e + (va - PGROUNDDOWN va)) (page_part va len)) ! i
      = ubytes (mem s) r va (page_part va len) ! i"
    using i by (simp add: ubytes_def algebra_simps)
qed (simp add: ubytes_def)

lemma copyin_user:
  assumes inv: "uvm_inv s R U X" and r: "r \<in> R"
  shows "\<exists>res bs. copyin r va len s = Ok (res, bs) s \<and> length bs \<le> len
     \<and> map Some bs = ubytes (mem s) r va (length bs) \<and> (\<forall>i < length bs. uacc (mem s) r (va + of_nat i))
     \<and> (res = 0 \<and> length bs = len \<or> res = - 1 \<and> length bs < len \<and> \<not> uacc (mem s) r (va + of_nat (length bs)))"
proof (induction len arbitrary: va rule: less_induct)
  case (less len)
  show ?case
  proof (cases "len = 0")
    case True
    then show ?thesis by (simp add: copyin.simps ubytes_def)
  next
    case l: False
    show ?thesis
    proof (cases "uacc (mem s) r va")
      case False
      then have "walkaddr r (PGROUNDDOWN va) s = Ok 0 s" by (intro walkaddr_none[OF inv r]) simp
      then show ?thesis using False l by (simp add: copyin.simps[of r va len] ubytes_def)
    next
      case True
      then have "uacc (mem s) r (PGROUNDDOWN va)" by simp
      from walkaddr_user[OF inv r this] obtain e where e: "vmap (mem s) r va = Some e"
        "walkaddr r (PGROUNDDOWN va) s = Ok (PTE2PA e) s" "PTE2PA e \<noteq> 0" by auto
      let ?n = "page_part va len" and ?v = "PGROUNDDOWN va + PGSIZE"
      let ?bs = "mread (mem s) (PTE2PA e + (va - PGROUNDDOWN va)) ?n"
      have n: "0 < ?n" "?n \<le> len" using l by simp_all
      have "len - ?n < len" using n l by (intro diff_less) simp_all
      from less.IH[OF this, of ?v] obtain res bs where
        ih: "copyin r ?v (len - ?n) s = Ok (res, bs) s" "length bs \<le> len - ?n" "map Some bs = ubytes (mem s) r ?v (length bs)"
          "\<forall>i < length bs. uacc (mem s) r (?v + of_nat i)"
          "res = 0 \<and> length bs = len - ?n \<or> res = - 1 \<and> length bs < len - ?n \<and> \<not> uacc (mem s) r (?v + of_nat (length bs))" by blast
      have c: "copyin r va len s = Ok (res, ?bs @ bs) s"
        using l e ih(1) by (subst copyin.simps) (simp add: Let_def)
      have v: "?n < len \<Longrightarrow> va + of_nat ?n = ?v" by (rule page_part_next)
      have ub: "map Some (?bs @ bs) = ubytes (mem s) r va (length (?bs @ bs))"
      proof (cases "?n < len")
        case True
        then show ?thesis using mread_ubytes[OF e(1)] ih(3) v by (simp add: ubytes_append)
      next
        case False
        then have "bs = []" using ih(2) n by simp
        then show ?thesis using mread_ubytes[OF e(1)] by simp
      qed
      have ac: "uacc (mem s) r (va + of_nat i)" if "i < length (?bs @ bs)" for i
        using uacc_parts[OF True ih(4,2)] that by simp
      have "res = 0 \<and> length (?bs @ bs) = len \<or> res = - 1 \<and> length (?bs @ bs) < len
          \<and> \<not> uacc (mem s) r (va + of_nat (length (?bs @ bs)))"
        using ih(5) n v by (auto simp: add.assoc[symmetric])
      moreover have "length (?bs @ bs) \<le> len" using ih(2) n by (simp del: page_part_le)
      ultimately show ?thesis using c ub ac by blast
    qed
  qed
qed

section \<open>copyout\<close>

text \<open>The bytes user code sees after \<open>bs\<close> was stored at \<open>va\<close> in the address space \<open>r\<close>.\<close>

definition upd_bytes :: "(u64 \<times> u64) set \<Rightarrow> u64 \<Rightarrow> u64 \<Rightarrow> u8 list \<Rightarrow> memory \<Rightarrow> memory \<Rightarrow> bool" where
  "upd_bytes U r va bs m m' \<longleftrightarrow> (\<forall>r' x. (r', PGROUNDDOWN x) \<in> U \<longrightarrow>
     vbyte m' r' x = (if r' = r \<and> unat (x - va) < length bs then Some (bs ! unat (x - va)) else vbyte m r' x))"

lemma upd_bytes_Nil [simp]: "upd_bytes U r va [] m m"
  by (simp add: upd_bytes_def)

lemma upd_bytes_append:
  assumes a: "upd_bytes U r va xs m m1" and b: "upd_bytes U r (va + of_nat (length xs)) ys m1 m2"
    and l: "length xs + length ys \<le> 2 ^ 63"
  shows "upd_bytes U r va (xs @ ys) m m2"
  unfolding upd_bytes_def
proof (intro allI impI)
  fix r' x assume u: "(r', PGROUNDDOWN x) \<in> U"
  let ?d = "unat (x - va)" and ?k = "length xs" and ?d2 = "unat (x - (va + of_nat (length xs)))"
  have k: "unat (of_nat ?k :: u64) = ?k" using l by (intro unat_of_nat_u64) simp
  have e: "x - (va + of_nat ?k) = (x - va) - of_nat ?k" by simp
  have ge: "?d2 = ?d - ?k" if "?k \<le> ?d" unfolding e using that k by (subst unat_sub) (simp_all add: word_le_nat_alt)
  have lt: "\<not> ?d2 < length ys" if "?d < ?k"
  proof -
    have "?d2 = 2 ^ 64 + ?d - ?k" unfolding e using that k by (simp add: unat_sub_if')
    then show ?thesis using that l by simp
  qed
  have A: "vbyte m1 r' x = (if r' = r \<and> ?d < ?k then Some (xs ! ?d) else vbyte m r' x)"
    using a u unfolding upd_bytes_def by blast
  have B: "vbyte m2 r' x = (if r' = r \<and> ?d2 < length ys then Some (ys ! ?d2) else vbyte m1 r' x)"
    using b u unfolding upd_bytes_def by blast
  show "vbyte m2 r' x = (if r' = r \<and> ?d < length (xs @ ys) then Some ((xs @ ys) ! ?d) else vbyte m r' x)"
  proof (cases "?d < ?k")
    case True
    then show ?thesis using A B lt by (simp add: nth_append)
  next
    case False
    then show ?thesis using A B ge by (auto simp: nth_append not_less)
  qed
qed

lemma mwrite_page:
  assumes al: "aligned q" and l: "length bs \<le> page_part va len"
  shows "PGROUNDDOWN y \<noteq> q \<Longrightarrow> mwrite m (q + (va - PGROUNDDOWN va)) bs y = m y"
    and "PGROUNDDOWN x = PGROUNDDOWN va \<Longrightarrow> mwrite m (q + (va - PGROUNDDOWN va)) bs (q + (x - PGROUNDDOWN x))
      = (if unat (x - va) < length bs then bs ! unat (x - va) else m (q + (x - PGROUNDDOWN x)))"
proof -
  let ?a = "q + (va - PGROUNDDOWN va)"
  show "mwrite m ?a bs y = m y" if y: "PGROUNDDOWN y \<noteq> q"
  proof (rule ccontr)
    assume "mwrite m ?a bs y \<noteq> m y"
    then have d: "unat (y - ?a) < length bs" by (auto simp: mwrite_def split: if_splits)
    then have i: "unat (y - ?a) < page_part va len" using l by simp
    note pp = page_part_page(2)[OF i]
    have "y - q = va + of_nat (unat (y - ?a)) - PGROUNDDOWN va" by simp
    then have "unat (y - q) = unat va mod 4096 + unat (y - ?a)" using pp by simp
    moreover have "unat va mod 4096 + unat (y - ?a) < 4096" using i by (auto simp: page_part_def unat_page_offset)
    ultimately show False using page_iff[OF al, of y] y by simp
  qed
  show "mwrite m ?a bs (q + (x - PGROUNDDOWN x)) = (if unat (x - va) < length bs then bs ! unat (x - va) else m (q + (x - PGROUNDDOWN x)))"
    if "PGROUNDDOWN x = PGROUNDDOWN va"
  proof -
    have "q + (x - PGROUNDDOWN x) - ?a = x - va" using that by simp
    then show ?thesis by (simp add: mwrite_def)
  qed
qed

text \<open>Copying into one page: the page becomes private, and only the bytes written change.\<close>

lemma copyout_page:
  assumes inv: "uvm_inv s R U X" and r: "r \<in> R" and u: "uacc (mem s) r va" and l: "length bs \<le> page_part va len"
  shows "cowfault r (PGROUNDDOWN va) s = Ok (- 1) s \<and> free_pages s = {}
     \<or> (\<exists>t q t2. cowfault r (PGROUNDDOWN va) s = Ok 0 t \<and> walkaddr r (PGROUNDDOWN va) t = Ok q t \<and> q \<noteq> 0
          \<and> t2 = t\<lparr>mem := mwrite (mem t) (q + (va - PGROUNDDOWN va)) bs\<rparr> \<and> uvm_inv t2 R U X
          \<and> upd_bytes U r va bs (mem s) (mem t2) \<and> (\<forall>r' \<in> R. \<forall>x. uacc (mem t2) r' x = uacc (mem s) r' x))"
proof -
  let ?a = "PGROUNDDOWN va"
  from u obtain e where e: "vmap (mem s) r ?a = Some e" "has e PTE_U" by (auto simp: uacc_def)
  have idem: "PGROUNDDOWN ?a = ?a" by (simp add: PGROUNDDOWN_aligned)
  from cowfault_user[OF inv r e] show ?thesis
  proof (elim disjE exE conjE)
    fix t q assume t: "cowfault r ?a s = Ok 0 t" "uvm_inv t R U X" "keeps (U - {(r, PGROUNDDOWN ?a)}) X s t"
      and q: "q \<in> free_pages s" "owners (mem t) U q = {(r, PGROUNDDOWN ?a)}"
      and v: "\<forall>r' \<in> R. \<forall>x. vmap (mem t) r' x = vset (Some (cow_entry q)) r ?a (vmap (mem s)) r' x"
      and b: "\<forall>x. PGROUNDDOWN x = PGROUNDDOWN ?a \<longrightarrow> vbyte (mem t) r x = vbyte (mem s) r x"
    note ce = cow_entry[OF free_page(1)[OF q(1)]]
    let ?m = "mwrite (mem t) (q + (va - ?a)) bs"
    have am: "?a < MAXVA" using uacc_less[OF u] uacc_less[of "mem s" r ?a] by simp
    have vt: "vmap (mem t) r' x = (if r' = r \<and> PGROUNDDOWN x = ?a then Some (cow_entry q) else vmap (mem s) r' x)"
      if "r' \<in> R" for r' x
    proof -
      have "PGROUNDDOWN x = ?a \<Longrightarrow> x < MAXVA" using am by (metis PGROUNDDOWN_less_MAXVA)
      then show ?thesis using v[rule_format, OF that, of x] unfolding vset_def idem by presburger
    qed
    have wa: "walkaddr r ?a t = Ok q t" "q \<noteq> 0" 
    proof -
      have "uacc (mem t) r ?a" unfolding uacc_def using vt[OF r, of ?a] ce(5) idem by simp
      from walkaddr_user[OF t(2) r this] obtain e' where
        "vmap (mem t) r ?a = Some e'" "walkaddr r ?a t = Ok (PTE2PA e') t" "PTE2PA e' \<noteq> 0" by metis
      then show "walkaddr r ?a t = Ok q t" "q \<noteq> 0" using vt[OF r, of ?a] idem ce(1) by simp_all
    qed
    have h: "0 < held (mem t) U X q" using q(2) by (simp add: held_def)
    have aq: "aligned q" by (rule ram_page_aligned[OF free_page(1)[OF q(1)]])
    note w = mwrite_page[OF aq l]
    have pm: "\<And>x. PGROUNDDOWN x \<noteq> q \<Longrightarrow> ?m x = mem t x" by (rule w(1))
    have uw1: "uvm_inv (t\<lparr>mem := ?m\<rparr>) R U X" by (rule uvm_write(1)[OF t(2) h pm])
    have uw2: "vmap ?m r' x = vmap (mem t) r' x" if "r' \<in> R" for r' x by (rule uvm_write(2)[OF t(2) h pm that])
    have ua: "uacc ?m r' x = uacc (mem s) r' x" if "r' \<in> R" for r' x
    proof (cases "r' = r \<and> PGROUNDDOWN x = ?a")
      case True
      then have "uacc (mem s) r' x" using u by (metis uacc_page)
      then show ?thesis using True uw2[OF that, of x] vt[OF that, of x] ce(5) by (simp add: uacc_def)
    qed (use uw2[OF that, of x] vt[OF that, of x] in \<open>auto simp: uacc_def\<close>)
    have up: "upd_bytes U r va bs (mem s) ?m" unfolding upd_bytes_def
    proof (intro allI impI)
      fix r' x assume x: "(r', PGROUNDDOWN x) \<in> U"
      have r': "r' \<in> R" by (rule uvm_user[OF t(2) x])
      note m = uw2[OF r', of x]
      show "vbyte ?m r' x = (if r' = r \<and> unat (x - va) < length bs then Some (bs ! unat (x - va)) else vbyte (mem s) r' x)"
      proof (cases "r' = r \<and> PGROUNDDOWN x = ?a")
        case True
        then have e': "vmap (mem t) r x = Some (cow_entry q)" using vt[OF r, of x] by simp
        then have "vbyte (mem t) r x = Some (mem t (q + (x - PGROUNDDOWN x)))" using ce(1) by (simp add: vbyte_def)
        then have "vbyte (mem s) r x = Some (mem t (q + (x - PGROUNDDOWN x)))"
          using b[unfolded idem, rule_format, of x] True by simp
        moreover have "vbyte ?m r x = Some (?m (q + (x - PGROUNDDOWN x)))" 
          using m e' True ce(1) unfolding vbyte_def by simp
        ultimately show ?thesis using True w(2)[of x "mem t"] by simp
      next
        case False
        have ne: "\<not> (r' = r \<and> unat (x - va) < length bs)"
        proof
          assume d: "r' = r \<and> unat (x - va) < length bs"
          then have "unat (x - va) < page_part va len" using l by simp
          from page_part_page(1)[OF this] show False using False d by simp
        qed
        have vs: "vmap (mem t) r' x = vmap (mem s) r' x" using vt[OF r', of x] False by simp
        have "vbyte (mem t) r' x = vbyte (mem s) r' x"
          by (rule vbyte_keeps[OF t(3)]) (use x False vs idem in auto)
        moreover have "vbyte ?m r' x = vbyte (mem t) r' x"
        proof (cases "vmap (mem t) r' x")
          case (Some e2)
          have "PTE2PA e2 \<noteq> q"
          proof
            assume "PTE2PA e2 = q"
            then have "(r', PGROUNDDOWN x) \<in> owners (mem t) U q" using x Some by (auto simp: owners_def)
            then show False using q(2) False idem by simp
          qed
          then show ?thesis using m Some pm[of "PTE2PA e2 + (x - PGROUNDDOWN x)"] by (simp add: vbyte_def)
        qed (use m in \<open>simp add: vbyte_def\<close>)
        ultimately show ?thesis using ne by (simp only: if_False)
      qed
    qed
    show ?thesis using t(1) wa uw1 up ua by (intro disjI2, rule_tac x = t in exI, rule_tac x = q in exI, rule_tac x = "t\<lparr>mem := ?m\<rparr>" in exI) simp
  qed simp
qed

text \<open>The whole copy: the bytes stored are a prefix of \<open>src\<close>, and all of it when the copy succeeds.\<close>

lemma copyout_user:
  assumes "uvm_inv s R U X" and r: "r \<in> R" and "length src \<le> 2 ^ 63"
  shows "\<exists>res t k. copyout r va src s = Ok res t \<and> uvm_inv t R U X \<and> k \<le> length src
     \<and> (res = 0 \<and> k = length src \<or> res = - 1 \<and> k < length src \<and> (uacc (mem s) r (va + of_nat k) \<longrightarrow> free_pages t = {}))
     \<and> upd_bytes U r va (take k src) (mem s) (mem t)
     \<and> (\<forall>i < k. uacc (mem s) r (va + of_nat i)) \<and> (\<forall>r' \<in> R. \<forall>x. uacc (mem t) r' x = uacc (mem s) r' x)"
  using assms(1,3)
proof (induction src arbitrary: va s rule: length_induct)
  case (1 src)
  note inv = 1(2) and len = 1(3)
  let ?a = "PGROUNDDOWN va" and ?n = "page_part va (length src)"
  have stop: ?case if "copyout r va src s = Ok (- 1) s" "src \<noteq> []" "uacc (mem s) r va \<longrightarrow> free_pages s = {}"
    using that inv by (intro exI[of _ "- 1"] exI[of _ s] exI[of _ "0 :: nat"]) simp
  show ?case
  proof (cases "src = []")
    case True
    then show ?thesis using inv by (simp add: copyout.simps)
  next
    case ne: False
    show ?thesis
    proof (cases "uacc (mem s) r va")
      case False
      have "cowfault r ?a s = Ok (- 1) s"
        by (rule cowfault_unmapped[OF inv r]) (use False in \<open>simp add: uacc_def\<close>)
      then show ?thesis using ne False by (intro stop) (simp_all add: Let_def copyout.simps[of r va src])
    next
      case True
      then have mx: "\<not> MAXVA < ?a" using PGROUNDDOWN_less_MAXVA[of va] uacc_less[OF True] less_not_sym by blast
      have n: "0 < ?n" "?n \<le> length src" using ne by simp_all
      have lt: "length (take ?n src) \<le> page_part va (length src)" using n by (simp add: min_def)
      from copyout_page[OF inv r True lt] show ?thesis
      proof (elim disjE exE conjE)
        assume "cowfault r ?a s = Ok (- 1) s" "free_pages s = {}"
        then show ?thesis using ne by (intro stop) (simp_all add: Let_def copyout.simps[of r va src])
      next
        fix t q t2
        assume t: "cowfault r ?a s = Ok 0 t" "walkaddr r ?a t = Ok q t" "q \<noteq> 0"
          "t2 = t\<lparr>mem := mwrite (mem t) (q + (va - ?a)) (take ?n src)\<rparr>"
          and t2: "uvm_inv t2 R U X" "upd_bytes U r va (take ?n src) (mem s) (mem t2)"
            "\<forall>r' \<in> R. \<forall>x. uacc (mem t2) r' x = uacc (mem s) r' x"
        let ?v = "?a + PGSIZE" and ?src = "drop ?n src"
        have c: "copyout r va src s = copyout r ?v ?src t2"
          using ne mx t by (subst copyout.simps) (simp add: Let_def)
        have l: "length ?src < length src" "length ?src \<le> 2 ^ 63" using n ne len by auto
        from 1(1)[rule_format, OF l(1) t2(1) l(2), of ?v] obtain res t' k where ih: "copyout r ?v ?src t2 = Ok res t'" "uvm_inv t' R U X" "k \<le> length ?src"
          "res = 0 \<and> k = length ?src \<or> res = - 1 \<and> k < length ?src \<and> (uacc (mem t2) r (?v + of_nat k) \<longrightarrow> free_pages t' = {})"
          "upd_bytes U r ?v (take k ?src) (mem t2) (mem t')"
          "\<forall>i < k. uacc (mem t2) r (?v + of_nat i)" "\<forall>r' \<in> R. \<forall>x. uacc (mem t') r' x = uacc (mem t2) r' x" by blast
        have v: "?n < length src \<Longrightarrow> va + of_nat ?n = ?v" by (rule page_part_next)
        have tk: "take (?n + k) src = take ?n src @ take k ?src" by (simp add: take_add)
        have u: "upd_bytes U r va (take (?n + k) src) (mem s) (mem t')"
        proof (cases "?n < length src")
          case True
          have "length (take ?n src) = ?n" using n by simp
          with True ih(5) len show ?thesis unfolding tk by (intro upd_bytes_append[OF t2(2)]) (simp_all add: v)
        next
          case False
          then have "k = 0" using ih(3) n by simp
          with ih(5) t2(2) show ?thesis by (simp add: upd_bytes_def)
        qed
        have ac: "\<forall>i < ?n + k. uacc (mem s) r (va + of_nat i)"
        proof (intro allI impI)
          fix i assume i: "i < ?n + k"
          show "uacc (mem s) r (va + of_nat i)"
          proof (cases "i < ?n")
            case True
            from page_part_page(1)[OF this] \<open>uacc (mem s) r va\<close> show ?thesis by (metis uacc_page)
          next
            case False
            then have "i - ?n < k" "?n < length src" using i ih(3) by auto
            moreover have "va + of_nat i = ?v + of_nat (i - ?n)"
              using v[OF \<open>?n < length src\<close>] False by (simp add: of_nat_diff algebra_simps)
            ultimately show ?thesis using ih(6) t2(3) r by simp
          qed
        qed
        have "res = 0 \<and> ?n + k = length src \<or> res = - 1 \<and> ?n + k < length src
            \<and> (uacc (mem s) r (va + of_nat (?n + k)) \<longrightarrow> free_pages t' = {})"
          using ih(4) n v t2(3) r by (auto simp: add.assoc[symmetric])
        then show ?thesis using c ih(1,2,3,7) n u ac t2(3)
          by (intro exI[of _ res] exI[of _ t'] exI[of _ "?n + k"]) auto
      qed
    qed
  qed
qed

text \<open>What was copied out is what is copied in.\<close>

lemma copyout_copyin:
  assumes inv: "uvm_inv s R U X" and r: "r \<in> R" and l: "length src \<le> 2 ^ 63" and c: "copyout r va src s = Ok 0 t"
  shows "copyin r va (length src) t = Ok (0, src) t"
proof -
  from copyout_user[OF inv r l, of va] c have t: "uvm_inv t R U X" "upd_bytes U r va src (mem s) (mem t)"
    "\<forall>i < length src. uacc (mem s) r (va + of_nat i)" "\<forall>r' \<in> R. \<forall>x. uacc (mem t) r' x = uacc (mem s) r' x" by auto
  have u: "uacc (mem t) r (va + of_nat i)" if "i < length src" for i using t(3,4) r that by blast
  have b: "vbyte (mem t) r (va + of_nat i) = Some (src ! i)" if i: "i < length src" for i
  proof -
    have "unat (of_nat i :: u64) = i" using i l by (intro unat_of_nat_u64) simp
    moreover have "(r, PGROUNDDOWN (va + of_nat i)) \<in> U" by (rule uacc_user[OF t(1) r u[OF i]])
    ultimately show ?thesis using t(2) i unfolding upd_bytes_def by simp
  qed
  from copyin_user[OF t(1) r, of va "length src"] obtain res bs where
    ci: "copyin r va (length src) t = Ok (res, bs) t" "map Some bs = ubytes (mem t) r va (length bs)"
      "res = 0 \<and> length bs = length src \<or> res = - 1 \<and> length bs < length src \<and> \<not> uacc (mem t) r (va + of_nat (length bs))"
    by blast
  from ci(3) u have l: "res = 0" "length bs = length src" by auto
  have "map Some bs = map Some src"
    unfolding ci(2) l(2) by (rule nth_equalityI) (simp_all add: ubytes_def b)
  then show ?thesis using ci(1) l(1) by (simp add: inj_map_eq_map)
qed

section \<open>copyinstr\<close>

lemma copy_until_nul:
  assumes "copy_until_nul xs = (bs, g)"
  shows "g \<Longrightarrow> \<exists>ys. bs = ys @ [0] \<and> 0 \<notin> set ys \<and> (\<exists>zs. xs = bs @ zs)" and "\<not> g \<Longrightarrow> bs = xs \<and> 0 \<notin> set xs"
  using assms by (induction xs arbitrary: bs) (fastforce split: if_splits prod.splits)+

lemma ubytes_take: "k \<le> n \<Longrightarrow> take k (ubytes m r va n) = ubytes m r va k"
  by (simp add: ubytes_def take_map)

lemma copyinstr_user:
  assumes inv: "uvm_inv s R U X" and r: "r \<in> R"
  shows "\<exists>res bs. copyinstr r va n s = Ok (res, bs) s \<and> length bs \<le> n \<and> map Some bs = ubytes (mem s) r va (length bs)
     \<and> (\<forall>i < length bs. uacc (mem s) r (va + of_nat i))
     \<and> (res = 0 \<and> (\<exists>ys. bs = ys @ [0] \<and> 0 \<notin> set ys)
        \<or> res = - 1 \<and> 0 \<notin> set bs \<and> (length bs < n \<longrightarrow> \<not> uacc (mem s) r (va + of_nat (length bs))))"
proof (induction n arbitrary: va rule: less_induct)
  case (less n)
  show ?case
  proof (cases "n = 0")
    case True
    then show ?thesis by (simp add: copyinstr.simps ubytes_def)
  next
    case l: False
    show ?thesis
    proof (cases "uacc (mem s) r va")
      case False
      then have "walkaddr r (PGROUNDDOWN va) s = Ok 0 s" by (intro walkaddr_none[OF inv r]) simp
      then show ?thesis using False l by (simp add: copyinstr.simps[of r va n] ubytes_def)
    next
      case True
      then have "uacc (mem s) r (PGROUNDDOWN va)" by simp
      from walkaddr_user[OF inv r this] obtain e where e: "vmap (mem s) r va = Some e"
        "walkaddr r (PGROUNDDOWN va) s = Ok (PTE2PA e) s" "PTE2PA e \<noteq> 0" by auto
      let ?n = "page_part va n" and ?v = "PGROUNDDOWN va + PGSIZE"
      let ?xs = "mread (mem s) (PTE2PA e + (va - PGROUNDDOWN va)) ?n"
      have n: "0 < ?n" "?n \<le> n" using l by simp_all
      obtain bs g where cu: "copy_until_nul ?xs = (bs, g)" by (cases "copy_until_nul ?xs") blast
      note ub = mread_ubytes[OF e(1), of n]
      show ?thesis
      proof (cases g)
        case g: True
        from copy_until_nul(1)[OF cu g] obtain ys zs where y: "bs = ys @ [0]" "0 \<notin> set ys" "?xs = bs @ zs" by blast
        have "length ?xs = length bs + length zs" unfolding y(3) by simp
        then have le: "length bs \<le> ?n" by simp
        have "map Some bs = take (length bs) (map Some ?xs)" using y(3) by simp
        then have "map Some bs = ubytes (mem s) r va (length bs)" using le by (simp only: ub ubytes_take)
        moreover have "copyinstr r va n s = Ok (0, bs) s" using l e cu g by (subst copyinstr.simps) (simp add: Let_def)
        moreover have "length bs \<le> n" using le n by linarith
        moreover have "\<forall>i < length bs. uacc (mem s) r (va + of_nat i)" using uacc_parts[OF True, of 0 n] le by auto
        ultimately show ?thesis using y(1,2) by blast
      next
        case g: False
        note nz = copy_until_nul(2)[OF cu g]
        have "n - ?n < n" using n l by (intro diff_less) simp_all
        from less.IH[OF this, of ?v] obtain res rs where
          ih: "copyinstr r ?v (n - ?n) s = Ok (res, rs) s" "length rs \<le> n - ?n" "map Some rs = ubytes (mem s) r ?v (length rs)"
            "\<forall>i < length rs. uacc (mem s) r (?v + of_nat i)" "res = 0 \<and> (\<exists>ys. rs = ys @ [0] \<and> 0 \<notin> set ys)
              \<or> res = - 1 \<and> 0 \<notin> set rs \<and> (length rs < n - ?n \<longrightarrow> \<not> uacc (mem s) r (?v + of_nat (length rs)))" by blast
        have c: "copyinstr r va n s = Ok (res, ?xs @ rs) s"
          using l e cu g nz ih(1) by (subst copyinstr.simps) (simp add: Let_def)
        have v: "?n < n \<Longrightarrow> va + of_nat ?n = ?v" by (rule page_part_next)
        have u: "map Some (?xs @ rs) = ubytes (mem s) r va (length (?xs @ rs))"
        proof (cases "?n < n")
          case True
          then show ?thesis using ub ih(3) v by (simp add: ubytes_append)
        next
          case False
          then have "rs = []" using ih(2) n by simp
          then show ?thesis using ub by simp
        qed
        have "res = 0 \<and> (\<exists>ys. ?xs @ rs = ys @ [0] \<and> 0 \<notin> set ys) \<or> res = - 1 \<and> 0 \<notin> set (?xs @ rs)
            \<and> (length (?xs @ rs) < n \<longrightarrow> \<not> uacc (mem s) r (va + of_nat (length (?xs @ rs))))"
          using ih(5)
        proof (elim disjE exE conjE)
          fix ys assume "rs = ys @ [0]" "0 \<notin> set ys" "res = 0"
          then show ?thesis using nz by (intro disjI1) (auto intro: exI[of _ "?xs @ ys"])
        next
          assume "res = - 1" "0 \<notin> set rs" "length rs < n - ?n \<longrightarrow> \<not> uacc (mem s) r (?v + of_nat (length rs))"
          then show ?thesis using nz v by (auto simp: add.assoc[symmetric])
        qed
        moreover have "length (?xs @ rs) \<le> n" using ih(2) n by (simp del: page_part_le)
        moreover have "\<forall>i < length (?xs @ rs). uacc (mem s) r (va + of_nat i)" using uacc_parts[OF True ih(4,2)] by simp
        ultimately show ?thesis using c u by blast
      qed
    qed
  qed
qed

end
