(* ===== verification/Vm_spec.thy ===== *)
theory Vm_spec
  imports Vm_copy
begin

text \<open>
  The contracts of the virtual memory component: growing and shrinking a process, sharing its pages
  on fork, the private copy a write fault makes, and the copies between the kernel and user memory.
  The states of the examples are reached by booting the page allocator and creating address spaces.
\<close>

section \<open>Creating an address space\<close>

lemma uvmcreate_user:
  assumes inv: "uvm_inv s R U X"
  obtains (full) "uvmcreate s = Ok 0 s" "free_pages s = {}"
  | (new) q where "q \<in> free_pages s" "q \<noteq> 0" "uvmcreate s = Ok q (blank q s)" "uvm_inv (blank q s) (insert q R) U X"
      "q \<notin> R" "keeps U X s (blank q s)" "\<And>a. vmap (mem (blank q s)) q a = None"
      "\<And>r a. r \<in> R \<Longrightarrow> vmap (mem (blank q s)) r a = vmap (mem s) r a"
  using uvm_pts[OF inv]
proof (cases rule: uvmcreate_cases)
  case full
  then show ?thesis by (rule that(1))
next
  case (new q)
  have al: "aligned q" by (rule free_page(2)[OF new(1)])
  have h0: "held (mem s) U X q = 0" by (rule free_not_held(1)[OF inv new(1)])
  have v: "vmap (mem (blank q s)) r a = vmap (mem s) r a" if "(r, a) \<in> U" for r a
    using uvm_user[OF inv that] new(7) by metis
  have h: "held (mem (blank q s)) U X p = held (mem s) U X p" for p by (rule held_cong) (rule v)
  have u: "user_pages (mem s) R U" using inv by (simp add: uvm_inv_def)
  have "user_pages (mem (blank q s)) (insert q R) U"
    unfolding user_pages_def
  proof (intro conjI ballI allI impI)
    fix x assume "x \<in> U"
    then show "case x of (r, a) \<Rightarrow> r \<in> insert q R \<and> aligned a \<and> a < MAXVA
        \<and> (\<exists>e. vmap (mem (blank q s)) r a = Some e \<and> has e PTE_R)"
      using user_pagesD(1)[OF u] v by (cases x) auto
  next
    fix r a e assume r: "r \<in> insert q R" and e: "vmap (mem (blank q s)) r a = Some e \<and> has e PTE_U"
    then have "r \<in> R" using new(6) by auto
    then show "(r, PGROUNDDOWN a) \<in> U" using user_pagesD(2)[OF u] new(7) e by metis
  qed
  moreover have "ram_page (blank q s) p \<and> p \<notin> tables (mem (blank q s)) (insert q R)
      \<and> sint (refcnt (blank q s) (page_number p)) = int (held (mem (blank q s)) U X p)"
    if "0 < held (mem (blank q s)) U X p" for p
  proof -
    have p: "0 < held (mem s) U X p" using that h by simp
    note hp = uvm_held[OF inv p]
    have ne: "p \<noteq> q" using p h0 by auto
    then have "page_number p \<noteq> page_number q"
      using page_number_inj[OF ram_page_aligned[OF hp(1)] al] by simp
    moreover have "ram_page (blank q s) p" using hp(1) ram_page_syms[of "blank q s" s p] by simp
    ultimately show ?thesis using hp new(8) ne h by simp
  qed
  ultimately have "uvm_inv (blank q s) (insert q R) U X" using new(4) by (simp add: uvm_inv_def)
  moreover have "keeps U X s (blank q s)" using h0 by (auto simp: keeps_def blank_mem[OF al])
  ultimately show ?thesis using new by (intro that(2)[of q]) simp_all
qed

lemma uvm_boot: "kmem_inv s \<Longrightarrow> uvm_inv s {} {} (\<lambda>_. 0)"
  by (simp add: uvm_inv_def pts_inv_def tables_def tnode_inj_def user_pages_def held_def owners_def)

text \<open>Two address spaces after booting: the first has one page, the second is empty.\<close>

lemma demo_spaces:
  "\<exists>(s :: kmem) r n. r \<noteq> n \<and> uvm_inv s {r, n} {(r, 0)} (\<lambda>_. 0) \<and> uacc (mem s) r 0
     \<and> (\<forall>x. 4096 \<le> unat x \<longrightarrow> vmap (mem s) r x = None) \<and> (\<forall>x. vmap (mem s) n x = None) \<and> 4 \<le> card (free_pages s)
     \<and> vbyte (mem s) r 0 = Some 0"
proof -
  let ?P = "(\<lambda>i. 0x80022000 + of_nat i * 4096 :: u64) ` {..<10}"
  obtain s0 :: kmem where s0: "kmem_inv s0" "free_pages s0 = {p. aligned p \<and> sym_end demo_linker \<le> p \<and> p < PHYSTOP}"
    using booted_memory[of demo_linker "()"] by (auto simp: demo_linker_def)
  have "?P \<subseteq> free_pages s0" unfolding s0(2) by (auto simp: demo_linker_def aligned_def lessThan_nat_numeral lessThan_Suc)
  moreover have "card ?P = 10" by (simp add: lessThan_nat_numeral lessThan_Suc)
  ultimately have c0: "10 \<le> card (free_pages s0)" using card_mono[OF finite] by metis
  obtain r where r: "r \<in> free_pages s0" "uvm_inv (blank r s0) {r} {} (\<lambda>_. 0)" "\<And>a. vmap (mem (blank r s0)) r a = None"
    by (cases rule: uvmcreate_user[OF uvm_boot[OF s0(1)]]) (use c0 in auto)
  let ?s1 = "blank r s0"
  have c1: "9 \<le> card (free_pages ?s1)" using c0 r(1) by (simp add: blank_free[OF r(1)])
  obtain n where n: "n \<in> free_pages ?s1" "uvm_inv (blank n ?s1) {n, r} {} (\<lambda>_. 0)" "n \<noteq> r"
    "\<And>a. vmap (mem (blank n ?s1)) n a = None" "\<And>a. vmap (mem (blank n ?s1)) r a = None"
    by (cases rule: uvmcreate_user[OF r(2)]) (use c1 r(3) in auto)
  let ?s2 = "blank n ?s1" and ?perm = "PTE_R OR PTE_U OR PTE_W"
  have c2: "8 \<le> card (free_pages ?s2)" using c1 n(1) by (simp add: blank_free[OF n(1)])
  have pm: "unat ?perm < 2 ^ 10" "bit ?perm 1" "aligned 0" "(0 :: u64) < MAXVA" "r \<in> {n, r}" "(r, 0) \<notin> {}"
    by (simp_all add: aligned_def bit_or_iff)
  have "\<exists>q (t :: kmem). uvm_inv t {n, r} {(r, 0)} (\<lambda>_. 0) \<and> card (free_pages ?s2) \<le> card (free_pages t) + 3
      \<and> (\<forall>r' \<in> {n, r}. \<forall>y. vmap (mem t) r' y = vset (Some (PA2PTE q OR ?perm OR PTE_V)) r 0 (vmap (mem ?s2)) r' y)
      \<and> vbyte (mem t) r 0 = Some 0"
    using alloc_user_page[OF n(2) pm(5,3,4,6) n(5) pm(1,2)]
  proof (elim disjE exE conjE)
    assume "free_pages ?s2 = {}"
    with c2 show ?thesis by simp
  next
    assume "card (free_pages ?s2) \<le> 3"
    with c2 show ?thesis by simp
  next
    fix q and t :: kmem assume t: "uvm_inv t {n, r} (insert (r, 0) {}) (\<lambda>_. 0)" "card (free_pages ?s2) \<le> card (free_pages t) + 3"
      "\<forall>r' \<in> {n, r}. \<forall>y. vmap (mem t) r' y = vset (Some (PA2PTE q OR ?perm OR PTE_V)) r 0 (vmap (mem ?s2)) r' y"
      "\<forall>y. PGROUNDDOWN y = 0 \<longrightarrow> fresh_zero (mem t) r y (?perm OR PTE_V)"
    have "vbyte (mem t) r 0 = Some 0" using t(4) by (simp add: PGROUNDDOWN_aligned[OF pm(3)] fresh_zero_def)
    with t(1-3) show ?thesis by blast
  qed
  then obtain q and t :: kmem where
    t: "uvm_inv t {n, r} {(r, 0)} (\<lambda>_. 0)" "card (free_pages ?s2) \<le> card (free_pages t) + 3"
      "\<forall>r' \<in> {n, r}. \<forall>y. vmap (mem t) r' y = vset (Some (PA2PTE q OR ?perm OR PTE_V)) r 0 (vmap (mem ?s2)) r' y"
      "vbyte (mem t) r 0 = Some 0" by blast
  have v: "vmap (mem t) r' y = (if r' = r \<and> PGROUNDDOWN y = 0 then Some (PA2PTE q OR ?perm OR PTE_V) else None)"
    if "r' \<in> {n, r}" for r' y
    using t(3)[rule_format, OF that, of y] n(4,5) that vset_in[of 0] by (auto simp: aligned_def)
  have "PGROUNDDOWN x \<noteq> 0" if "4096 \<le> unat x" for x :: u64
    using page_range[of 0 x] that by (auto simp: aligned_def)
  then have "\<forall>x. 4096 \<le> unat x \<longrightarrow> vmap (mem t) r x = None" using v by simp
  moreover have "uacc (mem t) r 0" using v[of r 0] by (simp add: uacc_def PGROUNDDOWN_aligned aligned_def bit_or_iff)
  moreover have "\<forall>x. vmap (mem t) n x = None" using v[of n] n(3) by simp
  moreover have "4 \<le> card (free_pages t)" using t(2) c2 by linarith
  ultimately show ?thesis using t(1,4) n(3) by (intro exI[of _ t] exI[of _ r] exI[of _ n]) (auto simp: insert_commute)
qed

section \<open>Properties of the virtual memory component\<close>

text \<open>C9: \<open>uvmalloc\<close> grows a process by the pages between two sizes. Either every new address is
  mapped to a zeroed page of its own with the permissions asked for, and no other mapping of any address
  space changed; or it returns 0 with every mapping as before, which happens only when memory is nearly exhausted. Either
  way no page is leaked: each page that left the free list is a page table or a mapped page, so that after
  a failure every page that had been taken for the process is free again, and no page of unknown owner was
  freed. The contents of pages in use never change.\<close>

theorem uvmalloc_grows_or_restores:
  assumes "uvm_inv s R U X" and "r \<in> R" and "oldsz \<le> newsz" and "unat newsz \<le> 2 ^ 38"
    and "pspan r (pup oldsz) (pup newsz) \<inter> U = {}" and "unmapped_range (mem s) r (pup oldsz) (pup newsz)"
    and "unat xperm < 2 ^ 10"
  shows "(\<exists>t. uvmalloc r oldsz newsz xperm s = Ok newsz t
         \<and> uvm_inv t R (U \<union> pspan r (pup oldsz) (pup newsz)) X \<and> keeps U X s t
         \<and> zero_range (mem t) r (pup oldsz) (pup newsz) (PTE_R OR PTE_U OR xperm OR PTE_V)
         \<and> same_outside R r (pup oldsz) (pup newsz) (mem s) (mem t)
         \<and> lost t R (U \<union> pspan r (pup oldsz) (pup newsz)) X = lost s R U X)
     \<or> (\<exists>t. uvmalloc r oldsz newsz xperm s = Ok 0 t \<and> uvm_inv t R U X \<and> keeps U X s t \<and> same_maps R s t
         \<and> lost t R U X = lost s R U X \<and> 4096 * card (free_pages s) \<le> 3 * (pup newsz - pup oldsz))"
  using assms by (rule uvmalloc_user)

theorem uvmalloc_grows_or_restores_witness:
  "\<exists>(s :: kmem) r t. uvmalloc r 4096 8192 PTE_W s = Ok 8192 t \<and> vbyte (mem t) r 5000 = Some 0"
proof -
  obtain s :: kmem and r n where s: "uvm_inv s {r, n} {(r, 0)} (\<lambda>_. 0)" "4 \<le> card (free_pages s)"
    "\<forall>x. 4096 \<le> unat x \<longrightarrow> vmap (mem s) r x = None" using demo_spaces by blast
  have p: "pup 4096 = 4096" "pup 8192 = 8192" by (simp_all add: pup_def)
  have "pspan r (pup 4096) (pup 8192) \<inter> {(r, 0)} = {}" "unmapped_range (mem s) r (pup 4096) (pup 8192)"
    using s(3) by (auto simp: pspan_def p unmapped_range_def)
  from uvmalloc_grows_or_restores[OF s(1) _ _ _ this, of PTE_W] s(2) obtain t where
    t: "uvmalloc r 4096 8192 PTE_W s = Ok 8192 t" "zero_range (mem t) r 4096 8192 (PTE_R OR PTE_U OR PTE_W OR PTE_V)"
    by (auto simp: p)
  then have "vbyte (mem t) r 5000 = Some 0" by (simp add: zero_range_def fresh_zero_def)
  with t show ?thesis by blast
qed

text \<open>C10: \<open>uvmdealloc\<close> returns, removes exactly the pages between the two sizes, drops one
  reference of each, frees those whose last reference it was, and leaves every other mapping and the contents of
  every page still in use alone.\<close>

theorem uvmdealloc_shrinks:
  assumes "uvm_inv s R U X" and "unat oldsz \<le> 2 ^ 38" and "pspan r (pup newsz) (pup oldsz) \<subseteq> U"
  shows "\<exists>t. uvmdealloc r oldsz newsz s = Ok (if newsz \<ge> oldsz then oldsz else newsz) t
     \<and> uvm_inv t R (U - pspan r (pup newsz) (pup oldsz)) X \<and> keeps (U - pspan r (pup newsz) (pup oldsz)) X s t
     \<and> free_pages s \<subseteq> free_pages t
     \<and> (\<forall>r' \<in> R. \<forall>x. vmap (mem t) r' x = cleared r (pup newsz) (pup oldsz) (vmap (mem s)) r' x)
     \<and> lost t R (U - pspan r (pup newsz) (pup oldsz)) X = lost s R U X"
  using assms by (rule uvmdealloc_user)

lemma first_page: "pspan r 0 4096 = {(r, 0)}"
  by (auto simp: pspan_def aligned_def word_unat_eq_iff elim!: alignedE[unfolded aligned_def])

theorem uvmdealloc_shrinks_witness:
  "\<exists>(s :: kmem) r t. uacc (mem s) r 0 \<and> uvmdealloc r 100 0 s = Ok 0 t \<and> \<not> uacc (mem t) r 0"
proof -
  obtain s :: kmem and r n where s: "uvm_inv s {r, n} {(r, 0)} (\<lambda>_. 0)" "uacc (mem s) r 0" using demo_spaces by blast
  have p: "pup 100 = 4096" "pup 0 = 0" by (simp_all add: pup_def)
  have "pspan r (pup 0) (pup 100) \<subseteq> {(r, 0)}" by (simp add: p first_page)
  from uvmdealloc_shrinks[OF s(1) _ this] obtain t where "uvmdealloc r 100 0 s = Ok 0 t"
    "vmap (mem t) r 0 = cleared r 0 4096 (vmap (mem s)) r 0" by (auto simp: p)
  then show ?thesis using s(2) by (intro exI[of _ s] exI[of _ r] exI[of _ t]) (simp add: uacc_def cleared_def)
qed

text \<open>C7: \<open>uvmcopy\<close> shares every page of the parent with the child: on success both map each address
  below the size to the same page, neither may write it, the counters account for the new references, and no
  other mapping changed. When it fails the child maps nothing and the parent still maps the same pages, but
  the reference the failing page was given for the child is never dropped: one page stays referenced.\<close>

theorem uvmcopy_shares_pages:
  assumes inv: "uvm_inv s R U X" and R: "old \<in> R" "new \<in> R" "old \<noteq> new" and sz: "unat sz \<le> 2 ^ 38"
    and U: "pspan old 0 (pup sz) \<subseteq> U" "\<And>a. (new, a) \<notin> U" and un: "unmapped_range (mem s) new 0 (pup sz)"
    and X: "\<forall>p. X p < 2 ^ 30 - 1"
  shows "(\<exists>t. uvmcopy old new sz s = Ok 0 t \<and> uvm_inv t R (U \<union> pspan new 0 (pup sz)) X
         \<and> keeps U X s t \<and> cow_range R (mem s) (mem t) old new 0 (pup sz))
     \<or> (\<exists>t p. uvmcopy old new sz s = Ok (- 1) t \<and> uvm_inv t R U (X(p := X p + 1))
         \<and> keeps U X s t \<and> same_pages R new (mem s) (mem t))"
proof -
  let ?n = "(unat sz + (PGSIZE_nat - 1)) div PGSIZE_nat"
  have n: "4096 * ?n = pup sz" by (simp add: pup_def)
  have e: "U - pspan new 0 0 = U" by simp
  have d: "pspan new 0 (pup sz) \<inter> U = {}" using U(2) by (auto simp: pspan_def)
  have a: "aligned (0 :: u64)" by (simp add: aligned_def)
  have b: "pup sz \<le> 2 ^ 38" by (rule pup_bound[OF sz])
  show ?thesis
    using uvmcopy_loop_user[OF inv R a, of ?n, unfolded unat_0 add_0 n, OF b U(1) _ d un X] e by (simp add: uvmcopy_def)
qed

theorem uvmcopy_shares_pages_witness:
  "\<exists>(s :: kmem) r n. (\<exists>t. uvmcopy r n 4096 s = Ok 0 t \<and> map_option PTE2PA (vmap (mem t) n 0) = map_option PTE2PA (vmap (mem s) r 0))
     \<or> (\<exists>t p. uvmcopy r n 4096 s = Ok (- 1) t \<and> uvm_inv t {r, n} {(r, 0)} ((\<lambda>_. 0)(p := 1)))"
proof -
  obtain s :: kmem and r n where s: "r \<noteq> n" "uvm_inv s {r, n} {(r, 0)} (\<lambda>_. 0)" "\<forall>x. vmap (mem s) n x = None"
    using demo_spaces by blast
  have p: "pup 4096 = 4096" by (simp add: pup_def)
  have "pspan r 0 (pup 4096) \<subseteq> {(r, 0)}" "\<And>a. (n, a) \<notin> {(r, 0)}" "unmapped_range (mem s) n 0 (pup 4096)"
    using s by (auto simp: p first_page unmapped_range_def)
  from uvmcopy_shares_pages[OF s(2) _ _ s(1) _ this] have "(\<exists>t. uvmcopy r n 4096 s = Ok 0 t \<and> cow_range {r, n} (mem s) (mem t) r n 0 4096)
     \<or> (\<exists>t p. uvmcopy r n 4096 s = Ok (- 1) t \<and> uvm_inv t {r, n} {(r, 0)} ((\<lambda>_. 0)(p := 1)))" by (auto simp: p)
  then show ?thesis
  proof (elim disjE exE conjE)
    fix t assume t: "uvmcopy r n 4096 s = Ok 0 t" "cow_range {r, n} (mem s) (mem t) r n 0 4096"
    from t(2) obtain e eo en where "vmap (mem s) r 0 = Some e" "vmap (mem t) n 0 = Some en" "cow_pair e eo en"
      unfolding cow_range_def by (metis order_refl unat_0 zero_less_numeral)
    then show ?thesis using t(1) by (intro exI[of _ s] exI[of _ r] exI[of _ n]) (auto simp: cow_pair_def)
  qed blast
qed



text \<open>C12: \<open>copyin\<close> returns for every address and length, changes nothing, and copies exactly the bytes
  user code sees there. It fails precisely when it meets an address user code may not access, after copying
  the bytes before it.\<close>

theorem copyin_reads_user_bytes:
  assumes "uvm_inv s R U X" and "r \<in> R"
  shows "\<exists>res bs. copyin r va len s = Ok (res, bs) s \<and> length bs \<le> len
     \<and> map Some bs = ubytes (mem s) r va (length bs) \<and> (\<forall>i < length bs. uacc (mem s) r (va + of_nat i))
     \<and> (res = 0 \<and> length bs = len \<or> res = - 1 \<and> length bs < len \<and> \<not> uacc (mem s) r (va + of_nat (length bs)))"
  using assms by (rule copyin_user)

theorem copyin_reads_user_bytes_witness:
  "\<exists>(s :: kmem) r bs. copyin r 4000 200 s = Ok (- 1, bs) s \<and> length bs < 200"
proof -
  obtain s :: kmem and r n where s: "uvm_inv s {r, n} {(r, 0)} (\<lambda>_. 0)" "\<forall>x. 4096 \<le> unat x \<longrightarrow> vmap (mem s) r x = None"
    using demo_spaces by blast
  have no: "\<not> uacc (mem s) r (4000 + of_nat 100)" using s(2) by (simp add: uacc_def)
  from copyin_reads_user_bytes[OF s(1) insertI1, of 4000 200] obtain res bs where
    c: "copyin r 4000 200 s = Ok (res, bs) s" "\<forall>i < length bs. uacc (mem s) r (4000 + of_nat i)"
      "res = 0 \<and> length bs = 200 \<or> res = - 1 \<and> length bs < 200" by blast
  have "\<not> 100 < length bs" using c(2) no by blast
  then have "res = - 1 \<and> length bs < 200" using c(3) by linarith
  then show ?thesis using c(1) by blast
qed

text \<open>C11: \<open>copyout\<close> returns for every address and buffer and never panics. The bytes user code sees
  change exactly at the addresses written, in the one address space, even where a page was shared
  copy-on-write; no address becomes accessible or inaccessible. It stops early only at an address user code
  may not access or when a shared page cannot be copied for lack of memory.\<close>

theorem copyout_isolated:
  assumes "uvm_inv s R U X" and "r \<in> R" and "length src \<le> 2 ^ 63"
  shows "\<exists>res t k. copyout r va src s = Ok res t \<and> uvm_inv t R U X \<and> k \<le> length src
     \<and> (res = 0 \<and> k = length src \<or> res = - 1 \<and> k < length src \<and> (uacc (mem s) r (va + of_nat k) \<longrightarrow> free_pages t = {}))
     \<and> upd_bytes U r va (take k src) (mem s) (mem t)
     \<and> (\<forall>i < k. uacc (mem s) r (va + of_nat i)) \<and> (\<forall>r' \<in> R. \<forall>x. uacc (mem t) r' x = uacc (mem s) r' x)"
  using assms by (rule copyout_user)

theorem copyout_isolated_witness:
  "\<exists>(s :: kmem) r res t. copyout r 4094 [1, 2, 3, 4] s = Ok res t \<and> res = - 1"
proof -
  obtain s :: kmem and r n where s: "uvm_inv s {r, n} {(r, 0)} (\<lambda>_. 0)" "\<forall>x. 4096 \<le> unat x \<longrightarrow> vmap (mem s) r x = None"
    using demo_spaces by blast
  have no: "\<not> uacc (mem s) r (4094 + of_nat 2)" using s(2) by (simp add: uacc_def)
  have "length [1, 2, 3, 4 :: u8] \<le> 2 ^ 63" by simp
  from copyout_isolated[OF s(1) insertI1 this, of 4094] obtain res t k where
    c: "copyout r 4094 [1, 2, 3, 4] s = Ok res t" "\<forall>i < k. uacc (mem s) r (4094 + of_nat i)"
      "res = 0 \<and> k = length [1, 2, 3, 4 :: u8] \<or> res = - 1" by blast
  have "\<not> 2 < k" using c(2) no by blast
  then show ?thesis using c(1,3) by auto
qed

text \<open>C13: a buffer that was copied out to user memory is what a following copy in reads back.\<close>

theorem copyout_copyin_roundtrip:
  assumes "uvm_inv s R U X" and "r \<in> R" and "length src \<le> 2 ^ 63" and "copyout r va src s = Ok 0 t"
  shows "copyin r va (length src) t = Ok (0, src) t"
  using assms by (rule copyout_copyin)

theorem copyout_copyin_roundtrip_witness:
  "\<exists>(s :: kmem) r t. copyout r 8 [10, 20, 30] s = Ok 0 t \<and> copyin r 8 3 t = Ok (0, [10, 20, 30]) t"
proof -
  obtain s :: kmem and r n where s: "uvm_inv s {r, n} {(r, 0)} (\<lambda>_. 0)" "uacc (mem s) r 0" "4 \<le> card (free_pages s)"
    using demo_spaces by blast
  let ?src = "[10, 20, 30 :: u8]"
  have pg: "PGROUNDDOWN 8 = 0" by (simp add: PGROUNDDOWN_def)
  then have u: "uacc (mem s) r 8" using s(2) uacc_page[of "mem s" r 8] by simp
  have pp: "page_part 8 (length ?src) = length ?src" by (simp add: page_part_def pg)
  have "length ?src \<le> page_part 8 (length ?src)" by (simp only: pp order_refl)
  from copyout_page[OF s(1) insertI1 u this] have "\<exists>t. copyout r 8 ?src s = Ok 0 t"
  proof (elim disjE exE conjE)
    assume "free_pages s = {}" with s(3) show ?thesis by simp
  next
    fix t q t2 assume t: "cowfault r (PGROUNDDOWN 8) s = Ok 0 t" "walkaddr r (PGROUNDDOWN 8) t = Ok q t" "q \<noteq> 0"
    then show ?thesis unfolding copyout.simps[of r 8] pp by (simp add: copyout.simps[of _ _ "[]"] pg Let_def)
  qed
  then obtain t where t: "copyout r 8 ?src s = Ok 0 t" by blast
  have "copyin r 8 3 t = Ok (0, ?src) t" using copyout_copyin_roundtrip[OF s(1) insertI1 _ t] by (simp add: numeral_3_eq_3)
  with t show ?thesis by blast
qed

text \<open>C14: \<open>copyinstr\<close> returns 0 exactly with the NUL-terminated string user code sees at the
  address, and otherwise fails because there is no NUL among the bytes allowed or a byte before it is not
  accessible. Every byte it returns, on success or failure, is one that user code may access: a page mapped for the
  kernel only is never read. It changes nothing.\<close>

theorem copyinstr_string:
  assumes "uvm_inv s R U X" and "r \<in> R"
  shows "\<exists>res bs. copyinstr r va n s = Ok (res, bs) s \<and> length bs \<le> n \<and> map Some bs = ubytes (mem s) r va (length bs)
     \<and> (\<forall>i < length bs. uacc (mem s) r (va + of_nat i))
     \<and> (res = 0 \<and> (\<exists>ys. bs = ys @ [0] \<and> 0 \<notin> set ys)
        \<or> res = - 1 \<and> 0 \<notin> set bs \<and> (length bs < n \<longrightarrow> \<not> uacc (mem s) r (va + of_nat (length bs))))"
  using assms by (rule copyinstr_user)

theorem copyinstr_string_witness:
  "\<exists>(s :: kmem) r bs. copyinstr r 0 16 s = Ok (0, [0]) s \<and> uacc (mem s) r 0 \<and> copyinstr r 4096 16 s = Ok (- 1, bs) s"
proof -
  obtain s :: kmem and r n where s: "uvm_inv s {r, n} {(r, 0)} (\<lambda>_. 0)" "uacc (mem s) r 0" "vbyte (mem s) r 0 = Some 0"
    "\<forall>x. 4096 \<le> unat x \<longrightarrow> vmap (mem s) r x = None" using demo_spaces by blast
  have fst: "map Some bs = ubytes (mem s) r a (length bs) \<Longrightarrow> bs = b # cs \<Longrightarrow> vbyte (mem s) r a = Some b" for bs b cs a
    by (simp add: ubytes_def upt_conv_Cons del: upt_Suc)
  from copyinstr_string[OF s(1) insertI1, of 0 16] obtain res bs where
    c: "copyinstr r 0 16 s = Ok (res, bs) s" "map Some bs = ubytes (mem s) r 0 (length bs)"
      "res = 0 \<and> (\<exists>ys. bs = ys @ [0] \<and> 0 \<notin> set ys) \<or> res = - 1 \<and> 0 \<notin> set bs \<and> (length bs < 16 \<longrightarrow> \<not> uacc (mem s) r (0 + of_nat (length bs)))"
    by blast
  have z: "bs = b # cs \<Longrightarrow> b = 0" for b cs using fst[OF c(2)] s(3) by simp
  have "bs \<noteq> []" "\<not> 0 \<notin> set bs \<or> bs = []" using c(3) s(2) z by (cases bs; auto)+
  then have "res = 0 \<and> bs = [0]" using c(3) z by (cases bs) (auto simp: Cons_eq_append_conv)
  moreover from copyinstr_string[OF s(1) insertI1, of 4096 16] obtain res' cs where
    d: "copyinstr r 4096 16 s = Ok (res', cs) s" "\<forall>i < length cs. uacc (mem s) r (4096 + of_nat i)"
      "res' = 0 \<and> (\<exists>ys. cs = ys @ [0]) \<or> res' = - 1" by blast
  have "\<not> uacc (mem s) r (4096 + of_nat 0)" using s(4) by (simp add: uacc_def)
  then have "cs = []" using d(2) by blast
  then have "res' = - 1" using d(3) by simp
  ultimately show ?thesis using c(1) d(1) s(2) by blast
qed

end
