(* ===== verification/Spinlock.thy ===== *)
theory Spinlock
  imports Vm
begin

text \<open>
  Harts and spin locks: \<^verbatim>\<open>kernel/spinlock.c\<close>, the interrupt flag of \<^verbatim>\<open>kernel/riscv.h\<close> and the per-CPU
  structure of \<^verbatim>\<open>kernel/proc.h\<close>. \<^verbatim>\<open>acquire\<close> and \<^verbatim>\<open>release\<close> are split at the points where another hart can
  observe the lock (the atomic swap, the record of the holder, the release store), and \<open>lock_step\<close> lets the harts
  interleave at these points. The lemmas show mutual exclusion, that \<^verbatim>\<open>holding\<close> never misjudges, and that
  a hart's interrupts are off exactly while it is inside \<^verbatim>\<open>push_off\<close>/\<^verbatim>\<open>pop_off\<close> pairs and come back as they were.

  A \<^verbatim>\<open>struct spinlock *\<close> is the address of the lock; a \<^verbatim>\<open>struct cpu *\<close> is the index in \<^verbatim>\<open>cpus\<close>, which is the
  hart's number. The record also holds what was sent to the UART so far and the flag that freezes its output.
\<close>

record ctx =
  c_ra :: u64
  c_sp :: u64
  c_s :: "u64 list"

record cpu =
  cpu_proc :: "nat option"
  cpu_context :: ctx
  noff :: cint
  intena :: cint

record spinlock =
  locked :: u32
  lk_name :: string
  lk_cpu :: "nat option"

record csrs =
  sstatus :: u64
  stvec :: u64
  sepc :: u64
  scause :: u64
  stval :: u64
  sip :: u64

record harts = kvm +
  hart :: nat
  csr :: "nat \<Rightarrow> csrs"
  cpus :: "nat \<Rightarrow> cpu"
  locks :: "u64 \<Rightarrow> spinlock"
  uart_tx :: "u8 list"
  panicked :: cint

abbreviation (input) SSTATUS_SPP :: u64 where "SSTATUS_SPP \<equiv> 0x100"
abbreviation (input) SSTATUS_SPIE :: u64 where "SSTATUS_SPIE \<equiv> 0x20"
abbreviation (input) SSTATUS_SIE :: u64 where "SSTATUS_SIE \<equiv> 2"

section \<open>Interrupts of the running hart\<close>

definition upd_csr :: "(csrs \<Rightarrow> csrs) \<Rightarrow> 'z harts_scheme \<Rightarrow> 'z harts_scheme" where
  "upd_csr f s = s\<lparr>csr := (csr s)(hart s := f (csr s (hart s)))\<rparr>"

definition upd_cpu :: "(cpu \<Rightarrow> cpu) \<Rightarrow> 'z harts_scheme \<Rightarrow> 'z harts_scheme" where
  "upd_cpu f s = s\<lparr>cpus := (cpus s)(hart s := f (cpus s (hart s)))\<rparr>"

definition upd_lock :: "u64 \<Rightarrow> (spinlock \<Rightarrow> spinlock) \<Rightarrow> 'z harts_scheme \<Rightarrow> 'z harts_scheme" where
  "upd_lock lk f s = s\<lparr>locks := (locks s)(lk := f (locks s lk))\<rparr>"

definition mycsr :: "'z harts_scheme \<Rightarrow> csrs" where
  "mycsr s = csr s (hart s)"

definition intr_on :: "'z harts_scheme \<Rightarrow> 'z harts_scheme" where
  "intr_on s = upd_csr (\<lambda>c. c\<lparr>sstatus := sstatus c OR SSTATUS_SIE\<rparr>) s"

definition intr_off :: "'z harts_scheme \<Rightarrow> 'z harts_scheme" where
  "intr_off s = upd_csr (\<lambda>c. c\<lparr>sstatus := sstatus c AND NOT SSTATUS_SIE\<rparr>) s"

definition intr_get :: "'z harts_scheme \<Rightarrow> bool" where
  "intr_get s = has (sstatus (mycsr s)) SSTATUS_SIE"

definition cpuid :: "'z harts_scheme \<Rightarrow> nat" where
  "cpuid s = hart s"

definition mycpu :: "'z harts_scheme \<Rightarrow> cpu" where
  "mycpu s = cpus s (cpuid s)"

definition myproc :: "'z harts_scheme \<Rightarrow> nat option" where
  "myproc s = cpu_proc (mycpu s)"

definition push_off :: "'z harts_scheme \<Rightarrow> 'z harts_scheme" where
  "push_off s =
     (let old = (if intr_get s then 1 else 0);
          s = intr_off s;
          s = (if noff (mycpu s) = 0 then upd_cpu (\<lambda>c. c\<lparr>intena := old\<rparr>) s else s) in
      upd_cpu (\<lambda>c. c\<lparr>noff := noff c + 1\<rparr>) s)"

definition pop_off :: "'z harts_scheme \<Rightarrow> ('z harts_scheme, unit) res" where
  "pop_off s =
     (if intr_get s then Panic ''pop_off - interruptible''
      else if sint (noff (mycpu s)) < 1 then Panic ''pop_off''
      else
        let s = upd_cpu (\<lambda>c. c\<lparr>noff := noff c - 1\<rparr>) s in
        if noff (mycpu s) = 0 \<and> intena (mycpu s) \<noteq> 0 then Ok () (intr_on s) else Ok () s)"

text \<open>
  \<^verbatim>\<open>myproc()\<close> brackets its read with \<^verbatim>\<open>push_off\<close> and \<^verbatim>\<open>pop_off\<close>. Outside any other such bracket this overwrites \<^verbatim>\<open>intena\<close>
  with the current state of interrupts; \<open>settled\<close> is the state after the call, which is \<open>myproc_call_eq\<close> below. Nothing can see
  the difference, since the next \<^verbatim>\<open>push_off\<close> overwrites the field before any \<^verbatim>\<open>pop_off\<close> reads it (\<open>push_off_settled\<close>); most of
  the model therefore takes the value alone, \<open>myproc\<close>.
\<close>

definition myproc_call :: "'z harts_scheme \<Rightarrow> ('z harts_scheme, nat option) res" where
  "myproc_call s =
     (let s = push_off s;
          p = cpu_proc (mycpu s) in
      bnd (pop_off s) (\<lambda>_ s. Ok p s))"

definition settled :: "'z harts_scheme \<Rightarrow> 'z harts_scheme" where
  "settled s = (if noff (mycpu s) = 0 then upd_cpu (\<lambda>c. c\<lparr>intena := if intr_get s then 1 else 0\<rparr>) s else s)"

section \<open>Spin locks\<close>

definition initlock :: "u64 \<Rightarrow> string \<Rightarrow> 'z harts_scheme \<Rightarrow> 'z harts_scheme" where
  "initlock lk name s = upd_lock lk (\<lambda>_. \<lparr>locked = 0, lk_name = name, lk_cpu = None\<rparr>) s"

definition holding :: "u64 \<Rightarrow> 'z harts_scheme \<Rightarrow> bool" where
  "holding lk s \<longleftrightarrow> locked (locks s lk) \<noteq> 0 \<and> lk_cpu (locks s lk) = Some (hart s)"

text \<open>The parts of \<^verbatim>\<open>acquire\<close>: up to the spin loop, one atomic swap (with the old value), the record of the holder.\<close>

definition acquire_begin :: "u64 \<Rightarrow> 'z harts_scheme \<Rightarrow> ('z harts_scheme, unit) res" where
  "acquire_begin lk s =
     (let s = push_off s in
      if holding lk s then Panic ''acquire'' else Ok () s)"

definition test_and_set :: "u64 \<Rightarrow> 'z harts_scheme \<Rightarrow> u32 \<times> 'z harts_scheme" where
  "test_and_set lk s = (locked (locks s lk), upd_lock lk (\<lambda>l. l\<lparr>locked := 1\<rparr>) s)"

definition acquire_end :: "u64 \<Rightarrow> 'z harts_scheme \<Rightarrow> 'z harts_scheme" where
  "acquire_end lk s = upd_lock lk (\<lambda>l. l\<lparr>lk_cpu := Some (cpuid s)\<rparr>) s"

text \<open>The parts of \<^verbatim>\<open>release\<close>: forgetting the holder, then the store that frees the lock and \<^verbatim>\<open>pop_off\<close>.\<close>

definition release_begin :: "u64 \<Rightarrow> 'z harts_scheme \<Rightarrow> ('z harts_scheme, unit) res" where
  "release_begin lk s =
     (if \<not> holding lk s then Panic ''release'' else Ok () (upd_lock lk (\<lambda>l. l\<lparr>lk_cpu := None\<rparr>) s))"

definition release_end :: "u64 \<Rightarrow> 'z harts_scheme \<Rightarrow> ('z harts_scheme, unit) res" where
  "release_end lk s = pop_off (upd_lock lk (\<lambda>l. l\<lparr>locked := 0\<rparr>) s)"

text \<open>The whole calls, as a hart alone runs them: \<open>None\<close> is a lock that is never given up.\<close>

definition acquire :: "u64 \<Rightarrow> 'z harts_scheme \<Rightarrow> ('z harts_scheme, unit) res option" where
  "acquire lk s =
     (case acquire_begin lk s of
        Ok _ s \<Rightarrow> (let (old, s) = test_and_set lk s in if old \<noteq> 0 then None else Some (Ok () (acquire_end lk s)))
      | r \<Rightarrow> Some r)"

definition release :: "u64 \<Rightarrow> 'z harts_scheme \<Rightarrow> ('z harts_scheme, unit) res" where
  "release lk s = bnd (release_begin lk s) (\<lambda>_ s. release_end lk s)"

section \<open>What the operations do to the interrupt state\<close>

definition sie :: "'z harts_scheme \<Rightarrow> nat \<Rightarrow> bool" where
  "sie s h = has (sstatus (csr s h)) SSTATUS_SIE"

lemma sie_on [simp]: "bit (x OR 2) (Suc 0)" and sie_off [simp]: "\<not> bit (x AND - 3) (Suc 0)" for x :: u64
proof -
  have "- 3 = NOT (2 :: u64)" by simp
  then show "\<not> bit (x AND - 3) (Suc 0)" by (simp only: bit_and_iff bit_not_iff) simp
qed (simp add: bit_or_iff)

lemmas hart_defs = upd_csr_def upd_cpu_def upd_lock_def mycsr_def mycpu_def cpuid_def intr_on_def intr_off_def intr_get_def

lemma push_off_effect:
  shows "locks (push_off s) = locks s" "hart (push_off s) = hart s"
    and "noff (cpus (push_off s) h) = (if h = hart s then noff (cpus s h) + 1 else noff (cpus s h))"
    and "sie (push_off s) h = (if h = hart s then False else sie s h)"
    and "(intena (cpus (push_off s) h) \<noteq> 0)
      = (if h = hart s \<and> noff (cpus s h) = 0 then sie s h else intena (cpus s h) \<noteq> 0)"
  by (simp_all add: push_off_def hart_defs sie_def Let_def)

lemma pop_off_effect:
  assumes "pop_off s = Ok u t"
  shows "locks t = locks s" "hart t = hart s" "1 \<le> sint (noff (cpus s (hart s)))" "\<not> sie s (hart s)"
    and "noff (cpus t h) = (if h = hart s then noff (cpus s h) - 1 else noff (cpus s h))"
    and "sie t h = (if h = hart s then noff (cpus s h) - 1 = 0 \<and> intena (cpus s h) \<noteq> 0 else sie s h)"
    and "intena (cpus t h) = intena (cpus s h)"
  using assms by (auto simp: pop_off_def hart_defs sie_def Let_def split: if_splits)

section \<open>A bracket of push_off and pop_off\<close>

text \<open>
  Where interrupts are off inside every bracket, as they are in a running kernel, one more bracket changes nothing but \<^verbatim>\<open>intena\<close> at
  depth 0.
\<close>

definition quiet :: "'z harts_scheme \<Rightarrow> bool" where
  "quiet s \<longleftrightarrow> (noff (mycpu s) = 0 \<or> \<not> intr_get s) \<and> 0 \<le> sint (noff (mycpu s)) \<and> sint (noff (mycpu s)) < 2 ^ 31 - 1"

lemma sie_restore: "(if has x SSTATUS_SIE then (x AND NOT SSTATUS_SIE) OR SSTATUS_SIE else x AND NOT SSTATUS_SIE) = x" for x :: u64
proof (rule bit_word_eqI)
  fix n
  have "bit (2 :: u64) n \<longleftrightarrow> n = 1" if "n < 64" using that bit_exp_iff[where 'a = u64 and m = 1 and n = n] by auto
  then show "n < LENGTH(64) \<Longrightarrow> bit (if has x SSTATUS_SIE then (x AND NOT SSTATUS_SIE) OR SSTATUS_SIE else x AND NOT SSTATUS_SIE) n = bit x n"
    by (auto simp: bit_simps)
qed

lemma pop_push:
  assumes "quiet s"
  shows "pop_off (push_off s) = Ok () (settled s)"
proof -
  let ?c = "cpus s (hart s)" and ?x = "sstatus (csr s (hart s))"
  have n: "sint (noff ?c + 1) = sint (noff ?c) + 1" "0 \<le> sint (noff ?c)" "noff ?c = 0 \<or> \<not> has ?x SSTATUS_SIE"
    using assms sint_inc[of "noff ?c"] by (auto simp: quiet_def hart_defs)
  have off: "has ?x SSTATUS_SIE \<Longrightarrow> (?x AND NOT SSTATUS_SIE) OR SSTATUS_SIE = ?x" "\<not> has ?x SSTATUS_SIE \<Longrightarrow> ?x AND NOT SSTATUS_SIE = ?x"
    using sie_restore[of ?x] by (simp_all split: if_splits)
  have z: "noff ?c = 0 \<Longrightarrow> ?c\<lparr>intena := i, noff := 0\<rparr> = ?c\<lparr>intena := i\<rparr>" for i by (cases ?c) simp
  let ?c' = "if noff ?c = 0 then ?c\<lparr>intena := if has ?x SSTATUS_SIE then 1 else 0\<rparr> else ?c"
  let ?p = "s\<lparr>csr := (csr s)(hart s := (csr s (hart s))\<lparr>sstatus := ?x AND NOT SSTATUS_SIE\<rparr>), cpus := (cpus s)(hart s := ?c'\<lparr>noff := noff ?c + 1\<rparr>)\<rparr>"
  have "push_off s = ?p" by (simp add: push_off_def hart_defs Let_def)
  moreover have "pop_off ?p = Ok () (settled s)"
  proof -
    consider "noff ?c = 0" "has ?x SSTATUS_SIE" | "noff ?c = 0" "\<not> has ?x SSTATUS_SIE" | "noff ?c \<noteq> 0" "\<not> has ?x SSTATUS_SIE" using n(3) by blast
    then show ?thesis
    proof cases
      case 1
      then show ?thesis using off(1) by (simp add: pop_off_def settled_def hart_defs Let_def z)
    next
      case 2
      then show ?thesis using off(2) by (simp add: pop_off_def settled_def hart_defs Let_def z)
    next
      case 3
      then show ?thesis using n(1,2) off(2) by (simp add: pop_off_def settled_def hart_defs Let_def)
    qed
  qed
  ultimately show ?thesis by simp
qed

lemma myproc_call_eq: "quiet s \<Longrightarrow> myproc_call s = Ok (myproc s) (settled s)"
  using pop_push[of s] by (simp add: myproc_call_def Let_def) (simp add: push_off_def hart_defs myproc_def Let_def)

lemma push_off_settled: "push_off (settled s) = push_off s"
  by (simp add: push_off_def settled_def hart_defs Let_def fun_upd_def cong: if_cong)

lemma settled_keeps [simp]:
  "csr (settled s) = csr s" "hart (settled s) = hart s" "locks (settled s) = locks s" "uart_tx (settled s) = uart_tx s"
  "panicked (settled s) = panicked s" "noff (mycpu (settled s)) = noff (mycpu s)"
  "intr_get (settled s) = intr_get s" "myproc (settled s) = myproc s" "quiet (settled s) = quiet s" "settled (settled s) = settled s"
  "harts.more (settled s) = harts.more s"
  by (auto simp: settled_def quiet_def myproc_def hart_defs)

section \<open>Harts competing for locks\<close>

text \<open>Where a hart is in \<^verbatim>\<open>acquire\<close> or \<^verbatim>\<open>release\<close>; \<open>held\<close> lists the locks whose \<^verbatim>\<open>acquire\<close> has returned.\<close>

datatype lpc = Running | Spinning u64 | Swapped u64 | Releasing u64

record lsys =
  st :: harts
  pcs :: "nat \<Rightarrow> lpc"
  held :: "nat \<Rightarrow> u64 list"

definition on :: "nat \<Rightarrow> lsys \<Rightarrow> harts" where
  "on h \<sigma> = (st \<sigma>)\<lparr>hart := h\<rparr>"

inductive lock_step :: "u64 set \<Rightarrow> lsys \<Rightarrow> lsys \<Rightarrow> bool" for L where
  start: "pcs \<sigma> h = Running \<Longrightarrow> lk \<in> L \<Longrightarrow> acquire_begin lk (on h \<sigma>) = Ok () t
    \<Longrightarrow> lock_step L \<sigma> (\<sigma>\<lparr>st := t, pcs := (pcs \<sigma>)(h := Spinning lk)\<rparr>)"
| spin: "pcs \<sigma> h = Spinning lk \<Longrightarrow> test_and_set lk (on h \<sigma>) = (old, t) \<Longrightarrow> old \<noteq> 0 \<Longrightarrow> lock_step L \<sigma> (\<sigma>\<lparr>st := t\<rparr>)"
| swap: "pcs \<sigma> h = Spinning lk \<Longrightarrow> test_and_set lk (on h \<sigma>) = (old, t) \<Longrightarrow> old = 0
    \<Longrightarrow> lock_step L \<sigma> (\<sigma>\<lparr>st := t, pcs := (pcs \<sigma>)(h := Swapped lk)\<rparr>)"
| record_holder: "pcs \<sigma> h = Swapped lk
    \<Longrightarrow> lock_step L \<sigma> (\<sigma>\<lparr>st := acquire_end lk (on h \<sigma>), pcs := (pcs \<sigma>)(h := Running), held := (held \<sigma>)(h := lk # held \<sigma> h)\<rparr>)"
| forget_holder: "pcs \<sigma> h = Running \<Longrightarrow> release_begin lk (on h \<sigma>) = Ok () t
    \<Longrightarrow> lock_step L \<sigma> (\<sigma>\<lparr>st := t, pcs := (pcs \<sigma>)(h := Releasing lk)\<rparr>)"
| free_lock: "pcs \<sigma> h = Releasing lk \<Longrightarrow> release_end lk (on h \<sigma>) = Ok () t
    \<Longrightarrow> lock_step L \<sigma> (\<sigma>\<lparr>st := t, pcs := (pcs \<sigma>)(h := Running), held := (held \<sigma>)(h := remove1 lk (held \<sigma> h))\<rparr>)"

definition lock_start :: "(nat \<Rightarrow> bool) \<Rightarrow> lsys \<Rightarrow> bool" where
  "lock_start irq \<sigma> \<longleftrightarrow> (\<forall>h. pcs \<sigma> h = Running \<and> held \<sigma> h = [] \<and> noff (cpus (st \<sigma>) h) = 0 \<and> sie (st \<sigma>) h = irq h)
     \<and> (\<forall>lk. locked (locks (st \<sigma>) lk) = 0 \<and> lk_cpu (locks (st \<sigma>) lk) = None)"

definition owns :: "lsys \<Rightarrow> nat \<Rightarrow> u64 \<Rightarrow> bool" where
  "owns \<sigma> h lk \<longleftrightarrow> lk \<in> set (held \<sigma> h) \<or> pcs \<sigma> h = Swapped lk"

text \<open>The number of \<^verbatim>\<open>push_off\<close>s of a hart not yet undone.\<close>

definition depth :: "lsys \<Rightarrow> nat \<Rightarrow> nat" where
  "depth \<sigma> h = length (held \<sigma> h) + (case pcs \<sigma> h of Spinning _ \<Rightarrow> 1 | Swapped _ \<Rightarrow> 1 | _ \<Rightarrow> 0)"

definition hart_inv :: "u64 set \<Rightarrow> (nat \<Rightarrow> bool) \<Rightarrow> lsys \<Rightarrow> nat \<Rightarrow> bool" where
  "hart_inv L irq \<sigma> h \<longleftrightarrow> distinct (held \<sigma> h) \<and> set (held \<sigma> h) \<subseteq> L
     \<and> (\<forall>lk. pcs \<sigma> h = Swapped lk \<longrightarrow> lk \<notin> set (held \<sigma> h) \<and> lk \<in> L)
     \<and> (\<forall>lk. pcs \<sigma> h = Spinning lk \<longrightarrow> lk \<notin> set (held \<sigma> h) \<and> lk \<in> L) \<and> (\<forall>lk. pcs \<sigma> h = Releasing lk \<longrightarrow> lk \<in> set (held \<sigma> h))
     \<and> noff (cpus (st \<sigma>) h) = of_nat (depth \<sigma> h)
     \<and> (if depth \<sigma> h = 0 then sie (st \<sigma>) h = irq h else \<not> sie (st \<sigma>) h \<and> (intena (cpus (st \<sigma>) h) \<noteq> 0) = irq h)"

definition lock_inv :: "u64 set \<Rightarrow> (nat \<Rightarrow> bool) \<Rightarrow> lsys \<Rightarrow> bool" where
  "lock_inv L irq \<sigma> \<longleftrightarrow> (\<forall>h. hart_inv L irq \<sigma> h)
     \<and> (\<forall>lk h h'. owns \<sigma> h lk \<and> owns \<sigma> h' lk \<longrightarrow> h = h')
     \<and> (\<forall>lk. locked (locks (st \<sigma>) lk) \<noteq> 0 \<longleftrightarrow> (\<exists>h. owns \<sigma> h lk))
     \<and> (\<forall>lk h. lk_cpu (locks (st \<sigma>) lk) = Some h \<longleftrightarrow> lk \<in> set (held \<sigma> h) \<and> pcs \<sigma> h \<noteq> Releasing lk)"

lemma on_simps [simp]: "locks (on h \<sigma>) = locks (st \<sigma>)" "cpus (on h \<sigma>) = cpus (st \<sigma>)" "hart (on h \<sigma>) = h" "sie (on h \<sigma>) = sie (st \<sigma>)"
  by (auto simp: on_def sie_def fun_eq_iff)

lemma depth_bound:
  assumes "hart_inv L irq \<sigma> h" and "finite L"
  shows "depth \<sigma> h \<le> card L"
proof -
  have d: "distinct (held \<sigma> h)" "set (held \<sigma> h) \<subseteq> L" using assms(1) by (auto simp: hart_inv_def)
  have "length (held \<sigma> h) \<le> card L" using d assms(2) by (metis card_mono distinct_card)
  moreover have "Suc (length (held \<sigma> h)) \<le> card L" if "lk \<notin> set (held \<sigma> h)" "lk \<in> L" for lk
    using card_mono[OF assms(2), of "insert lk (set (held \<sigma> h))"] d that by (simp add: distinct_card)
  ultimately show ?thesis
    using assms(1) by (auto simp: depth_def hart_inv_def split: lpc.splits)
qed

lemma hart_inv_cong:
  assumes "held \<tau> h = held \<sigma> h" "pcs \<tau> h = pcs \<sigma> h" "noff (cpus (st \<tau>) h) = noff (cpus (st \<sigma>) h)"
    "sie (st \<tau>) h = sie (st \<sigma>) h" "(intena (cpus (st \<tau>) h) \<noteq> 0) = (intena (cpus (st \<sigma>) h) \<noteq> 0)"
  shows "hart_inv L irq \<tau> h = hart_inv L irq \<sigma> h"
  using assms by (simp add: hart_inv_def depth_def)

lemma depth_zero:
  assumes "hart_inv L irq \<sigma> h" and "finite L" "card L < 2 ^ 31"
  shows "noff (cpus (st \<sigma>) h) = 0 \<longleftrightarrow> depth \<sigma> h = 0" and "noff (cpus (st \<sigma>) h) - 1 = 0 \<longleftrightarrow> depth \<sigma> h = 1"
proof -
  have b: "depth \<sigma> h < 2 ^ 31" using depth_bound[OF assms(1,2)] assms(3) by simp
  have n: "noff (cpus (st \<sigma>) h) = of_nat (depth \<sigma> h)" using assms(1) by (simp add: hart_inv_def)
  have "(of_nat (depth \<sigma> h) :: cint) = of_nat k \<longleftrightarrow> depth \<sigma> h = k" if "k < 2 ^ 31" for k
    using b that by (auto simp: word_unat_eq_iff unat_of_nat)
  from this[of 0] this[of 1] show "noff (cpus (st \<sigma>) h) = 0 \<longleftrightarrow> depth \<sigma> h = 0" "noff (cpus (st \<sigma>) h) - 1 = 0 \<longleftrightarrow> depth \<sigma> h = 1"
    using n by simp_all
qed

lemma hart_inv_step:
  assumes step: "lock_step L \<sigma> \<tau>" and inv: "lock_inv L irq \<sigma>" and L: "finite L" "card L < 2 ^ 31"
  shows "hart_inv L irq \<tau> g"
proof -
  have hi: "hart_inv L irq \<sigma> g" for g using inv by (simp add: lock_inv_def)
  note z = depth_zero[OF hi L]
  from step show ?thesis
  proof cases
    case (start h lk t)
    then have t: "t = push_off (on h \<sigma>)" and nh: "\<not> holding lk t" by (auto simp: acquire_begin_def Let_def split: if_splits)
    have "lk \<notin> set (held \<sigma> h)"
    proof
      assume a: "lk \<in> set (held \<sigma> h)"
      then have "lk_cpu (locks (st \<sigma>) lk) = Some h" "locked (locks (st \<sigma>) lk) \<noteq> 0"
        using inv start(2) by (auto simp: lock_inv_def owns_def)
      then show False using nh by (simp add: t holding_def push_off_effect)
    qed
    show ?thesis
    proof (cases "g = h")
      case False
      then have "hart_inv L irq \<tau> g = hart_inv L irq \<sigma> g"
        using start(1) by (intro hart_inv_cong) (auto simp: t push_off_effect)
      with hi show ?thesis by simp
    next
      case True
      then show ?thesis
        using hi[of h] z(1)[of h] start(1-3) \<open>lk \<notin> set (held \<sigma> h)\<close>
        by (auto simp: hart_inv_def depth_def t push_off_effect split: if_splits)
    qed
  next
    case (spin h lk old t)
    then have "hart_inv L irq \<tau> g = hart_inv L irq \<sigma> g" by (intro hart_inv_cong) (auto simp: test_and_set_def hart_defs sie_def on_def)
    with hi show ?thesis by simp
  next
    case (swap h lk old t)
    show ?thesis
    proof (cases "g = h")
      case False
      then have "hart_inv L irq \<tau> g = hart_inv L irq \<sigma> g" using swap by (intro hart_inv_cong) (auto simp: test_and_set_def hart_defs sie_def on_def)
      with hi show ?thesis by simp
    next
      case True
      then show ?thesis using hi[of h] swap by (auto simp: hart_inv_def depth_def test_and_set_def hart_defs sie_def on_def)
    qed
  next
    case (record_holder h lk)
    show ?thesis
    proof (cases "g = h")
      case False
      then have "hart_inv L irq \<tau> g = hart_inv L irq \<sigma> g" using record_holder by (intro hart_inv_cong) (auto simp: acquire_end_def hart_defs sie_def on_def)
      with hi show ?thesis by simp
    next
      case True
      then show ?thesis using hi[of h] record_holder by (auto simp: hart_inv_def depth_def acquire_end_def hart_defs sie_def on_def)
    qed
  next
    case (forget_holder h lk t)
    then have "lk \<in> set (held \<sigma> h)" using inv
      by (auto simp: release_begin_def holding_def lock_inv_def split: if_splits)
    show ?thesis
    proof (cases "g = h")
      case False
      then have "hart_inv L irq \<tau> g = hart_inv L irq \<sigma> g"
        using forget_holder by (intro hart_inv_cong) (auto simp: release_begin_def hart_defs sie_def on_def split: if_splits)
      with hi show ?thesis by simp
    next
      case True
      then show ?thesis using hi[of h] forget_holder \<open>lk \<in> set (held \<sigma> h)\<close>
        by (auto simp: hart_inv_def depth_def release_begin_def hart_defs sie_def on_def split: if_splits)
    qed
  next
    case (free_lock h lk t)
    let ?s = "upd_lock lk (\<lambda>l. l\<lparr>locked := 0\<rparr>) (on h \<sigma>)"
    have s: "hart ?s = h" "cpus ?s = cpus (st \<sigma>)" "sie ?s = sie (st \<sigma>)" by (auto simp: hart_defs on_def sie_def fun_eq_iff)
    from free_lock(3) have p: "pop_off ?s = Ok () t" by (simp add: release_end_def)
    note e = pop_off_effect[OF p, unfolded s]
    have lk: "lk \<in> set (held \<sigma> h)" using hi[of h] free_lock(2) by (auto simp: hart_inv_def)
    show ?thesis
    proof (cases "g = h")
      case False
      then have "hart_inv L irq \<tau> g = hart_inv L irq \<sigma> g" using free_lock(1) by (intro hart_inv_cong) (auto simp: e)
      with hi show ?thesis by simp
    next
      case True
      obtain m where m: "length (held \<sigma> h) = Suc m" using lk by (cases "held \<sigma> h") auto
      have d: "depth \<sigma> h = Suc m" using free_lock(2) m by (simp add: depth_def)
      have d': "depth \<tau> h = m" using free_lock(1) lk m by (simp add: depth_def length_remove1)
      have n: "noff (cpus (st \<sigma>) h) - 1 = of_nat m" using hi[of h] d by (simp add: hart_inv_def)
      show ?thesis using True hi[of h] z(2)[of h] free_lock(1,2) lk d set_remove1_subset[of lk "held \<sigma> h"]
        unfolding hart_inv_def d' True by (auto simp: e n)
    qed
  qed
qed

text \<open>What a step does to the locks.\<close>

lemma locks_step:
  assumes "lock_step L \<sigma> \<tau>" and inv: "lock_inv L irq \<sigma>"
  obtains (begin_acq) h lk where "pcs \<sigma> h = Running" "held \<tau> = held \<sigma>" "pcs \<tau> = (pcs \<sigma>)(h := Spinning lk)" "locks (st \<tau>) = locks (st \<sigma>)"
  | (busy) h lk where "pcs \<sigma> h = Spinning lk" "held \<tau> = held \<sigma>" "pcs \<tau> = pcs \<sigma>" "locked (locks (st \<sigma>) lk) \<noteq> 0"
      "locks (st \<tau>) = (locks (st \<sigma>))(lk := (locks (st \<sigma>) lk)\<lparr>locked := 1\<rparr>)"
  | (won) h lk where "pcs \<sigma> h = Spinning lk" "held \<tau> = held \<sigma>" "pcs \<tau> = (pcs \<sigma>)(h := Swapped lk)" "locked (locks (st \<sigma>) lk) = 0"
      "locks (st \<tau>) = (locks (st \<sigma>))(lk := (locks (st \<sigma>) lk)\<lparr>locked := 1\<rparr>)"
  | (end_acq) h lk where "pcs \<sigma> h = Swapped lk" "held \<tau> = (held \<sigma>)(h := lk # held \<sigma> h)" "pcs \<tau> = (pcs \<sigma>)(h := Running)"
      "locks (st \<tau>) = (locks (st \<sigma>))(lk := (locks (st \<sigma>) lk)\<lparr>lk_cpu := Some h\<rparr>)"
  | (begin_rel) h lk where "pcs \<sigma> h = Running" "lk \<in> set (held \<sigma> h)" "held \<tau> = held \<sigma>" "pcs \<tau> = (pcs \<sigma>)(h := Releasing lk)"
      "locks (st \<tau>) = (locks (st \<sigma>))(lk := (locks (st \<sigma>) lk)\<lparr>lk_cpu := None\<rparr>)"
  | (end_rel) h lk where "pcs \<sigma> h = Releasing lk" "held \<tau> = (held \<sigma>)(h := remove1 lk (held \<sigma> h))" "pcs \<tau> = (pcs \<sigma>)(h := Running)"
      "locks (st \<tau>) = (locks (st \<sigma>))(lk := (locks (st \<sigma>) lk)\<lparr>locked := 0\<rparr>)"
  using assms(1)
proof cases
  case (start h lk t)
  then have "locks t = locks (st \<sigma>)" by (auto simp: acquire_begin_def Let_def push_off_effect split: if_splits)
  with start show ?thesis by (intro begin_acq[of h lk]) auto
next
  case (spin h lk old t)
  then show ?thesis by (intro busy[of h lk]) (auto simp: test_and_set_def upd_lock_def)
next
  case (swap h lk old t)
  then show ?thesis by (intro won[of h lk]) (auto simp: test_and_set_def upd_lock_def)
next
  case (record_holder h lk)
  then show ?thesis by (intro end_acq[of h lk]) (auto simp: acquire_end_def upd_lock_def cpuid_def)
next
  case (forget_holder h lk t)
  then have "lk \<in> set (held \<sigma> h)" using inv by (auto simp: release_begin_def holding_def lock_inv_def split: if_splits)
  with forget_holder show ?thesis by (intro begin_rel[of h lk]) (auto simp: release_begin_def upd_lock_def split: if_splits)
next
  case (free_lock h lk t)
  let ?s = "upd_lock lk (\<lambda>l. l\<lparr>locked := 0\<rparr>) (on h \<sigma>)"
  have "pop_off ?s = Ok () t" using free_lock(3) by (simp add: release_end_def)
  from pop_off_effect(1)[OF this] have "locks t = (locks (st \<sigma>))(lk := (locks (st \<sigma>) lk)\<lparr>locked := 0\<rparr>)" by (simp add: upd_lock_def)
  with free_lock show ?thesis by (intro end_rel[of h lk]) auto
qed

lemma lock_inv_step:
  assumes step: "lock_step L \<sigma> \<tau>" and inv: "lock_inv L irq \<sigma>" and L: "finite L" "card L < 2 ^ 31"
  shows "lock_inv L irq \<tau>"
proof -
  have hi: "\<And>h. hart_inv L irq \<tau> h" by (rule hart_inv_step[OF step inv L])
  have d: "distinct (held \<sigma> h)" "pcs \<sigma> h = Releasing lk \<Longrightarrow> lk \<in> set (held \<sigma> h)" for h lk
    using inv unfolding lock_inv_def hart_inv_def by blast+
  have one: "owns \<sigma> h lk \<Longrightarrow> owns \<sigma> h' lk \<Longrightarrow> h = h'" and lkd: "locked (locks (st \<sigma>) lk) \<noteq> 0 \<longleftrightarrow> (\<exists>h. owns \<sigma> h lk)"
    and who: "lk_cpu (locks (st \<sigma>) lk) = Some h \<longleftrightarrow> lk \<in> set (held \<sigma> h) \<and> pcs \<sigma> h \<noteq> Releasing lk" for h h' lk
    using inv unfolding lock_inv_def by blast+
  have own: "lk \<in> set (held \<sigma> h) \<Longrightarrow> lk \<in> set (held \<sigma> h') \<Longrightarrow> h = h'" "pcs \<sigma> h = Swapped lk \<Longrightarrow> lk \<in> set (held \<sigma> h') \<Longrightarrow> h = h'"
    "pcs \<sigma> h = Swapped lk \<Longrightarrow> pcs \<sigma> h' = Swapped lk \<Longrightarrow> h = h'" for h h' lk using one unfolding owns_def by blast+
  have "(\<forall>lk h h'. owns \<tau> h lk \<and> owns \<tau> h' lk \<longrightarrow> h = h')
     \<and> (\<forall>lk. locked (locks (st \<tau>) lk) \<noteq> 0 \<longleftrightarrow> (\<exists>h. owns \<tau> h lk))
     \<and> (\<forall>lk h. lk_cpu (locks (st \<tau>) lk) = Some h \<longleftrightarrow> lk \<in> set (held \<tau> h) \<and> pcs \<tau> h \<noteq> Releasing lk)"
    using step inv
  proof (cases rule: locks_step)
    case a: (begin_acq h lk)
    have o: "owns \<tau> g k = owns \<sigma> g k" for g k using a by (auto simp: owns_def)
    have A: "owns \<tau> g1 k \<Longrightarrow> owns \<tau> g2 k \<Longrightarrow> g1 = g2" for g1 g2 k using one unfolding o .
    have B: "locked (locks (st \<tau>) k) \<noteq> 0 \<longleftrightarrow> (\<exists>g. owns \<tau> g k)" for k using lkd[of k] a(4) o by simp
    have C: "lk_cpu (locks (st \<tau>) k) = Some g \<longleftrightarrow> k \<in> set (held \<tau> g) \<and> pcs \<tau> g \<noteq> Releasing k" for k g using who[of k g] a by auto
    show ?thesis by (intro conjI allI) (blast intro: A, rule B, rule C)
  next
    case a: (busy h lk)
    have o: "owns \<tau> g k = owns \<sigma> g k" for g k using a by (auto simp: owns_def)
    have A: "owns \<tau> g1 k \<Longrightarrow> owns \<tau> g2 k \<Longrightarrow> g1 = g2" for g1 g2 k using one unfolding o .
    have B: "locked (locks (st \<tau>) k) \<noteq> 0 \<longleftrightarrow> (\<exists>g. owns \<tau> g k)" for k using lkd[of k] a(4,5) o by (cases "k = lk") auto
    have C: "lk_cpu (locks (st \<tau>) k) = Some g \<longleftrightarrow> k \<in> set (held \<tau> g) \<and> pcs \<tau> g \<noteq> Releasing k" for k g using who[of k g] a by (cases "k = lk") auto
    show ?thesis by (intro conjI allI) (blast intro: A, rule B, rule C)
  next
    case a: (won h lk)
    have o: "owns \<tau> g k = (owns \<sigma> g k \<or> g = h \<and> k = lk)" for g k using a by (auto simp: owns_def)
    have no: "\<not> owns \<sigma> g lk" for g using lkd a(4) by blast
    have A: "owns \<tau> g1 k \<Longrightarrow> owns \<tau> g2 k \<Longrightarrow> g1 = g2" for g1 g2 k using one no unfolding o by blast
    have B: "locked (locks (st \<tau>) k) \<noteq> 0 \<longleftrightarrow> (\<exists>g. owns \<tau> g k)" for k using lkd[of k] a(5) o by (cases "k = lk") auto
    have C: "lk_cpu (locks (st \<tau>) k) = Some g \<longleftrightarrow> k \<in> set (held \<tau> g) \<and> pcs \<tau> g \<noteq> Releasing k" for k g using who[of k g] a by (cases "k = lk"; cases "g = h") auto
    show ?thesis by (intro conjI allI) (blast intro: A, rule B, rule C)
  next
    case a: (end_acq h lk)
    have o: "owns \<tau> g k = owns \<sigma> g k" for g k using a by (auto simp: owns_def)
    have no: "g \<noteq> h \<Longrightarrow> lk \<notin> set (held \<sigma> g)" for g using own(2)[OF a(1)] by blast
    have A: "owns \<tau> g1 k \<Longrightarrow> owns \<tau> g2 k \<Longrightarrow> g1 = g2" for g1 g2 k using one unfolding o .
    have B: "locked (locks (st \<tau>) k) \<noteq> 0 \<longleftrightarrow> (\<exists>g. owns \<tau> g k)" for k using lkd[of k] a(4) o by (cases "k = lk") auto
    have C: "lk_cpu (locks (st \<tau>) k) = Some g \<longleftrightarrow> k \<in> set (held \<tau> g) \<and> pcs \<tau> g \<noteq> Releasing k" for k g using who[of k g] no[of g] by (cases "k = lk"; cases "g = h") (auto simp: a)
    show ?thesis by (intro conjI allI) (blast intro: A, rule B, rule C)
  next
    case a: (begin_rel h lk)
    have o: "owns \<tau> g k = owns \<sigma> g k" for g k using a by (auto simp: owns_def)
    have no: "g \<noteq> h \<Longrightarrow> lk \<notin> set (held \<sigma> g)" for g using own(1)[OF a(2)] by blast
    have A: "owns \<tau> g1 k \<Longrightarrow> owns \<tau> g2 k \<Longrightarrow> g1 = g2" for g1 g2 k using one unfolding o .
    have B: "locked (locks (st \<tau>) k) \<noteq> 0 \<longleftrightarrow> (\<exists>g. owns \<tau> g k)" for k using lkd[of k] a(5) o by (cases "k = lk") auto
    have C: "lk_cpu (locks (st \<tau>) k) = Some g \<longleftrightarrow> k \<in> set (held \<tau> g) \<and> pcs \<tau> g \<noteq> Releasing k" for k g using who[of k g] no[of g] by (cases "k = lk"; cases "g = h") (auto simp: a)
    show ?thesis by (intro conjI allI) (blast intro: A, rule B, rule C)
  next
    case a: (end_rel h lk)
    have o: "owns \<tau> g k = (owns \<sigma> g k \<and> k \<noteq> lk)" for g k
    proof (cases "g = h")
      case True
      then show ?thesis using d(1)[of h] by (auto simp: owns_def a)
    next
      case False
      then have "\<not> owns \<sigma> g lk" using own(1,2) d(2)[OF a(1)] unfolding owns_def by blast
      then show ?thesis using False by (auto simp: owns_def a)
    qed
    have no: "g \<noteq> h \<Longrightarrow> lk \<notin> set (held \<sigma> g)" for g using own(1)[OF d(2)[OF a(1)]] by blast
    have A: "owns \<tau> g1 k \<Longrightarrow> owns \<tau> g2 k \<Longrightarrow> g1 = g2" for g1 g2 k using one unfolding o by blast
    have B: "locked (locks (st \<tau>) k) \<noteq> 0 \<longleftrightarrow> (\<exists>g. owns \<tau> g k)" for k using lkd[of k] a(4) o by (cases "k = lk") auto
    have C: "lk_cpu (locks (st \<tau>) k) = Some g \<longleftrightarrow> k \<in> set (held \<tau> g) \<and> pcs \<tau> g \<noteq> Releasing k" for k g using who[of k g] no[of g] d(1)[of h] by (cases "k = lk"; cases "g = h") (auto simp: a)
    show ?thesis by (intro conjI allI) (blast intro: A, rule B, rule C)
  qed
  with hi show ?thesis by (simp add: lock_inv_def)
qed

lemma lock_inv_start: "lock_start irq \<sigma> \<Longrightarrow> lock_inv L irq \<sigma>"
  by (simp add: lock_start_def lock_inv_def hart_inv_def owns_def depth_def)

interpretation spin: invariant_system "lock_start irq" "\<lambda>\<sigma> \<tau>. finite L \<and> card L < 2 ^ 31 \<and> lock_step L \<sigma> \<tau>" "lock_inv L irq" for L irq
  by unfold_locales (auto intro: lock_inv_start lock_inv_step)

lemma lock_reachable:
  assumes "lock_start irq \<sigma>0" and "(lock_step L)\<^sup>*\<^sup>* \<sigma>0 \<sigma>" and "finite L" "card L < 2 ^ 31"
  shows "lock_inv L irq \<sigma>"
proof (rule spin.inv_reachable[OF assms(1)])
  show "(\<lambda>\<sigma> \<tau>. finite L \<and> card L < 2 ^ 31 \<and> lock_step L \<sigma> \<tau>)\<^sup>*\<^sup>* \<sigma>0 \<sigma>"
    using assms(2) by (rule rtranclp_mono[THEN predicate2D, rotated]) (use assms in auto)
qed

section \<open>Properties of the spin locks\<close>

text \<open>C15: however the harts interleave inside \<open>acquire\<close> and \<open>release\<close>, two harts never hold the same
  lock, a hart outside these calls finds \<open>holding\<close> true exactly for the locks it holds, interrupts are off
  on every hart that holds a lock, and a hart that gave all its locks back has interrupts as they were at first.\<close>

theorem spinlock_mutual_exclusion:
  assumes "lock_start irq \<sigma>0" and "(lock_step L)\<^sup>*\<^sup>* \<sigma>0 \<sigma>" and "finite L" and "card L < 2 ^ 31"
  shows "(\<forall>lk h h'. lk \<in> set (held \<sigma> h) \<and> lk \<in> set (held \<sigma> h') \<longrightarrow> h = h')
     \<and> (\<forall>lk h. pcs \<sigma> h = Running \<longrightarrow> (holding lk (on h \<sigma>) \<longleftrightarrow> lk \<in> set (held \<sigma> h)))
     \<and> (\<forall>h. held \<sigma> h \<noteq> [] \<longrightarrow> \<not> sie (st \<sigma>) h) \<and> (\<forall>h. depth \<sigma> h = 0 \<longrightarrow> sie (st \<sigma>) h = irq h)"
proof -
  have inv: "lock_inv L irq \<sigma>" by (rule lock_reachable[OF assms])
  then have "holding lk (on h \<sigma>) \<longleftrightarrow> lk \<in> set (held \<sigma> h)" if "pcs \<sigma> h = Running" for lk h
    using that by (auto simp: holding_def lock_inv_def owns_def)
  moreover have "h = h'" if "lk \<in> set (held \<sigma> h)" "lk \<in> set (held \<sigma> h')" for lk h h'
    using inv that unfolding lock_inv_def owns_def by blast
  moreover have "\<not> sie (st \<sigma>) h" if "held \<sigma> h \<noteq> []" for h
    using inv that by (auto simp: lock_inv_def hart_inv_def depth_def split: if_splits)
  moreover have "sie (st \<sigma>) h = irq h" if "depth \<sigma> h = 0" for h
    using inv that by (auto simp: lock_inv_def hart_inv_def)
  ultimately show ?thesis by blast
qed

definition demo_harts :: harts where
  "demo_harts = \<lparr>syms = \<lparr>sym_end = 0x80021d40, sym_etext = 0x80008000, sym_trampoline = 0x80007000, sym_uservec = 0x80007000,
       sym_userret = 0x80007090, sym_kernelvec = 0x80005000, sym_usertrap = 0x80002000, sym_forkret = 0x80001000\<rparr>,
     mem = (\<lambda>_. 0), freelist = 0, refcnt = (\<lambda>_. 0), kernel_pagetable = 0, satp = 0, hart = 0,
     csr = (\<lambda>_. \<lparr>sstatus = 2, stvec = 0, sepc = 0, scause = 0, stval = 0, sip = 0\<rparr>),
     cpus = (\<lambda>_. \<lparr>cpu_proc = None, cpu_context = \<lparr>c_ra = 0, c_sp = 0, c_s = []\<rparr>, noff = 0, intena = 0\<rparr>),
     locks = (\<lambda>_. \<lparr>locked = 0, lk_name = ''demo'', lk_cpu = None\<rparr>), uart_tx = [], panicked = 0\<rparr>"

lemma rtranclp_four: "r a b \<Longrightarrow> r b c \<Longrightarrow> r c d \<Longrightarrow> r d e \<Longrightarrow> r\<^sup>*\<^sup>* a e"
  by (meson converse_rtranclp_into_rtranclp rtranclp.rtrancl_refl)

theorem spinlock_mutual_exclusion_witness:
  "\<exists>\<sigma>0 \<sigma>. (lock_step {16})\<^sup>*\<^sup>* \<sigma>0 \<sigma> \<and> sie (st \<sigma>0) 0 \<and> held \<sigma> 0 = [16] \<and> \<not> sie (st \<sigma>) 0 \<and> \<not> holding 16 (on 2 \<sigma>)"
proof -
  define \<sigma>0 where "\<sigma>0 = \<lparr>st = demo_harts, pcs = (\<lambda>_. Running), held = (\<lambda>_. [])\<rparr>"
  define \<sigma>1 where "\<sigma>1 = \<sigma>0\<lparr>st := push_off (on 0 \<sigma>0), pcs := (pcs \<sigma>0)(0 := Spinning 16)\<rparr>"
  define \<sigma>2 where "\<sigma>2 = \<sigma>1\<lparr>st := push_off (on 1 \<sigma>1), pcs := (pcs \<sigma>1)(1 := Spinning 16)\<rparr>"
  define \<sigma>3 where "\<sigma>3 = \<sigma>2\<lparr>st := snd (test_and_set 16 (on 0 \<sigma>2)), pcs := (pcs \<sigma>2)(0 := Swapped 16)\<rparr>"
  define \<sigma>4 where "\<sigma>4 = \<sigma>3\<lparr>st := acquire_end 16 (on 0 \<sigma>3), pcs := (pcs \<sigma>3)(0 := Running), held := (held \<sigma>3)(0 := 16 # held \<sigma>3 0)\<rparr>"
  have start: "lock_start (\<lambda>_. True) \<sigma>0" by (simp add: lock_start_def \<sigma>0_def demo_harts_def sie_def)
  have l: "locked (locks demo_harts 16) = 0" by (simp add: demo_harts_def)
  have "lock_step {16} \<sigma>0 \<sigma>1" unfolding \<sigma>1_def
    by (rule lock_step.start) (simp_all add: \<sigma>0_def acquire_begin_def holding_def push_off_effect l Let_def)
  moreover have "lock_step {16} \<sigma>1 \<sigma>2" unfolding \<sigma>2_def
    by (rule lock_step.start) (simp_all add: \<sigma>1_def \<sigma>0_def acquire_begin_def holding_def push_off_effect l Let_def)
  moreover have "lock_step {16} \<sigma>2 \<sigma>3" unfolding \<sigma>3_def
    by (rule lock_step.swap[where old = 0]) (simp_all add: \<sigma>2_def \<sigma>1_def \<sigma>0_def test_and_set_def push_off_effect l)
  moreover have "lock_step {16} \<sigma>3 \<sigma>4" unfolding \<sigma>4_def by (rule lock_step.record_holder) (simp add: \<sigma>3_def)
  ultimately have run: "(lock_step {16})\<^sup>*\<^sup>* \<sigma>0 \<sigma>4" by (rule rtranclp_four)
  have h: "held \<sigma>4 0 = [16]" "held \<sigma>4 2 = []" "pcs \<sigma>4 2 = Running"
    by (simp_all add: \<sigma>4_def \<sigma>3_def \<sigma>2_def \<sigma>1_def \<sigma>0_def)
  have "\<not> sie (st \<sigma>4) 0" "\<not> holding 16 (on 2 \<sigma>4)" using spinlock_mutual_exclusion[OF start run] h by auto
  moreover have "sie (st \<sigma>0) 0" using start by (simp add: lock_start_def)
  ultimately show ?thesis using run h by blast
qed

end
