(* ===== verification/Printf.thy ===== *)
theory Printf
  imports Spinlock
begin

text \<open>
  Formatted output: \<^verbatim>\<open>kernel/printf.c\<close> with the \<^verbatim>\<open>consputc\<close> of \<^verbatim>\<open>kernel/console.c\<close> and the \<^verbatim>\<open>uartputc_sync\<close> of \<^verbatim>\<open>kernel/uart.c\<close> it
  prints through. A format is a list of bytes without its NUL; the variable arguments are a list of tagged values, and a
  directive without its argument has no meaning. The transmitter is taken to become idle eventually, so that a
  character waits for nothing but its turn, and the lock that keeps the lines of two harts apart is left out: a call of \<^verbatim>\<open>printf\<close> runs
  alone. The lemmas show that the digits printed denote the number, within the
  buffer \<^verbatim>\<open>printint\<close> has for them, and exactly what printing does to the rest of the state.
\<close>

definition bstr :: "string \<Rightarrow> u8 list" where
  "bstr s = map of_char s"

section \<open>One character\<close>

definition uartputc_sync :: "u8 \<Rightarrow> 'z harts_scheme \<Rightarrow> ('z harts_scheme, unit) res" where
  "uartputc_sync c s =
     (let s = push_off s in
      if panicked s \<noteq> 0 then Panic ''frozen'' else pop_off (s\<lparr>uart_tx := uart_tx s @ [c]\<rparr>))"

abbreviation (input) BACKSPACE :: nat where "BACKSPACE \<equiv> 0x100"

definition consputc :: "nat \<Rightarrow> 'z harts_scheme \<Rightarrow> ('z harts_scheme, unit) res" where
  "consputc c s =
     (if c = BACKSPACE then
        bnd (uartputc_sync 8 s) (\<lambda>_ s. bnd (uartputc_sync 32 s) (\<lambda>_ s. uartputc_sync 8 s))
      else uartputc_sync (of_nat c) s)"

section \<open>Numbers\<close>

definition digit :: "nat \<Rightarrow> u8" where
  "digit d = (if d < 10 then 48 + of_nat d else 87 + of_nat d)"

text \<open>The \<^verbatim>\<open>do\<close> loop of \<^verbatim>\<open>printint\<close>: the digits, least significant first.\<close>

function print_digits :: "nat \<Rightarrow> nat \<Rightarrow> u8 list" where
  "print_digits base x = (if base < 2 then [] else digit (x mod base) # (if x div base = 0 then [] else print_digits base (x div base)))"
  by auto
termination
  by (relation "measure snd") (auto intro!: div_less_dividend simp: div_greater_zero_iff)

declare print_digits.simps [simp del]

text \<open>
  The contents of \<^verbatim>\<open>buf\<close> before it is printed backwards, and what is printed. Negating the least \<^verbatim>\<open>int\<close> overflows: there is no
  result.
\<close>

definition printint_buf :: "cint \<Rightarrow> nat \<Rightarrow> bool \<Rightarrow> u8 list option" where
  "printint_buf xx base sign =
     (let neg = sign \<and> sint xx < 0 in
      Option.bind (if neg then int_fits (- sint xx) else Some xx) (\<lambda>x.
      Some (print_digits base (unat x) @ (if neg then [45] else []))))"

definition printint :: "cint \<Rightarrow> nat \<Rightarrow> bool \<Rightarrow> u8 list option" where
  "printint xx base sign = map_option rev (printint_buf xx base sign)"

definition printptr :: "u64 \<Rightarrow> u8 list" where
  "printptr x = [48, 120] @ map (\<lambda>i. digit (unat (drop_bit 60 (push_bit (4 * i) x)))) [0..<16]"

section \<open>printf\<close>

datatype parg = P_int cint | P_ptr u64 | P_str "u8 list option"

fun format :: "u8 list \<Rightarrow> parg list \<Rightarrow> u8 list option" where
  "format [] args = Some []"
| "format [c] args = (if c = 37 then Some [] else Some [c])"
| "format (c # d # fmt) args =
     (if c \<noteq> 37 then map_option (Cons c) (format (d # fmt) args)
      else if d = 100 then (case args of P_int n # args \<Rightarrow> Option.bind (printint n 10 True) (\<lambda>out. map_option (append out) (format fmt args)) | _ \<Rightarrow> None)
      else if d = 120 then (case args of P_int n # args \<Rightarrow> Option.bind (printint n 16 True) (\<lambda>out. map_option (append out) (format fmt args)) | _ \<Rightarrow> None)
      else if d = 112 then (case args of P_ptr x # args \<Rightarrow> map_option (append (printptr x)) (format fmt args) | _ \<Rightarrow> None)
      else if d = 115 then
        (case args of
           P_str (Some s) # args \<Rightarrow> map_option (append s) (format fmt args)
         | P_str None # args \<Rightarrow> map_option (append (bstr ''(null)'')) (format fmt args)
         | _ \<Rightarrow> None)
      else if d = 37 then map_option (Cons 37) (format fmt args)
      else map_option (\<lambda>out. 37 # d # out) (format fmt args))"

definition printf :: "u8 list \<Rightarrow> parg list \<Rightarrow> 'z harts_scheme \<Rightarrow> ('z harts_scheme, unit) res" where
  "printf fmt args s =
     (case format fmt args of
        None \<Rightarrow> Undef ''arguments of printf''
      | Some out \<Rightarrow> loop (\<lambda>c. consputc (unat c)) out s)"

text \<open>\<^verbatim>\<open>panic\<close> prints its message and freezes the output; it never returns.\<close>

definition panic_state :: "u8 list \<Rightarrow> 'z harts_scheme \<Rightarrow> ('z harts_scheme, unit) res" where
  "panic_state msg s =
     bnd (printf (bstr ''panic: '') [] s) (\<lambda>_ s.
     bnd (printf msg [] s) (\<lambda>_ s.
     bnd (printf [10] [] s) (\<lambda>_ s. Ok () (s\<lparr>panicked := 1\<rparr>))))"

section \<open>The digits denote the number\<close>

text \<open>The value of digits, most significant first, in a base.\<close>

definition digit_value :: "u8 \<Rightarrow> nat" where
  "digit_value c = (if c < 58 then unat c - 48 else unat c - 87)"

definition numeral_value :: "nat \<Rightarrow> u8 list \<Rightarrow> nat" where
  "numeral_value base = foldl (\<lambda>n c. n * base + digit_value c) 0"

lemma digit_value_digit: "d < 16 \<Longrightarrow> digit_value (digit d) = d"
  by (auto simp: digit_value_def digit_def word_less_nat_alt unat_word_ariths unat_of_nat)

lemma numeral_value_digits:
  assumes "2 \<le> base" and "base \<le> 16"
  shows "numeral_value base (rev (print_digits base x)) = x"
proof (induction x rule: less_induct)
  case (less x)
  have m: "x mod base < 16" using assms mod_less_divisor[of base x] by linarith
  show ?case
  proof (cases "x div base = 0")
    case True
    then have "x < base" using assms by (simp add: div_eq_0_iff)
    with True m assms show ?thesis
      by (simp add: print_digits.simps[of base x] numeral_value_def digit_value_digit)
  next
    case False
    then have "x div base < x" using assms by (intro div_less_dividend) (auto intro: gr0I)
    from less.IH[OF this] False m assms show ?thesis
      by (simp add: print_digits.simps[of base x] numeral_value_def digit_value_digit)
  qed
qed

lemma print_digits_length:
  assumes "2 \<le> base" and "x < base ^ k" and "0 < k"
  shows "length (print_digits base x) \<le> k"
  using assms(2,3)
proof (induction k arbitrary: x)
  case (Suc k)
  show ?case
  proof (cases "x div base = 0 \<or> k = 0")
    case True
    have "x div base = 0" if "k = 0" using that Suc.prems by simp
    with True show ?thesis using assms(1) by (auto simp: print_digits.simps[of base x])
  next
    case False
    have "x div base < base ^ k" using Suc.prems(1) assms(1) by (simp add: less_mult_imp_div_less mult.commute)
    with Suc.IH[of "x div base"] False assms(1) show ?thesis by (simp add: print_digits.simps[of base x])
  qed
qed simp

section \<open>Printing reaches the console\<close>

text \<open>
  A hart can print unless the kernel has panicked, or its count of nested \<^verbatim>\<open>push_off\<close>s is about to overflow. Printing
  then always returns, with the bytes sent and the rest of the kernel state as it was.
\<close>

definition can_print :: "'z harts_scheme \<Rightarrow> bool" where
  "can_print s \<longleftrightarrow> panicked s = 0 \<and> 0 \<le> sint (noff (mycpu s)) \<and> sint (noff (mycpu s)) < 2 ^ 31 - 1"

definition printed :: "u8 list \<Rightarrow> 'z harts_scheme \<Rightarrow> 'z harts_scheme \<Rightarrow> bool" where
  "printed out s t \<longleftrightarrow> (\<exists>cs cp. t = s\<lparr>csr := cs, cpus := cp, uart_tx := uart_tx s @ out\<rparr>) \<and> myproc t = myproc s \<and> can_print t"

lemma printedE:
  assumes "printed out s t"
  obtains cs cp where "t = s\<lparr>csr := cs, cpus := cp, uart_tx := uart_tx s @ out\<rparr>" and "myproc t = myproc s" and "can_print t"
  using assms by (auto simp: printed_def)

lemma printed_trans: "printed a s t \<Longrightarrow> printed b t u \<Longrightarrow> printed (a @ b) s u"
  unfolding printed_def by (elim conjE exE) (intro conjI exI, simp_all)

lemma printed_refl: "can_print s \<Longrightarrow> printed [] s s"
  unfolding printed_def by (intro conjI exI[of _ "csr s"] exI[of _ "cpus s"]) simp_all

lemma push_off_frame: "\<exists>cs cp. push_off s = s\<lparr>csr := cs, cpus := cp\<rparr> \<and> cpu_proc (cp (hart s)) = cpu_proc (cpus s (hart s))"
proof -
  have "push_off s = s\<lparr>csr := csr (push_off s), cpus := cpus (push_off s)\<rparr>"
    and "cpu_proc (cpus (push_off s) (hart s)) = cpu_proc (cpus s (hart s))"
    by (simp_all add: push_off_def hart_defs Let_def)
  then show ?thesis by blast
qed

lemma pop_off_Ok:
  assumes "\<not> sie s (hart s)" and "1 \<le> sint (noff (cpus s (hart s)))"
  shows "\<exists>cs cp. pop_off s = Ok () (s\<lparr>csr := cs, cpus := cp\<rparr>) \<and> cpu_proc (cp (hart s)) = cpu_proc (cpus s (hart s))"
proof -
  have "\<not> intr_get s" "\<not> sint (noff (mycpu s)) < 1" using assms by (simp_all add: sie_def hart_defs)
  then obtain t where t: "pop_off s = Ok () t" unfolding pop_off_def by (simp add: Let_def) (metis (full_types))
  then have "t = s\<lparr>csr := csr t, cpus := cpus t\<rparr>" "cpu_proc (cpus t (hart s)) = cpu_proc (cpus s (hart s))"
    by (auto simp: pop_off_def hart_defs Let_def split: if_splits)
  with t show ?thesis by metis
qed

lemma uartputc_sync_Ok:
  assumes "can_print s"
  shows "\<exists>t. uartputc_sync c s = Ok () t \<and> printed [c] s t"
proof -
  let ?n = "noff (cpus s (hart s))"
  have n: "panicked s = 0" "0 \<le> sint ?n" "sint ?n < 2 ^ 31 - 1" using assms by (auto simp: can_print_def mycpu_def cpuid_def)
  then have i: "sint (?n + 1) = sint ?n + 1" by (intro sint_inc) simp
  obtain cs cp where a: "push_off s = s\<lparr>csr := cs, cpus := cp\<rparr>" "cpu_proc (cp (hart s)) = cpu_proc (cpus s (hart s))"
    using push_off_frame by blast
  have e: "noff (cp (hart s)) = ?n + 1" "\<not> has (sstatus (cs (hart s))) SSTATUS_SIE"
    using push_off_effect(3,4)[of s "hart s"] by (simp_all add: a sie_def)
  let ?s = "s\<lparr>csr := cs, cpus := cp, uart_tx := uart_tx s @ [c]\<rparr>"
  obtain cs' cp' where b: "pop_off ?s = Ok () (?s\<lparr>csr := cs', cpus := cp'\<rparr>)" "cpu_proc (cp' (hart s)) = cpu_proc (cp (hart s))"
    using pop_off_Ok[of ?s] e i n by (auto simp: sie_def)
  have "noff (cp' (hart s)) = ?n" using pop_off_effect(5)[OF b(1), of "hart s"] e by simp
  moreover have "?s\<lparr>csr := cs', cpus := cp'\<rparr> = s\<lparr>csr := cs', cpus := cp', uart_tx := uart_tx s @ [c]\<rparr>" by simp
  ultimately have "printed [c] s (?s\<lparr>csr := cs', cpus := cp'\<rparr>)" unfolding printed_def
    using n a(2) b(2) by (intro conjI exI) (assumption, simp_all add: can_print_def myproc_def mycpu_def cpuid_def)
  then show ?thesis using n a(1) b(1) by (simp add: uartputc_sync_def)
qed

lemma consputc_Ok:
  assumes "can_print s"
  shows "\<exists>t. consputc c s = Ok () t \<and> printed (if c = BACKSPACE then [8, 32, 8] else [of_nat c]) s t"
proof (cases "c = BACKSPACE")
  case True
  obtain t where t: "uartputc_sync 8 s = Ok () t" "printed [8] s t" using uartputc_sync_Ok[OF assms] by blast
  then have "can_print t" by (simp add: printed_def)
  then obtain u where u: "uartputc_sync 32 t = Ok () u" "printed [32] t u" using uartputc_sync_Ok by blast
  then have "can_print u" by (simp add: printed_def)
  then obtain v where v: "uartputc_sync 8 u = Ok () v" "printed [8] u v" using uartputc_sync_Ok by blast
  show ?thesis using True t u v printed_trans[OF printed_trans[OF t(2) u(2)] v(2)] by (simp add: consputc_def)
qed (use uartputc_sync_Ok[OF assms, of "of_nat c"] in \<open>simp add: consputc_def\<close>)

lemma loop_consputc_Ok: "can_print s \<Longrightarrow> \<exists>t. loop (\<lambda>c. consputc (unat c)) out s = Ok () t \<and> printed out s t"
proof (induction out arbitrary: s)
  case (Cons c out)
  have "unat c \<noteq> BACKSPACE" using unsigned_less[of c, where ?'a = nat] by simp
  then obtain t where t: "consputc (unat c) s = Ok () t" "printed [c] s t" using consputc_Ok[OF Cons.prems, of "unat c"] by auto
  then have "can_print t" by (simp add: printed_def)
  with Cons.IH obtain u where u: "loop (\<lambda>c. consputc (unat c)) out t = Ok () u" "printed out t u" by blast
  show ?case using t u printed_trans[OF t(2) u(2)] by simp
qed (simp add: printed_refl)

lemma printf_Ok: "can_print s \<Longrightarrow> format fmt args = Some out \<Longrightarrow> \<exists>t. printf fmt args s = Ok () t \<and> printed out s t"
  using loop_consputc_Ok by (simp add: printf_def)

lemma loop_printed:
  assumes "\<And>i s. i \<in> set xs \<Longrightarrow> can_print s \<Longrightarrow> I s \<Longrightarrow> \<exists>t out. body i s = Ok () t \<and> printed out s t"
    and "\<And>out s t. printed out s t \<Longrightarrow> I s \<Longrightarrow> I t"
  shows "can_print s \<Longrightarrow> I s \<Longrightarrow> \<exists>t out. loop body xs s = Ok () t \<and> printed out s t"
  using assms(1)
proof (induction xs arbitrary: s)
  case (Cons i xs)
  obtain t out where t: "body i s = Ok () t" "printed out s t" using Cons.prems by (metis list.set_intros(1))
  have "can_print t" "I t" using t(2) assms(2)[OF t(2) Cons.prems(2)] by (simp_all add: printed_def)
  with Cons obtain u out' where u: "loop body xs t = Ok () u" "printed out' t u" by (metis list.set_intros(2))
  show ?case using t u printed_trans[OF t(2) u(2)] by auto
qed (use printed_refl in auto)

text \<open>On a hart whose interrupts are off inside brackets, printing sends the bytes and leaves all else as one bracket leaves it.\<close>

lemma uartputc_sync_quiet:
  assumes "quiet s" and "panicked s = 0"
  shows "uartputc_sync c s = Ok () ((settled s)\<lparr>uart_tx := uart_tx s @ [c]\<rparr>)"
proof -
  have p: "pop_off (s\<lparr>uart_tx := u\<rparr>) = bnd (pop_off s) (\<lambda>_ s. Ok () (s\<lparr>uart_tx := u\<rparr>))" for s :: "'a harts_scheme" and u
    by (simp add: pop_off_def hart_defs Let_def)
  have "panicked (push_off s) = 0" "uart_tx (push_off s) = uart_tx s" using assms(2) by (simp_all add: push_off_def hart_defs Let_def)
  then show ?thesis using pop_push[OF assms(1)] by (simp add: uartputc_sync_def Let_def p)
qed

lemma settled_tx: "settled (s\<lparr>uart_tx := u\<rparr>) = (settled s)\<lparr>uart_tx := u\<rparr>" "quiet (s\<lparr>uart_tx := u\<rparr>) = quiet s"
  by (simp_all add: settled_def quiet_def hart_defs)

lemma printf_quiet:
  assumes "quiet s" and "panicked s = 0" and "format fmt args = Some out" and "out \<noteq> []"
  shows "printf fmt args s = Ok () ((settled s)\<lparr>uart_tx := uart_tx s @ out\<rparr>)"
proof -
  have "loop (\<lambda>c. consputc (unat c)) (c # out) s = Ok () ((settled s)\<lparr>uart_tx := uart_tx s @ c # out\<rparr>)"
    if "quiet s" "panicked s = 0" for c out and s :: "'a harts_scheme"
    using that
  proof (induction out arbitrary: c s)
    case Nil
    have "unat c \<noteq> BACKSPACE" using unsigned_less[of c, where ?'a = nat] by simp
    with Nil show ?case by (simp add: consputc_def uartputc_sync_quiet)
  next
    case (Cons d out)
    have "unat c \<noteq> BACKSPACE" using unsigned_less[of c, where ?'a = nat] by simp
    then show ?case using Cons.prems Cons.IH[of "(settled s)\<lparr>uart_tx := uart_tx s @ [c]\<rparr>" d]
      by (simp add: consputc_def uartputc_sync_quiet settled_tx)
  qed
  then show ?thesis using assms by (cases out) (simp_all add: printf_def)
qed

section \<open>What a number prints as\<close>

lemma uint_cint: "uint x = sint x mod 2 ^ 32" for x :: cint
  using uint_sint[of x] by (simp add: take_bit_eq_mod)

lemma uint_neg_cint: "sint x < 0 \<Longrightarrow> uint (- x) = - sint x" for x :: cint
proof -
  assume a: "sint x < 0"
  have "uint (- x) = (- uint x) mod 2 ^ 32" by (simp add: uint_word_ariths)
  also have "\<dots> = (- sint x) mod 2 ^ 32" unfolding uint_cint[of x] by (rule mod_minus_eq)
  also have "\<dots> = - sint x" using a sint_cint[of x] by (intro mod_pos_pos_trivial) auto
  finally show ?thesis .
qed

lemma uint_nonneg_cint: "0 \<le> sint x \<Longrightarrow> uint x = sint x" for x :: cint
  unfolding uint_cint using sint_cint(2)[of x] by (intro mod_pos_pos_trivial) auto

lemma digits_ok:
  assumes "2 \<le> base" and "base \<le> 16"
  shows "print_digits base x \<noteq> []" and "c \<in> set (print_digits base x) \<Longrightarrow> c \<in> digit ` {..<base}"
    and "x \<noteq> 0 \<Longrightarrow> last (print_digits base x) \<noteq> 48" and "x = 0 \<Longrightarrow> print_digits base x = [48]"
proof -
  show "print_digits base x \<noteq> []" using assms by (subst print_digits.simps) simp
  show "x = 0 \<Longrightarrow> print_digits base x = [48]" using assms by (subst print_digits.simps) (simp add: digit_def)
  have "(c \<in> set (print_digits base x) \<longrightarrow> c \<in> digit ` {..<base}) \<and> (x \<noteq> 0 \<longrightarrow> last (print_digits base x) \<noteq> 48)"
  proof (induction x rule: less_induct)
    case (less x)
    have m: "x mod base < base" using assms(1) by simp
    show ?case
    proof (cases "x div base = 0")
      case True
      then have "x < base" using assms by (simp add: div_eq_0_iff)
      moreover have "digit x \<noteq> 48" if "x \<noteq> 0" "x < base" for x
        using that assms(2) digit_value_digit[of x] by (auto simp: digit_value_def)
      ultimately show ?thesis using True assms(1) by (auto simp: print_digits.simps[of base x])
    next
      case False
      then have "x div base < x" using assms by (intro div_less_dividend) (auto intro: gr0I)
      from less.IH[OF this] False m assms(1) show ?thesis
        by (auto simp: print_digits.simps[of base x] print_digits.simps[of base "x div base"])
    qed
  qed
  then show "c \<in> set (print_digits base x) \<Longrightarrow> c \<in> digit ` {..<base}" "x \<noteq> 0 \<Longrightarrow> last (print_digits base x) \<noteq> 48" by blast+
qed

lemma printint_buf_None: "printint_buf xx base sign = None \<longleftrightarrow> sign \<and> sint xx = - (2 ^ 31)"
  using sint_cint[of xx] by (auto simp: printint_buf_def Let_def bind_eq_None_conv int_fits_None split: if_splits)

lemma printint_Some: "sint xx \<noteq> - (2 ^ 31) \<Longrightarrow> \<exists>out. printint xx base True = Some out"
  using printint_buf_None[of xx base True] by (auto simp: printint_def)

text \<open>C25: What \<^verbatim>\<open>printint\<close> prints for a signed number, in base 10 or 16, is the numeral of that number: a minus sign exactly for a
  negative one, then at least one digit, no leading zero but for the number 0 itself, and digits whose value is its absolute value. The
  least integer is excepted: for it, and only for it, the negation in \<^verbatim>\<open>printint\<close> overflows.
\<close>

theorem printint_value:
  assumes "base \<in> {10, 16}"
  shows "case printint xx base True of
      None \<Rightarrow> sint xx = - (2 ^ 31)
    | Some out \<Rightarrow> sint xx \<noteq> - (2 ^ 31) \<and> (\<exists>ds. out = (if sint xx < 0 then [45] else []) @ ds \<and> ds \<noteq> [] \<and> set ds \<subseteq> digit ` {..<base}
        \<and> (hd ds = 48 \<longrightarrow> ds = [48]) \<and> int (numeral_value base ds) = \<bar>sint xx\<bar>)"
proof (cases "sint xx = - (2 ^ 31)")
  case True
  then have "printint xx base True = None" using printint_buf_None[of xx base True] by (simp add: printint_def)
  then show ?thesis using True by simp
next
  case False
  have b: "2 \<le> base" "base \<le> 16" using assms by auto
  obtain x where x: "(if sint xx < 0 then int_fits (- sint xx) else Some xx) = Some x" "int (unat x) = \<bar>sint xx\<bar>"
  proof (cases "sint xx < 0")
    case True
    then obtain y where "int_fits (- sint xx) = Some y" using False sint_cint[of xx] int_fits_None[of "- sint xx"] by fastforce
    moreover from this have "uint y = - sint xx" using True int_fits_Some[of "- sint xx" y] uint_nonneg_cint[of y] by auto
    ultimately show ?thesis using that[of y] True by simp
  next
    case f: False
    then show ?thesis using that[of xx] uint_nonneg_cint[of xx] by simp
  qed
  let ?ds = "rev (print_digits base (unat x))"
  have out: "printint xx base True = Some ((if sint xx < 0 then [45] else []) @ ?ds)"
    using x(1) by (simp add: printint_def printint_buf_def Let_def split: if_splits)
  have h: "hd ?ds = 48 \<longrightarrow> ?ds = [48]" using digits_ok(1)[OF b, of "unat x"] digits_ok(3)[OF b, of "unat x"] digits_ok(4)[OF b, of "unat x"] by (cases "unat x = 0") (auto simp: hd_rev)
  have "?ds \<noteq> []" "set ?ds \<subseteq> digit ` {..<base}" using digits_ok(1)[OF b, of "unat x"] digits_ok(2)[OF b, of _ "unat x"] by auto
  moreover have "int (numeral_value base ?ds) = \<bar>sint xx\<bar>" unfolding numeral_value_digits[OF b] by (rule x(2))
  ultimately show ?thesis using out h False unfolding out option.case by blast
qed

theorem printint_value_witness:
  "\<exists>ds. printint (- 120) 10 True = Some (45 # ds) \<and> numeral_value 10 ds = 120 \<and> hd ds \<noteq> 48"
proof -
  have s: "sint (- 120 :: cint) = - 120" by simp
  have "(10 :: nat) \<in> {10, 16}" by simp
  from printint_value[OF this, of "- 120"] obtain ds where
    "printint (- 120) 10 True = Some (45 # ds)" "hd ds = 48 \<longrightarrow> ds = [48]" "int (numeral_value 10 ds) = 120"
    by (auto simp: s split: option.splits)
  then show ?thesis by (intro exI[of _ ds]) (auto simp: numeral_value_def digit_value_def)
qed

text \<open>C26: \<^verbatim>\<open>printint\<close> never overruns its buffer of 16 characters: a number has at most ten decimal or eight
  hexadecimal digits and a sign. Only the least integer, printed as a signed number, has no defined contents.
\<close>

theorem printint_in_buf:
  "(case printint_buf xx 10 sign of None \<Rightarrow> sign \<and> sint xx = - (2 ^ 31) | Some buf \<Rightarrow> 1 \<le> length buf \<and> length buf \<le> 11)
   \<and> (case printint_buf xx 16 sign of None \<Rightarrow> sign \<and> sint xx = - (2 ^ 31) | Some buf \<Rightarrow> 1 \<le> length buf \<and> length buf \<le> 9)"
proof -
  have u: "unat (y :: cint) < 10 ^ 10" "unat y < 16 ^ 8" for y using unat_u32[of y] by simp_all
  have d: "length (print_digits 10 (unat y)) \<le> 10" "length (print_digits 16 (unat y)) \<le> 8" for y :: cint
    using u[of y] by (auto intro: print_digits_length)
  have p: "1 \<le> length (print_digits 10 (unat y))" "1 \<le> length (print_digits 16 (unat y))" for y :: cint
    using digits_ok(1)[of 10 "unat y"] digits_ok(1)[of 16 "unat y"] by (simp_all add: Suc_le_eq)
  have len: "\<exists>y :: cint. length buf = length (print_digits base (unat y)) \<or> length buf = length (print_digits base (unat y)) + 1"
    if "printint_buf xx base sign = Some buf" for base buf
    using that by (fastforce simp: printint_buf_def Let_def bind_eq_Some_conv split: if_splits)
  have "1 \<le> length buf \<and> length buf \<le> 11" if b: "printint_buf xx 10 sign = Some buf" for buf
  proof -
    obtain y :: cint where "length buf = length (print_digits 10 (unat y)) \<or> length buf = length (print_digits 10 (unat y)) + 1" using len[OF b] by blast
    then show ?thesis using d(1)[of y] p(1)[of y] by linarith
  qed
  moreover have "1 \<le> length buf \<and> length buf \<le> 9" if b: "printint_buf xx 16 sign = Some buf" for buf
  proof -
    obtain y :: cint where "length buf = length (print_digits 16 (unat y)) \<or> length buf = length (print_digits 16 (unat y)) + 1" using len[OF b] by blast
    then show ?thesis using d(2)[of y] p(2)[of y] by linarith
  qed
  ultimately show ?thesis using printint_buf_None[of xx 10 sign] printint_buf_None[of xx 16 sign] by (simp split: option.splits)
qed

end
