(* ===== verification/Bytes.thy ===== *)
theory Bytes
  imports Prelude
begin

text \<open>
  Integers as little-endian bytes of a buffer, as the C code reads and writes them through pointers to structures:
  the fields of on-disk structures and of the values copied to user memory. A field that was stored is what is
  read back, and storing a field leaves the bytes outside it alone.
\<close>

definition bytes16 :: "u16 \<Rightarrow> u8 list" where
  "bytes16 w = map (\<lambda>i. ucast (drop_bit (8 * i) w)) [0..<2]"

definition bytes32 :: "u32 \<Rightarrow> u8 list" where
  "bytes32 w = map (\<lambda>i. ucast (drop_bit (8 * i) w)) [0..<4]"

definition bytes64 :: "u64 \<Rightarrow> u8 list" where
  "bytes64 w = map (\<lambda>i. ucast (drop_bit (8 * i) w)) [0..<8]"

definition get_bytes :: "nat \<Rightarrow> nat \<Rightarrow> u8 list \<Rightarrow> u8 list" where
  "get_bytes off n d = take n (drop off d)"

definition put_bytes :: "nat \<Rightarrow> u8 list \<Rightarrow> u8 list \<Rightarrow> u8 list" where
  "put_bytes off bs d = take off d @ bs @ drop (off + length bs) d"

definition get16 :: "nat \<Rightarrow> u8 list \<Rightarrow> u16" where
  "get16 off d = word_rcat (rev (get_bytes off 2 d))"

definition get32 :: "nat \<Rightarrow> u8 list \<Rightarrow> u32" where
  "get32 off d = word_rcat (rev (get_bytes off 4 d))"

definition get64 :: "nat \<Rightarrow> u8 list \<Rightarrow> u64" where
  "get64 off d = word_rcat (rev (get_bytes off 8 d))"

lemma length_bytes [simp]: "length (bytes16 h) = 2" "length (bytes32 w) = 4" "length (bytes64 x) = 8"
  by (simp_all add: bytes16_def bytes32_def bytes64_def)

lemma bit_word_rcat_rev: "bit (word_rcat (rev bs) :: 'a :: len word) n \<longleftrightarrow> n < LENGTH('a) \<and> n div 8 < length bs \<and> bit (bs ! (n div 8)) (n mod 8)"
  for bs :: "u8 list"
proof -
  have "bit (horner_sum uint (2 ^ LENGTH(8)) bs) n \<longleftrightarrow> n div 8 < length bs \<and> bit (bs ! (n div 8)) (n mod 8)"
    using bit_horner_sum_uint_exp_iff[of bs n] by simp
  then show ?thesis by (auto simp: word_rcat_def bit_simps)
qed

lemma rcat_bytes16: "word_rcat (rev (bytes16 w)) = w"
  by (rule bit_word_eqI) (simp add: bit_word_rcat_rev bytes16_def bit_simps less_mult_imp_div_less)

lemma rcat_bytes32: "word_rcat (rev (bytes32 w)) = w"
  by (rule bit_word_eqI) (simp add: bit_word_rcat_rev bytes32_def bit_simps less_mult_imp_div_less)

lemma rcat_bytes64: "word_rcat (rev (bytes64 w)) = w"
  by (rule bit_word_eqI) (simp add: bit_word_rcat_rev bytes64_def bit_simps less_mult_imp_div_less)

lemma length_put_bytes [simp]: "off + length bs \<le> length d \<Longrightarrow> length (put_bytes off bs d) = length d"
  by (simp add: put_bytes_def)

lemma get_put_bytes [simp]: "off + length bs \<le> length d \<Longrightarrow> get_bytes off (length bs) (put_bytes off bs d) = bs"
  by (simp add: put_bytes_def get_bytes_def)

lemma nth_put_bytes:
  assumes "off + length bs \<le> length d" and "i < length d"
  shows "put_bytes off bs d ! i = (if off \<le> i \<and> i < off + length bs then bs ! (i - off) else d ! i)"
  using assms by (auto simp: put_bytes_def nth_append)

lemma get_put_bytes_other:
  assumes "off + length bs \<le> length d" and "k + n \<le> off \<or> off + length bs \<le> k"
  shows "get_bytes k n (put_bytes off bs d) = get_bytes k n d"
proof (rule nth_equalityI)
  show l: "length (get_bytes k n (put_bytes off bs d)) = length (get_bytes k n d)" using assms by (simp add: get_bytes_def)
  fix i assume "i < length (get_bytes k n (put_bytes off bs d))"
  then have i: "i < n" "k + i < length d" using assms by (auto simp: get_bytes_def)
  then have "put_bytes off bs d ! (k + i) = d ! (k + i)" using assms by (auto simp: nth_put_bytes)
  then show "get_bytes k n (put_bytes off bs d) ! i = get_bytes k n d ! i"
    using i assms by (simp add: get_bytes_def)
qed

lemma get32_put32 [simp]: "off + 4 \<le> length d \<Longrightarrow> get32 off (put_bytes off (bytes32 w) d) = w"
  using get_put_bytes[of off "bytes32 w" d] by (simp add: get32_def rcat_bytes32)

lemma get16_put16 [simp]: "off + 2 \<le> length d \<Longrightarrow> get16 off (put_bytes off (bytes16 w) d) = w"
  using get_put_bytes[of off "bytes16 w" d] by (simp add: get16_def rcat_bytes16)

lemma get64_put64 [simp]: "off + 8 \<le> length d \<Longrightarrow> get64 off (put_bytes off (bytes64 w) d) = w"
  using get_put_bytes[of off "bytes64 w" d] by (simp add: get64_def rcat_bytes64)

lemma get32_other:
  "off + length bs \<le> length d \<Longrightarrow> k + 4 \<le> off \<or> off + length bs \<le> k \<Longrightarrow> get32 k (put_bytes off bs d) = get32 k d"
  by (simp add: get32_def get_put_bytes_other)

lemma get16_other:
  "off + length bs \<le> length d \<Longrightarrow> k + 2 \<le> off \<or> off + length bs \<le> k \<Longrightarrow> get16 k (put_bytes off bs d) = get16 k d"
  by (simp add: get16_def get_put_bytes_other)

end
