(* ===== verification/Proc.thy ===== *)
theory Proc
  imports Printf Bytes
begin

text \<open>
  The process table, \<^verbatim>\<open>kernel/proc.c\<close>, up to the file system: process slots, their page tables, growing a process,
  waiting for children, sleeping and waking, killing, and the copies to and from user or kernel memory. (\<^verbatim>\<open>userinit\<close>,
  \<^verbatim>\<open>fork\<close> and \<^verbatim>\<open>exit\<close> also touch files and inodes: see \<open>Fork\<close>. The schedulers are in \<open>Sched\<close>.)

  A \<^verbatim>\<open>struct proc *\<close> is an index of the table, \<open>None\<close> the null pointer; so are \<^verbatim>\<open>struct file *\<close> and \<^verbatim>\<open>struct inode *\<close>. The
  trap frame is a page of physical memory, read and written at the offsets of its fields. A call runs
  without interruption between the points where it sleeps: the spin locks that make this so (\<open>Spinlock\<close>) are left
  out here. \<^verbatim>\<open>sleep\<close> gives the outcome \<open>Sleep\<close>, with the state the sleeping process leaves behind; when it is run again, it
  clears its channel (\<open>sleep_return\<close>) and goes round the loop it slept in.
\<close>

section \<open>The structures of proc.h\<close>

datatype tfreg =
    TF_kernel_satp | TF_kernel_sp | TF_kernel_trap | TF_epc | TF_kernel_hartid | TF_ra | TF_sp | TF_gp | TF_tp | TF_t0 | TF_t1 | TF_t2 | TF_s0 | TF_s1
  | TF_a0 | TF_a1 | TF_a2 | TF_a3 | TF_a4 | TF_a5 | TF_a6 | TF_a7 | TF_s2 | TF_s3 | TF_s4 | TF_s5 | TF_s6 | TF_s7 | TF_s8 | TF_s9 | TF_s10 | TF_s11 | TF_t3 | TF_t4 | TF_t5 | TF_t6

primrec tf_off :: "tfreg \<Rightarrow> u64" where
  "tf_off TF_kernel_satp = 0" | "tf_off TF_kernel_sp = 8" | "tf_off TF_kernel_trap = 16" | "tf_off TF_epc = 24"
| "tf_off TF_kernel_hartid = 32" | "tf_off TF_ra = 40" | "tf_off TF_sp = 48" | "tf_off TF_gp = 56" | "tf_off TF_tp = 64"
| "tf_off TF_t0 = 72" | "tf_off TF_t1 = 80" | "tf_off TF_t2 = 88" | "tf_off TF_s0 = 96" | "tf_off TF_s1 = 104"
| "tf_off TF_a0 = 112" | "tf_off TF_a1 = 120" | "tf_off TF_a2 = 128" | "tf_off TF_a3 = 136" | "tf_off TF_a4 = 144"
| "tf_off TF_a5 = 152" | "tf_off TF_a6 = 160" | "tf_off TF_a7 = 168" | "tf_off TF_s2 = 176" | "tf_off TF_s3 = 184"
| "tf_off TF_s4 = 192" | "tf_off TF_s5 = 200" | "tf_off TF_s6 = 208" | "tf_off TF_s7 = 216" | "tf_off TF_s8 = 224"
| "tf_off TF_s9 = 232" | "tf_off TF_s10 = 240" | "tf_off TF_s11 = 248" | "tf_off TF_t3 = 256" | "tf_off TF_t4 = 264"
| "tf_off TF_t5 = 272" | "tf_off TF_t6 = 280"

abbreviation (input) TRAPFRAME_SIZE :: nat where "TRAPFRAME_SIZE \<equiv> 288"

datatype procstate = UNUSED | USED | SLEEPING | RUNNABLE | RUNNING | ZOMBIE

record proc =
  p_state :: procstate
  p_chan :: "chan option"
  p_killed :: cint
  p_xstate :: cint
  p_pid :: cint
  p_parent :: "nat option"
  p_kstack :: u64
  p_sz :: u64
  p_pagetable :: u64
  p_trapframe :: u64
  p_context :: ctx
  p_ofile :: "nat \<Rightarrow> nat option"
  p_cwd :: "nat option"
  p_name :: "u8 list"
  trace_mask :: cint
  rtime :: u32
  ctime :: u32
  etime :: u32
  static_priority :: cint
  when_started_sleeping :: u32
  sleep_time :: u32
  tickets :: u32
  queue_id :: cint
  last_wait_time :: cint
  inqueue :: cint
  change_queue :: cint
  alarm_handler :: u64
  alarm_flag :: cint
  alarm_ticks :: cint
  alarm_ticks_left :: cint
  alarm_saved_tf :: u64

record procs = harts +
  ptable :: "nat \<Rightarrow> proc"
  initproc :: "nat option"
  nextpid :: cint
  ticks :: u32
  mlfq_lengths :: "nat \<Rightarrow> cint"
  mlfq_rears :: "nat \<Rightarrow> cint"

section \<open>Access to the table\<close>

definition upd_proc :: "nat \<Rightarrow> (proc \<Rightarrow> proc) \<Rightarrow> 'z procs_scheme \<Rightarrow> 'z procs_scheme" where
  "upd_proc p f s = s\<lparr>ptable := (ptable s)(p := f (ptable s p))\<rparr>"

text \<open>A loop \<^verbatim>\<open>for(p = proc; p < &proc[NPROC]; p++)\<close> whose body changes only \<^verbatim>\<open>*p\<close>.\<close>

definition each_proc :: "(nat \<Rightarrow> proc \<Rightarrow> proc) \<Rightarrow> 'z procs_scheme \<Rightarrow> 'z procs_scheme" where
  "each_proc f s = s\<lparr>ptable := (\<lambda>p. if p < NPROC then f p (ptable s p) else ptable s p)\<rparr>"

text \<open>The current process of a function that dereferences \<^verbatim>\<open>myproc()\<close>.\<close>

definition with_proc :: "(nat \<Rightarrow> 'z procs_scheme \<Rightarrow> ('z procs_scheme, 'a) res) \<Rightarrow> 'z procs_scheme \<Rightarrow> ('z procs_scheme, 'a) res" where
  "with_proc f s = (case myproc s of None \<Rightarrow> Undef ''myproc() is null'' | Some p \<Rightarrow> f p s)"

definition tf_get :: "nat \<Rightarrow> tfreg \<Rightarrow> 'z procs_scheme \<Rightarrow> u64" where
  "tf_get p r s = load64 (mem s) (p_trapframe (ptable s p) + tf_off r)"

definition tf_set :: "nat \<Rightarrow> tfreg \<Rightarrow> u64 \<Rightarrow> 'z procs_scheme \<Rightarrow> 'z procs_scheme" where
  "tf_set p r v s = s\<lparr>mem := store64 (mem s) (p_trapframe (ptable s p) + tf_off r) v\<rparr>"

section \<open>Process slots\<close>

definition procinit :: "'z procs_scheme \<Rightarrow> 'z procs_scheme" where
  "procinit s =
     (let s = each_proc (\<lambda>p q. q\<lparr>p_state := UNUSED, p_kstack := KSTACK p\<rparr>) s in
      s\<lparr>mlfq_lengths := (\<lambda>i. if i < 5 then 0 else mlfq_lengths s i), mlfq_rears := (\<lambda>i. if i < 5 then 0 else mlfq_rears s i)\<rparr>)"

definition allocpid :: "'z procs_scheme \<Rightarrow> cint \<times> 'z procs_scheme" where
  "allocpid s = (nextpid s, s\<lparr>nextpid := nextpid s + 1\<rparr>)"

definition proc_freepagetable :: "u64 \<Rightarrow> u64 \<Rightarrow> 'z procs_scheme \<Rightarrow> ('z procs_scheme, unit) res" where
  "proc_freepagetable pagetable sz s =
     bnd (uvmunmap pagetable TRAMPOLINE 1 False s) (\<lambda>_ s.
     bnd (uvmunmap pagetable TRAPFRAME 1 False s) (\<lambda>_ s.
     uvmfree pagetable sz s))"

definition freeproc :: "nat \<Rightarrow> 'z procs_scheme \<Rightarrow> ('z procs_scheme, unit) res" where
  "freeproc p s =
     bnd (if p_trapframe (ptable s p) \<noteq> 0 then kfree (p_trapframe (ptable s p)) s else Ok () s) (\<lambda>_ s.
     let s = upd_proc p (\<lambda>q. q\<lparr>p_trapframe := 0\<rparr>) s in
     bnd (if p_pagetable (ptable s p) \<noteq> 0 then proc_freepagetable (p_pagetable (ptable s p)) (p_sz (ptable s p)) s else Ok () s) (\<lambda>_ s.
     Ok () (upd_proc p (\<lambda>q. q\<lparr>p_pagetable := 0, p_sz := 0, p_pid := 0, p_parent := None, p_name := (p_name q)[0 := 0],
       p_chan := None, p_killed := 0, p_xstate := 0, p_state := UNUSED, trace_mask := 0\<rparr>) s)))"

definition proc_pagetable :: "nat \<Rightarrow> 'z procs_scheme \<Rightarrow> ('z procs_scheme, u64) res" where
  "proc_pagetable p s =
     bnd (uvmcreate s) (\<lambda>pagetable s.
       if pagetable = 0 then Ok 0 s
       else bnd (mappages pagetable TRAMPOLINE PGSIZE (sym_trampoline (syms s)) (PTE_R OR PTE_X) s) (\<lambda>r s.
         if sint r < 0 then bnd (uvmfree pagetable 0 s) (\<lambda>_ s. Ok 0 s)
         else bnd (mappages pagetable TRAPFRAME PGSIZE (p_trapframe (ptable s p)) (PTE_R OR PTE_W) s) (\<lambda>r s.
           if sint r < 0 then
             bnd (uvmunmap pagetable TRAMPOLINE 1 False s) (\<lambda>_ s.
             bnd (uvmfree pagetable 0 s) (\<lambda>_ s. Ok 0 s))
           else Ok pagetable s)))"

definition allocproc :: "'z procs_scheme \<Rightarrow> ('z procs_scheme, nat option) res" where
  "allocproc s =
     (case first_index (\<lambda>p. p_state (ptable s p) = UNUSED) NPROC of
        None \<Rightarrow> Ok None s
      | Some p \<Rightarrow>
          let (pid, s) = allocpid s;
              s = upd_proc p (\<lambda>q. q\<lparr>p_pid := pid\<rparr>) s in
          bnd (kalloc s) (\<lambda>tf s.
          let s = upd_proc p (\<lambda>q. q\<lparr>p_trapframe := tf\<rparr>) s in
          if tf = 0 then bnd (freeproc p s) (\<lambda>_ s. Ok None s)
          else bnd (proc_pagetable p s) (\<lambda>pt s.
            let s = upd_proc p (\<lambda>q. q\<lparr>p_pagetable := pt\<rparr>) s in
            if pt = 0 then bnd (freeproc p s) (\<lambda>_ s. Ok None s)
            else Ok (Some p) (upd_proc p (\<lambda>q. q\<lparr>
                p_context := \<lparr>c_ra = sym_forkret (syms s), c_sp = p_kstack q + PGSIZE, c_s = replicate 12 0\<rparr>,
                rtime := 0, etime := 0, ctime := ticks s, static_priority := 60, when_started_sleeping := 0,
                sleep_time := 0, tickets := 1, queue_id := 0, inqueue := 0, p_state := USED, alarm_flag := 0\<rparr>) s))))"

definition growproc :: "cint \<Rightarrow> 'z procs_scheme \<Rightarrow> ('z procs_scheme, cint) res" where
  "growproc n = with_proc (\<lambda>p s.
     let sz = p_sz (ptable s p);
         pt = p_pagetable (ptable s p) in
     if sint n > 0 then
       bnd (uvmalloc pt sz (sz + scast n) PTE_W s) (\<lambda>sz s.
         if sz = 0 then Ok (- 1) s else Ok 0 (upd_proc p (\<lambda>q. q\<lparr>p_sz := sz\<rparr>) s))
     else if sint n < 0 then
       bnd (uvmdealloc pt sz (sz + scast n) s) (\<lambda>sz s. Ok 0 (upd_proc p (\<lambda>q. q\<lparr>p_sz := sz\<rparr>) s))
     else Ok 0 (upd_proc p (\<lambda>q. q\<lparr>p_sz := sz\<rparr>) s))"

section \<open>Sleeping and waking\<close>

definition sleep :: "chan \<Rightarrow> 'z procs_scheme \<Rightarrow> ('z procs_scheme, 'a) res" where
  "sleep ch = with_proc (\<lambda>p s.
     Sleep ch (upd_proc p (\<lambda>q. q\<lparr>p_chan := Some ch, p_state := SLEEPING, when_started_sleeping := ticks s\<rparr>) s))"

text \<open>The rest of \<^verbatim>\<open>sleep\<close>, once the scheduler has given the process the CPU again.\<close>

definition sleep_return :: "'z procs_scheme \<Rightarrow> ('z procs_scheme, unit) res" where
  "sleep_return = with_proc (\<lambda>p s. Ok () (upd_proc p (\<lambda>q. q\<lparr>p_chan := None\<rparr>) s))"

definition wakeup :: "chan option \<Rightarrow> 'z procs_scheme \<Rightarrow> 'z procs_scheme" where
  "wakeup ch s = each_proc (\<lambda>p q.
     if myproc s \<noteq> Some p \<and> p_state q = SLEEPING \<and> p_chan q = ch
     then q\<lparr>sleep_time := sleep_time q + (ticks s - when_started_sleeping q), p_state := RUNNABLE\<rparr> else q) s"

definition setkilled :: "nat \<Rightarrow> 'z procs_scheme \<Rightarrow> 'z procs_scheme" where
  "setkilled p s = upd_proc p (\<lambda>q. q\<lparr>p_killed := 1\<rparr>) s"

definition killed :: "nat \<Rightarrow> 'z procs_scheme \<Rightarrow> cint" where
  "killed p s = p_killed (ptable s p)"

definition kill :: "cint \<Rightarrow> 'z procs_scheme \<Rightarrow> cint \<times> 'z procs_scheme" where
  "kill pid s =
     (case first_index (\<lambda>p. p_pid (ptable s p) = pid) NPROC of
        None \<Rightarrow> (- 1, s)
      | Some p \<Rightarrow> (0, upd_proc p (\<lambda>q. let q = q\<lparr>p_killed := 1\<rparr> in
          if p_state q = SLEEPING then q\<lparr>p_state := RUNNABLE\<rparr> else q) s))"

section \<open>Parents and children\<close>

definition reparent :: "nat \<Rightarrow> 'z procs_scheme \<Rightarrow> 'z procs_scheme" where
  "reparent p s = fold (\<lambda>pp s.
     if p_parent (ptable s pp) = Some p
     then wakeup (map_option Ch_proc (initproc s)) (upd_proc pp (\<lambda>q. q\<lparr>p_parent := initproc s\<rparr>) s)
     else s) [0..<NPROC] s"

text \<open>One round of the loop of \<^verbatim>\<open>wait\<close>: the child that has exited, or whether there is any child.\<close>

definition wait :: "u64 \<Rightarrow> 'z procs_scheme \<Rightarrow> ('z procs_scheme, cint) res" where
  "wait addr = with_proc (\<lambda>p s.
     case first_index (\<lambda>pp. p_parent (ptable s pp) = Some p \<and> p_state (ptable s pp) = ZOMBIE) NPROC of
       Some pp \<Rightarrow>
         let pid = p_pid (ptable s pp) in
         bnd (if addr \<noteq> 0 then copyout (p_pagetable (ptable s p)) addr (bytes32 (p_xstate (ptable s pp))) s else Ok 0 s) (\<lambda>r s.
           if sint r < 0 then Ok (- 1) s
           else bnd (freeproc pp s) (\<lambda>_ s. Ok pid s))
     | None \<Rightarrow>
         let havekids = (first_index (\<lambda>pp. p_parent (ptable s pp) = Some p) NPROC \<noteq> None) in
         if \<not> havekids \<or> killed p s \<noteq> 0 then Ok (- 1) s
         else sleep (Ch_proc p) s)"

text \<open>\<^verbatim>\<open>waitx\<close> also gives the values it stored through \<^verbatim>\<open>wtime\<close> and \<^verbatim>\<open>rtime\<close>, \<open>None\<close> when it stored none.\<close>

definition waitx :: "u64 \<Rightarrow> 'z procs_scheme \<Rightarrow> ('z procs_scheme, cint \<times> (u32 \<times> u32) option) res" where
  "waitx addr = with_proc (\<lambda>p s.
     case first_index (\<lambda>pp. p_parent (ptable s pp) = Some p \<and> p_state (ptable s pp) = ZOMBIE) NPROC of
       Some pp \<Rightarrow>
         let q = ptable s pp;
             pid = p_pid q;
             times = Some (etime q - ctime q - rtime q, rtime q) in
         bnd (if addr \<noteq> 0 then copyout (p_pagetable (ptable s p)) addr (bytes32 (p_xstate q)) s else Ok 0 s) (\<lambda>r s.
           if sint r < 0 then Ok (- 1, times) s
           else bnd (freeproc pp s) (\<lambda>_ s. Ok (pid, times) s))
     | None \<Rightarrow>
         let havekids = (first_index (\<lambda>pp. p_parent (ptable s pp) = Some p) NPROC \<noteq> None) in
         if \<not> havekids \<or> killed p s \<noteq> 0 then Ok (- 1, None) s
         else sleep (Ch_proc p) s)"

section \<open>Accounting and scheduling parameters\<close>

text \<open>\<open>algo\<close> is the \<^verbatim>\<open>SCHEDULING_ALGO\<close> the kernel was built with.\<close>

definition update_time :: "nat \<Rightarrow> 'z procs_scheme \<Rightarrow> 'z procs_scheme" where
  "update_time algo s = each_proc (\<lambda>p q.
     if p_state q = RUNNING then q\<lparr>rtime := rtime q + 1\<rparr>
     else if p_state q = SLEEPING then (if algo = 4 then q\<lparr>last_wait_time := last_wait_time q + 1\<rparr> else q)
     else if p_state q = RUNNABLE then (if algo = 4 then q\<lparr>last_wait_time := last_wait_time q + 1\<rparr> else q)
     else q) s"

definition set_priority :: "cint \<Rightarrow> cint \<Rightarrow> 'z procs_scheme \<Rightarrow> cint \<times> 'z procs_scheme" where
  "set_priority priority pid s =
     (fold (\<lambda>p old. if p_pid (ptable s p) = pid then static_priority (ptable s p) else old) [0..<NPROC] 0,
      each_proc (\<lambda>p q. if p_pid q = pid then q\<lparr>static_priority := priority\<rparr> else q) s)"

definition settickets :: "cint \<Rightarrow> cint \<Rightarrow> 'z procs_scheme \<Rightarrow> ('z procs_scheme, cint) res" where
  "settickets number pid = with_proc (\<lambda>p s. Ok pid (upd_proc p (\<lambda>q. q\<lparr>tickets := number\<rparr>) s))"

section \<open>Copies to and from user or kernel memory\<close>

text \<open>
  Where a copy goes or comes from: a user address, an address of kernel memory, or a local
  variable of the caller, which is a list of bytes.
\<close>

datatype dst = Dst_user u64 | Dst_mem u64 | Dst_local

datatype src = Src_user u64 | Src_mem u64 | Src_local "u8 list"

definition either_copyout :: "dst \<Rightarrow> u8 list \<Rightarrow> 'z procs_scheme \<Rightarrow> ('z procs_scheme, cint) res" where
  "either_copyout d bs = with_proc (\<lambda>p s.
     case d of
       Dst_user a \<Rightarrow> copyout (p_pagetable (ptable s p)) a bs s
     | Dst_mem a \<Rightarrow> Ok 0 (s\<lparr>mem := mwrite (mem s) a bs\<rparr>)
     | Dst_local \<Rightarrow> Ok 0 s)"

definition either_copyin :: "src \<Rightarrow> nat \<Rightarrow> 'z procs_scheme \<Rightarrow> ('z procs_scheme, cint \<times> u8 list) res" where
  "either_copyin d len = with_proc (\<lambda>p s.
     case d of
       Src_user a \<Rightarrow> copyin (p_pagetable (ptable s p)) a len s
     | Src_mem a \<Rightarrow> Ok (0, mread (mem s) a len) s
     | Src_local bs \<Rightarrow> Ok (0, take len bs) s)"

section \<open>A process table for the examples\<close>

definition demo_proc :: proc where
  "demo_proc = \<lparr>p_state = UNUSED, p_chan = None, p_killed = 0, p_xstate = 0, p_pid = 0, p_parent = None, p_kstack = 0,
     p_sz = 0, p_pagetable = 0, p_trapframe = 0, p_context = \<lparr>c_ra = 0, c_sp = 0, c_s = replicate 12 0\<rparr>,
     p_ofile = (\<lambda>_. None), p_cwd = None, p_name = replicate 16 0, trace_mask = 0, rtime = 0, ctime = 0, etime = 0,
     static_priority = 60, when_started_sleeping = 0, sleep_time = 0, tickets = 1, queue_id = 0, last_wait_time = 0,
     inqueue = 0, change_queue = 0, alarm_handler = 0, alarm_flag = 0, alarm_ticks = 0, alarm_ticks_left = 0, alarm_saved_tf = 0\<rparr>"

definition demo_procs :: "(nat \<Rightarrow> proc) \<Rightarrow> procs" where
  "demo_procs f = \<lparr>syms = syms demo_harts, mem = mem demo_harts, freelist = 0, refcnt = (\<lambda>_. 0), kernel_pagetable = 0, satp = 0,
     hart = 0, csr = csr demo_harts, cpus = cpus demo_harts, locks = locks demo_harts, uart_tx = [], panicked = 0,
     ptable = f, initproc = Some 0, nextpid = 3, ticks = 100, mlfq_lengths = (\<lambda>_. 0), mlfq_rears = (\<lambda>_. 0)\<rparr>"

lemma demo_procs_simps [simp]:
  "ptable (demo_procs f) = f" "ticks (demo_procs f) = 100" "hart (demo_procs f) = 0" "initproc (demo_procs f) = Some 0"
  "p_state demo_proc = UNUSED" "p_pid demo_proc = 0" "sleep_time demo_proc = 0" "rtime demo_proc = 0" "tickets demo_proc = 1"
  "p_parent demo_proc = None" "p_killed demo_proc = 0"
  by (simp_all add: demo_procs_def demo_proc_def)

end
