(* ===== verification/Sleeplock.thy ===== *)
theory Sleeplock
  imports Proc
begin

text \<open>
  Sleep locks, \<^verbatim>\<open>kernel/sleeplock.c\<close>. A sleep lock is a field of a buffer or of an inode: a pointer to it is the pair
  of the function that reads it in the state and the one that updates it, together with the
  channel its address stands for.
\<close>

record sleeplock =
  sl_locked :: u32
  sl_name :: string
  sl_pid :: cint

definition initsleeplock :: "string \<Rightarrow> sleeplock" where
  "initsleeplock name = \<lparr>sl_locked = 0, sl_name = name, sl_pid = 0\<rparr>"

type_synonym ('z) lk_get = "'z procs_scheme \<Rightarrow> sleeplock"
type_synonym ('z) lk_upd = "(sleeplock \<Rightarrow> sleeplock) \<Rightarrow> 'z procs_scheme \<Rightarrow> 'z procs_scheme"

definition acquiresleep :: "chan \<Rightarrow> 'z lk_get \<Rightarrow> 'z lk_upd \<Rightarrow> 'z procs_scheme \<Rightarrow> ('z procs_scheme, unit) res" where
  "acquiresleep ch get upd = with_proc (\<lambda>p s.
     if sl_locked (get s) \<noteq> 0 then sleep ch s
     else Ok () (upd (\<lambda>lk. lk\<lparr>sl_locked := 1, sl_pid := p_pid (ptable s p)\<rparr>) s))"

definition releasesleep :: "chan \<Rightarrow> 'z lk_upd \<Rightarrow> 'z procs_scheme \<Rightarrow> 'z procs_scheme" where
  "releasesleep ch upd s = wakeup (Some ch) (upd (\<lambda>lk. lk\<lparr>sl_locked := 0, sl_pid := 0\<rparr>) s)"

definition holdingsleep :: "'z lk_get \<Rightarrow> 'z procs_scheme \<Rightarrow> ('z procs_scheme, bool) res" where
  "holdingsleep get = with_proc (\<lambda>p s. Ok (sl_locked (get s) \<noteq> 0 \<and> sl_pid (get s) = p_pid (ptable s p)) s)"

end
