(* ===== verification/Ring.thy ===== *)
theory Ring
  imports Prelude
begin

text \<open>
  Ring buffers with free-running counters, the interface the pipe, the console input and the UART output share: a
  counter is a machine word that wraps around, the slot of a counter is its value modulo the size, and the contents are the
  bytes from the read counter up to the write counter. The size divides the range of the counter, so wrap-around loses
  nothing.
\<close>

definition ring_list :: "('l :: len word \<Rightarrow> nat) \<Rightarrow> (nat \<Rightarrow> u8) \<Rightarrow> 'l word \<Rightarrow> 'l word \<Rightarrow> u8 list" where
  "ring_list idx buf r w = map (\<lambda>i. buf (idx (r + of_nat i))) [0..<unat (w - r)]"

lemma unat_plus1: "unat d < 2 ^ LENGTH('l) - 1 \<Longrightarrow> unat (d + 1) = Suc (unat d)" for d :: "'l :: len word"
  by (simp add: unat_word_ariths)

lemma unat_minus1: "unat d = Suc n \<Longrightarrow> unat (d - 1) = n" for d :: "'l :: len word"
  by (subst unat_minus_one) auto

lemma of_nat_minus1: "unat d = Suc n \<Longrightarrow> of_nat n = d - 1" for d :: "'l :: len word"
  by (simp add: word_unat_eq_iff unat_minus1 unat_of_nat) (metis Suc_lessD mod_less unsigned_less)

locale ring =
  fixes N :: nat and idx :: "'l :: len word \<Rightarrow> nat"
  assumes idx_def: "idx c = unat c mod N" and size_pos: "0 < N" and size_dvd: "N dvd 2 ^ LENGTH('l)"
begin

abbreviation contents :: "(nat \<Rightarrow> u8) \<Rightarrow> 'l word \<Rightarrow> 'l word \<Rightarrow> u8 list" where
  "contents \<equiv> ring_list idx"

lemma idx_less: "idx c < N"
  using size_pos by (simp add: idx_def)

lemma idx_add: "idx (c + of_nat k) = (idx c + k) mod N"
proof -
  have "unat (c + of_nat k) mod N = (unat c + k) mod 2 ^ LENGTH('l) mod N"
    by (simp add: unat_word_ariths unat_of_nat mod_simps)
  also have "\<dots> = (unat c + k) mod N" using size_dvd by (simp add: mod_mod_cancel)
  finally show ?thesis by (simp add: idx_def mod_simps)
qed

lemma idx_inj:
  assumes "j < N" and "k < N" and "idx (c + of_nat j) = idx (c + of_nat k)"
  shows "j = k"
proof -
  have "(idx c + j) mod N = (idx c + k) mod N" using assms(3) by (simp add: idx_add)
  then have "j mod N = k mod N" by (simp add: nat_mod_eq_iff)
  then show ?thesis using assms(1,2) by simp
qed

lemma length_contents [simp]: "length (contents buf r w) = unat (w - r)"
  by (simp add: ring_list_def)

lemma contents_empty [simp]: "contents buf r r = []"
  by (simp add: ring_list_def)

lemma contents_Nil_iff: "contents buf r w = [] \<longleftrightarrow> w = r"
  by (simp add: ring_list_def unat_eq_0)

lemma unat_succ: "unat (w - r) < 2 ^ LENGTH('l) - 1 \<Longrightarrow> unat (w + 1 - r) = Suc (unat (w - r))" for w r :: "'l word"
proof -
  assume a: "unat (w - r) < 2 ^ LENGTH('l) - 1"
  have e: "w + 1 - r = (w - r) + 1" by simp
  show ?thesis unfolding e by (rule unat_plus1[OF a])
qed

lemma below: "unat (w - r) < N \<Longrightarrow> 1 < N \<Longrightarrow> unat (w - r) < 2 ^ LENGTH('l) - 1 \<or> N = 2 ^ LENGTH('l)" for w r :: "'l word"
  using dvd_imp_le[OF size_dvd] by auto

lemma push:
  assumes room: "unat (w - r) < N" and N: "N < 2 ^ LENGTH('l)"
  shows "contents (buf(idx w := x)) r (w + 1) = contents buf r w @ [x]"
proof -
  let ?n = "unat (w - r)"
  have n: "unat (w + 1 - r) = Suc ?n" using room N by (intro unat_succ) simp
  have w: "w = r + of_nat ?n" by simp
  have "idx (r + of_nat i) \<noteq> idx w" if "i < ?n" for i
    using idx_inj[of i ?n r] that room w by (metis less_irrefl less_trans)
  then show ?thesis unfolding ring_list_def n by simp
qed

lemma pop:
  assumes "w \<noteq> r"
  shows "contents buf r w = buf (idx r) # contents buf (r + 1) w"
proof -
  obtain n where n: "unat (w - r) = Suc n" using assms by (cases "unat (w - r)") (auto simp: unat_eq_0)
  have e: "w - (r + 1) = (w - r) - 1" by simp
  have "unat (w - (r + 1)) = n" unfolding e by (rule unat_minus1[OF n])
  then show ?thesis unfolding ring_list_def n
    by (simp add: upt_conv_Cons map_Suc_upt[symmetric] add.assoc del: upt_Suc)
qed

lemma unpush:
  assumes "w \<noteq> r"
  shows "contents buf r (w - 1) = butlast (contents buf r w)"
proof -
  obtain n where n: "unat (w - r) = Suc n" using assms by (cases "unat (w - r)") (auto simp: unat_eq_0)
  have e: "w - 1 - r = (w - r) - 1" by simp
  have "unat (w - 1 - r) = n" unfolding e by (rule unat_minus1[OF n])
  then show ?thesis unfolding ring_list_def n by simp
qed

lemma last_contents: "w \<noteq> r \<Longrightarrow> last (contents buf r w) = buf (idx (w - 1))"
proof -
  assume a: "w \<noteq> r"
  then obtain n where n: "unat (w - r) = Suc n" by (cases "unat (w - r)") (auto simp: unat_eq_0)
  have "of_nat n = w - r - (1 :: 'l word)" by (rule of_nat_minus1[OF n])
  then have "r + of_nat n = w - 1" by simp
  then show ?thesis unfolding ring_list_def n by simp
qed

lemma split_at:
  assumes "unat (w - r) \<le> unat (e - r)"
  shows "contents buf r e = contents buf r w @ contents buf w e"
proof -
  have d: "e - w = (e - r) - (w - r)" by simp
  have k: "unat (e - w) = unat (e - r) - unat (w - r)" unfolding d using assms by (intro unat_sub) (simp add: word_le_nat_alt)
  have "[0..<unat (e - r)] = [0..<unat (w - r)] @ map (\<lambda>i. i + unat (w - r)) [0..<unat (e - w)]"
    using assms k upt_add_eq_append[of 0 "unat (w - r)" "unat (e - w)"] map_add_upt[of "unat (w - r)" "unat (e - w)"]
    by (simp add: add.commute)
  then show ?thesis by (simp add: ring_list_def add.commute add.left_commute)
qed

end

end
