(* ===== verification/Console.thy ===== *)
theory Console
  imports Proc Ring
begin

text \<open>
  The console: the UART's output ring and its interrupt handler (\<^verbatim>\<open>kernel/uart.c\<close>), the input line buffer and the read and
  write of the console device (\<^verbatim>\<open>kernel/console.c\<close>), and the process listing \<^verbatim>\<open>procdump\<close> of \<^verbatim>\<open>kernel/proc.c\<close> that \<^verbatim>\<open>^P\<close> prints.

  The spin locks are left out, as in \<open>Proc\<close>. The device is the bytes waiting in its receiver (\<open>uart_rx\<close>) and the number of bytes its transmitter takes before
  it reports busy (\<open>uart_room\<close>). The input buffer is seen through three counters: bytes from \<open>cons_r\<close> to \<open>cons_w\<close> are complete
  lines to be read, those from \<open>cons_w\<close> to \<open>cons_e\<close> the line being edited. The lemmas show that the handler edits a line and
  delivers it in order, whatever the counters' wrap-around.
\<close>

abbreviation (input) INPUT_BUF_SIZE :: nat where "INPUT_BUF_SIZE \<equiv> 128"
abbreviation (input) UART_TX_BUF_SIZE :: nat where "UART_TX_BUF_SIZE \<equiv> 32"

text \<open>The routines a slot of the device switch can hold.\<close>

datatype devfn = Fn_consoleread | Fn_consolewrite

record conss = procs +
  uart_regs :: "(nat \<times> u8) list"
  uart_rx :: "u8 list"
  uart_room :: nat
  uart_tx_buf :: "nat \<Rightarrow> u8"
  uart_tx_w :: u64
  uart_tx_r :: u64
  cons_buf :: "nat \<Rightarrow> u8"
  cons_r :: u32
  cons_w :: u32
  cons_e :: u32
  devsw_read :: "nat \<Rightarrow> devfn option"
  devsw_write :: "nat \<Rightarrow> devfn option"

abbreviation (input) CONSOLE :: nat where "CONSOLE \<equiv> 1"

definition cons_idx :: "u32 \<Rightarrow> nat" where
  "cons_idx c = unat c mod INPUT_BUF_SIZE"

definition uart_idx :: "u64 \<Rightarrow> nat" where
  "uart_idx c = unat c mod UART_TX_BUF_SIZE"

section \<open>The UART\<close>

definition uartinit :: "'z conss_scheme \<Rightarrow> 'z conss_scheme" where
  "uartinit s = s\<lparr>uart_regs := uart_regs s @ [(1, 0x00), (3, 0x80), (0, 0x03), (1, 0x00), (3, 0x03), (2, 0x07), (1, 0x03)]\<rparr>"

text \<open>The loop of \<^verbatim>\<open>uartstart\<close>, which sends at most as many bytes as the transmitter takes.\<close>

fun uart_send :: "nat \<Rightarrow> 'z conss_scheme \<Rightarrow> 'z conss_scheme" where
  "uart_send 0 s = s"
| "uart_send (Suc k) s =
     (if uart_tx_w s = uart_tx_r s then s
      else
        let c = uart_tx_buf s (uart_idx (uart_tx_r s));
            s = s\<lparr>uart_tx_r := uart_tx_r s + 1\<rparr>;
            s = wakeup (Some Ch_uart) s in
        uart_send k (s\<lparr>uart_tx := uart_tx s @ [c], uart_room := k\<rparr>))"

definition uartstart :: "'z conss_scheme \<Rightarrow> 'z conss_scheme" where
  "uartstart s = uart_send (uart_room s) s"

text \<open>
  \<^verbatim>\<open>uartputc\<close> from its wait for room on, which is where a writer that slept goes on; and the whole of it. A panicked
  kernel stops here for good, which is a panic of the caller.
\<close>

definition uartputc_wait :: "u8 \<Rightarrow> 'z conss_scheme \<Rightarrow> ('z conss_scheme, unit) res" where
  "uartputc_wait c s =
     (if uart_tx_w s = uart_tx_r s + of_nat UART_TX_BUF_SIZE then sleep Ch_uart s
      else
        let s = s\<lparr>uart_tx_buf := (uart_tx_buf s)(uart_idx (uart_tx_w s) := c), uart_tx_w := uart_tx_w s + 1\<rparr> in
        Ok () (uartstart s))"

definition uartputc :: "u8 \<Rightarrow> 'z conss_scheme \<Rightarrow> ('z conss_scheme, unit) res" where
  "uartputc c s = (if panicked s \<noteq> 0 then Panic ''frozen'' else uartputc_wait c s)"

definition uartgetc :: "'z conss_scheme \<Rightarrow> u8 option \<times> 'z conss_scheme" where
  "uartgetc s = (case uart_rx s of [] \<Rightarrow> (None, s) | c # cs \<Rightarrow> (Some c, s\<lparr>uart_rx := cs\<rparr>))"

section \<open>Reading and writing the console\<close>

definition src_add :: "src \<Rightarrow> nat \<Rightarrow> src" where
  "src_add a i = (case a of Src_user x \<Rightarrow> Src_user (x + of_nat i) | Src_mem x \<Rightarrow> Src_mem (x + of_nat i) | Src_local bs \<Rightarrow> Src_local (drop i bs))"

definition dst_add :: "dst \<Rightarrow> nat \<Rightarrow> dst" where
  "dst_add a i = (case a of Dst_user x \<Rightarrow> Dst_user (x + of_nat i) | Dst_mem x \<Rightarrow> Dst_mem (x + of_nat i) | Dst_local \<Rightarrow> Dst_local)"

text \<open>The loop from the index \<open>i\<close> on, with \<open>k\<close> bytes to go; a writer that slept goes on with \<open>uartputc_wait\<close> of the byte it had read, then from the next index.\<close>

fun consolewrite_loop :: "nat \<Rightarrow> src \<Rightarrow> nat \<Rightarrow> 'z conss_scheme \<Rightarrow> ('z conss_scheme, cint) res" where
  "consolewrite_loop 0 a i s = Ok (of_nat i) s"
| "consolewrite_loop (Suc k) a i s =
     bnd (either_copyin (src_add a i) 1 s) (\<lambda>(r, bs) s.
       if r = - 1 then Ok (of_nat i) s
       else bnd (uartputc (hd bs) s) (\<lambda>_ s. consolewrite_loop k a (Suc i) s))"

definition consolewrite :: "src \<Rightarrow> cint \<Rightarrow> 'z conss_scheme \<Rightarrow> ('z conss_scheme, cint) res" where
  "consolewrite a n s = consolewrite_loop (nat (sint n)) a 0 s"

text \<open>The loop of \<^verbatim>\<open>consoleread\<close> with \<open>k\<close> bytes still wanted, of \<open>target\<close>; the value is \<^verbatim>\<open>target - n\<close>.\<close>

fun consoleread_loop :: "nat \<Rightarrow> u32 \<Rightarrow> dst \<Rightarrow> 'z conss_scheme \<Rightarrow> ('z conss_scheme, cint) res" where
  "consoleread_loop 0 target d s = Ok target s"
| "consoleread_loop (Suc k) target d s =
     (if cons_r s = cons_w s then with_proc (\<lambda>p s. if killed p s \<noteq> 0 then Ok (- 1) s else sleep Ch_cons s) s
      else
        let c = cons_buf s (cons_idx (cons_r s));
            s = s\<lparr>cons_r := cons_r s + 1\<rparr> in
        if c = 4 then
          let s = (if of_nat (Suc k) < target then s\<lparr>cons_r := cons_r s - 1\<rparr> else s) in
          Ok (target - of_nat (Suc k)) s
        else bnd (either_copyout d [c] s) (\<lambda>r s.
          if r = - 1 then Ok (target - of_nat (Suc k)) s
          else if c = 10 then Ok (target - of_nat k) s
          else consoleread_loop k target (dst_add d 1) s))"

definition consoleread :: "dst \<Rightarrow> cint \<Rightarrow> 'z conss_scheme \<Rightarrow> ('z conss_scheme, cint) res" where
  "consoleread d n s = (if sint n > 0 then consoleread_loop (nat (sint n)) n d s else Ok 0 s)"

section \<open>The process listing\<close>

primrec state_name :: "procstate \<Rightarrow> string" where
  "state_name UNUSED = ''unused''"
| "state_name USED = ''used''"
| "state_name SLEEPING = ''sleep ''"
| "state_name RUNNABLE = ''runble''"
| "state_name RUNNING = ''run   ''"
| "state_name ZOMBIE = ''zombie''"

definition procdump :: "'z procs_scheme \<Rightarrow> ('z procs_scheme, unit) res" where
  "procdump s =
     bnd (printf [10] [] s) (\<lambda>_ s.
       loop (\<lambda>p s.
         if p_state (ptable s p) = UNUSED then Ok () s
         else bnd (printf (bstr ''%d %s %s'') [P_int (p_pid (ptable s p)), P_str (Some (bstr (state_name (p_state (ptable s p))))),
             P_str (Some (cstr (p_name (ptable s p))))] s) (\<lambda>_ s.
           printf [10] [] s)) [0..<NPROC] s)"

section \<open>Input\<close>

text \<open>The loop of \<^verbatim>\<open>^U\<close>; the line being edited has at most \<open>unat (e - w)\<close> characters to drop.\<close>

fun kill_line :: "nat \<Rightarrow> 'z conss_scheme \<Rightarrow> ('z conss_scheme, unit) res" where
  "kill_line 0 s = Ok () s"
| "kill_line (Suc k) s =
     (if cons_e s \<noteq> cons_w s \<and> cons_buf s (cons_idx (cons_e s - 1)) \<noteq> 10
      then bnd (consputc BACKSPACE (s\<lparr>cons_e := cons_e s - 1\<rparr>)) (\<lambda>_ s. kill_line k s)
      else Ok () s)"

definition consoleintr :: "u8 \<Rightarrow> 'z conss_scheme \<Rightarrow> ('z conss_scheme, unit) res" where
  "consoleintr c s =
     (if c = 16 then procdump s
      else if c = 21 then kill_line (unat (cons_e s - cons_w s)) s
      else if c = 8 \<or> c = 0x7f then
        (if cons_e s \<noteq> cons_w s then consputc BACKSPACE (s\<lparr>cons_e := cons_e s - 1\<rparr>) else Ok () s)
      else if c \<noteq> 0 \<and> unat (cons_e s - cons_r s) < INPUT_BUF_SIZE then
        let c = (if c = 13 then 10 else c) in
        bnd (consputc (unat c) s) (\<lambda>_ s.
          let s = s\<lparr>cons_buf := (cons_buf s)(cons_idx (cons_e s) := c), cons_e := cons_e s + 1\<rparr> in
          if c = 10 \<or> c = 4 \<or> unat (cons_e s - cons_r s) = INPUT_BUF_SIZE
          then Ok () (wakeup (Some Ch_cons) (s\<lparr>cons_w := cons_e s\<rparr>))
          else Ok () s)
      else Ok () s)"

fun uart_input :: "nat \<Rightarrow> 'z conss_scheme \<Rightarrow> ('z conss_scheme, unit) res" where
  "uart_input 0 s = Ok () s"
| "uart_input (Suc k) s =
     (case uartgetc s of
        (None, s) \<Rightarrow> Ok () s
      | (Some c, s) \<Rightarrow> bnd (consoleintr c s) (\<lambda>_ s. uart_input k s))"

definition uartintr :: "'z conss_scheme \<Rightarrow> ('z conss_scheme, unit) res" where
  "uartintr s = bnd (uart_input (Suc (length (uart_rx s))) s) (\<lambda>_ s. Ok () (uartstart s))"

definition consoleinit :: "'z conss_scheme \<Rightarrow> 'z conss_scheme" where
  "consoleinit s =
     (let s = uartinit s in
      s\<lparr>devsw_read := (devsw_read s)(CONSOLE := Some Fn_consoleread), devsw_write := (devsw_write s)(CONSOLE := Some Fn_consolewrite)\<rparr>)"

section \<open>The line discipline\<close>

interpretation cr: ring 128 cons_idx
  by unfold_locales (simp_all add: cons_idx_def)

interpretation ur: ring 32 uart_idx
  by unfold_locales (simp_all add: uart_idx_def)

text \<open>What a user of the console sees: the lines ready to be read, and the line being edited; and what a key does to them.\<close>

definition cons_view :: "'z conss_scheme \<Rightarrow> u8 list \<times> u8 list" where
  "cons_view s = (ring_list cons_idx (cons_buf s) (cons_r s) (cons_w s), ring_list cons_idx (cons_buf s) (cons_w s) (cons_e s))"

definition edit :: "u8 \<Rightarrow> u8 list \<times> u8 list \<Rightarrow> u8 list \<times> u8 list" where
  "edit c v =
     (let (ready, line) = v; c' = (if c = 13 then 10 else c); line' = line @ [c'] in
      if c = 21 then (ready, [])
      else if c = 8 \<or> c = 0x7f then (ready, butlast line)
      else if c = 0 \<or> c = 16 \<or> INPUT_BUF_SIZE \<le> length ready + length line then (ready, line)
      else if c' = 10 \<or> c' = 4 \<or> length ready + length line' = INPUT_BUF_SIZE then (ready @ line', [])
      else (ready, line'))"

definition cons_inv :: "'z conss_scheme \<Rightarrow> bool" where
  "cons_inv s \<longleftrightarrow> unat (cons_w s - cons_r s) + unat (cons_e s - cons_w s) \<le> INPUT_BUF_SIZE \<and> 10 \<notin> set (snd (cons_view s))"

lemma cons_counts:
  assumes "cons_inv s"
  shows "unat (cons_e s - cons_r s) = unat (cons_w s - cons_r s) + unat (cons_e s - cons_w s)"
proof -
  have "cons_e s - cons_r s = (cons_w s - cons_r s) + (cons_e s - cons_w s)" by simp
  then show ?thesis using assms by (simp only: unat_word_ariths) (simp add: cons_inv_def)
qed

text \<open>\<^verbatim>\<open>procdump\<close> prints every pid with \<^verbatim>\<open>%d\<close>, which has no meaning for the least \<^verbatim>\<open>int\<close>; pids are handed out from 1 upwards.\<close>

definition can_list :: "'z procs_scheme \<Rightarrow> bool" where
  "can_list s \<longleftrightarrow> (\<forall>p < NPROC. sint (p_pid (ptable s p)) \<noteq> - (2 ^ 31))"

lemma printed_cons:
  assumes "printed out s t"
  shows "cons_buf t = cons_buf s" "cons_r t = cons_r s" "cons_w t = cons_w s" "cons_e t = cons_e s" "uart_rx t = uart_rx s"
    "can_print t" "can_list t = can_list s"
  using assms by (auto elim!: printedE simp: can_list_def)

lemma wakeup_cons [simp]:
  "cons_buf (wakeup ch s) = cons_buf s" "cons_r (wakeup ch s) = cons_r s" "cons_w (wakeup ch s) = cons_w s"
  "cons_e (wakeup ch s) = cons_e s" "uart_rx (wakeup ch s) = uart_rx s" "can_print (wakeup ch s) = can_print s"
  "can_list (wakeup ch s) = can_list s"
proof -
  have "p_pid (ptable (wakeup ch s) p) = p_pid (ptable s p)" for p by (simp add: wakeup_def each_proc_def)
  then show "can_list (wakeup ch s) = can_list s" by (simp add: can_list_def)
qed (simp_all add: wakeup_def each_proc_def can_print_def mycpu_def cpuid_def)

lemma procdump_Ok: "can_print s \<Longrightarrow> can_list s \<Longrightarrow> \<exists>t out. procdump s = Ok () t \<and> printed out s t"
proof -
  assume s: "can_print s" and l: "can_list s"
  have f: "format [10] [] = Some [10]" by simp
  have g: "\<exists>out. format (bstr ''%d %s %s'') [P_int n, P_str (Some a), P_str (Some b)] = Some out"
    if "sint n \<noteq> - (2 ^ 31)" for n a b
    using printint_Some[OF that, of 10] by (auto simp: bstr_def of_char_def)
  obtain t where t: "printf [10] [] s = Ok () t" "printed [10] s t" using printf_Ok[OF s f] by blast
  have line: "\<exists>t out. bnd (printf (bstr ''%d %s %s'') [P_int n, P_str (Some a), P_str (Some b)] s) (\<lambda>_ s. printf [10] [] s) = Ok () t
      \<and> printed out s t" if s: "can_print s" and n: "sint n \<noteq> - (2 ^ 31)" for n a b and s :: "'a procs_scheme"
  proof -
    obtain out where "format (bstr ''%d %s %s'') [P_int n, P_str (Some a), P_str (Some b)] = Some out" using g[OF n] by blast
    from printf_Ok[OF s this] obtain t where t: "printf (bstr ''%d %s %s'') [P_int n, P_str (Some a), P_str (Some b)] s = Ok () t" "printed out s t" by blast
    then have "can_print t" by (simp add: printed_def)
    from printf_Ok[OF this f] obtain u where u: "printf [10] [] t = Ok () u" "printed [10] t u" by blast
    show ?thesis using t u printed_trans[OF t(2) u(2)] by auto
  qed
  define body where "body = (\<lambda>p (s :: 'a procs_scheme).
     if p_state (ptable s p) = UNUSED then Ok () s
     else bnd (printf (bstr ''%d %s %s'') [P_int (p_pid (ptable s p)), P_str (Some (bstr (state_name (p_state (ptable s p))))),
         P_str (Some (cstr (p_name (ptable s p))))] s) (\<lambda>_ s. printf [10] [] s))"
  have body: "\<exists>t out. body p s = Ok () t \<and> printed out s t" if "p \<in> set [0..<NPROC]" "can_print s" "can_list s" for p s
  proof (cases "p_state (ptable s p) = UNUSED")
    case True
    then show ?thesis using printed_refl[OF that(2)] unfolding body_def by auto
  next
    case False
    have "sint (p_pid (ptable s p)) \<noteq> - (2 ^ 31)" using that(1,3) by (simp add: can_list_def)
    then show ?thesis using line[OF that(2)] False by (simp add: body_def)
  qed
  have keep: "printed out s t \<Longrightarrow> can_list s \<Longrightarrow> can_list t" for out and s t :: "'a procs_scheme"
    by (auto elim!: printedE simp: can_list_def)
  have "can_print t" "can_list t" using t keep[OF t(2) l] by (simp_all add: printed_def)
  then have "\<exists>u out. loop body [0..<NPROC] t = Ok () u \<and> printed out t u"
    by (intro loop_printed[where I = can_list] body) (auto intro: keep)
  then obtain u out where "loop body [0..<NPROC] t = Ok () u" "printed out t u" by blast
  then show ?thesis using t printed_trans[OF t(2)] by (auto simp: procdump_def body_def)
qed

lemma kill_line_Ok:
  assumes "cons_inv s" and "can_print s" and "k = unat (cons_e s - cons_w s)"
  shows "\<exists>t. kill_line k s = Ok () t \<and> can_print t \<and> cons_buf t = cons_buf s \<and> cons_r t = cons_r s \<and> cons_w t = cons_w s
    \<and> cons_e t = cons_w s \<and> uart_rx t = uart_rx s \<and> can_list t = can_list s"
  using assms
proof (induction k arbitrary: s)
  case 0
  then show ?case by (simp add: unat_eq_0)
next
  case (Suc k)
  let ?s = "s\<lparr>cons_e := cons_e s - 1\<rparr>"
  have ne: "cons_e s \<noteq> cons_w s" using Suc.prems(3) by auto
  have u: "unat (cons_e s - 1 - cons_w s) = k" using unat_minus1[OF Suc.prems(3)[symmetric]] by (simp add: algebra_simps)
  have "last (ring_list cons_idx (cons_buf s) (cons_w s) (cons_e s)) \<in> set (snd (cons_view s))"
    using ne cr.contents_Nil_iff by (simp add: cons_view_def)
  then have nl: "cons_buf s (cons_idx (cons_e s - 1)) \<noteq> 10" using Suc.prems(1) cr.last_contents[OF ne] by (auto simp: cons_inv_def)
  have "can_print ?s" using Suc.prems(2) by (simp add: can_print_def mycpu_def cpuid_def)
  then obtain t where t: "consputc BACKSPACE ?s = Ok () t" "printed [8, 32, 8] ?s t" using consputc_Ok by force
  note c = printed_cons[OF t(2)]
  have inv: "cons_inv t" using Suc.prems(1) u Suc.prems(3) in_set_butlastD[of _ "ring_list cons_idx (cons_buf s) (cons_w s) (cons_e s)"]
    by (auto simp: cons_inv_def cons_view_def c cr.unpush[OF ne])
  have "can_list ?s = can_list s" by (simp add: can_list_def)
  with Suc.IH[OF inv c(6)] u show ?case using ne nl t(1) by (simp add: c)
qed

lemma store_key:
  assumes "cons_inv s" and "can_print s" and "c \<notin> {16, 21, 8, 0x7f, 0}" and "unat (cons_e s - cons_r s) < INPUT_BUF_SIZE"
  shows "\<exists>t. consoleintr c s = Ok () t \<and> cons_inv t \<and> can_print t \<and> cons_view t = edit c (cons_view s) \<and> uart_rx t = uart_rx s
    \<and> can_list t = can_list s"
proof -
  define c' where "c' = (if c = 13 then 10 else c)"
  have "unat c' \<noteq> BACKSPACE" using unsigned_less[of c', where ?'a = nat] by simp
  then obtain t where t: "consputc (unat c') s = Ok () t" "printed [c'] s t" using consputc_Ok[OF assms(2), of "unat c'"] by auto
  note f = printed_cons[OF t(2)]
  let ?b = "(cons_buf s)(cons_idx (cons_e s) := c')"
  let ?line = "ring_list cons_idx (cons_buf s) (cons_w s) (cons_e s)"
  let ?ready = "ring_list cons_idx (cons_buf s) (cons_r s) (cons_w s)"
  note cnt = cons_counts[OF assms(1)]
  have whole: "ring_list cons_idx ?b (cons_r s) (cons_e s + 1) = ring_list cons_idx (cons_buf s) (cons_r s) (cons_e s) @ [c']"
    using assms(4) by (intro cr.push) simp_all
  have line: "ring_list cons_idx ?b (cons_w s) (cons_e s + 1) = ?line @ [c']"
    using assms(4) cnt by (intro cr.push) simp_all
  have split: "ring_list cons_idx (cons_buf s) (cons_r s) (cons_e s) = ?ready @ ?line" using cnt by (intro cr.split_at) simp
  have e: "unat (cons_e s + 1 - cons_r s) = Suc (unat (cons_e s - cons_r s))" "unat (cons_e s + 1 - cons_w s) = Suc (unat (cons_e s - cons_w s))"
    using assms(4) cnt cr.unat_succ[of "cons_e s" "cons_r s"] cr.unat_succ[of "cons_e s" "cons_w s"] by simp_all
  have "ring_list cons_idx ?b (cons_r s) (cons_e s + 1) = ring_list cons_idx ?b (cons_r s) (cons_w s) @ ring_list cons_idx ?b (cons_w s) (cons_e s + 1)"
    using cnt e by (intro cr.split_at) simp
  then have ready: "ring_list cons_idx ?b (cons_r s) (cons_w s) = ?ready" using whole line split by simp
  let ?s = "t\<lparr>cons_buf := ?b, cons_e := cons_e s + 1\<rparr>"
  have cp: "can_print ?s" "can_print (?s\<lparr>cons_w := cons_e s + 1\<rparr>)" using f(6) by (simp_all add: can_print_def mycpu_def cpuid_def)
  have cl: "can_list ?s = can_list s" "can_list (?s\<lparr>cons_w := cons_e s + 1\<rparr>) = can_list s" using f(7) by (simp_all add: can_list_def)
  have run: "consoleintr c s = (if c' = 10 \<or> c' = 4 \<or> unat (cons_e s + 1 - cons_r s) = INPUT_BUF_SIZE
      then Ok () (wakeup (Some Ch_cons) (?s\<lparr>cons_w := cons_e s + 1\<rparr>)) else Ok () ?s)"
    using assms(3,4) t(1) by (simp add: consoleintr_def f flip: c'_def)
  have spec: "edit c (cons_view s) = (if c' = 10 \<or> c' = 4 \<or> unat (cons_e s + 1 - cons_r s) = INPUT_BUF_SIZE
      then (?ready @ ?line @ [c'], []) else (?ready, ?line @ [c']))"
    using assms(3,4) cnt e by (simp add: edit_def cons_view_def flip: c'_def)
  show ?thesis
  proof (cases "c' = 10 \<or> c' = 4 \<or> unat (cons_e s + 1 - cons_r s) = INPUT_BUF_SIZE")
    case True
    then show ?thesis unfolding run spec using whole split e assms(4) cp cl
      by (simp add: cons_inv_def cons_view_def f)
  next
    case False
    then show ?thesis unfolding run spec using line ready e assms(1,4) cnt cp cl
      by (simp add: cons_inv_def cons_view_def f)
  qed
qed

lemma consoleintr_Ok:
  assumes "cons_inv s" and "can_print s" and "c = 16 \<longrightarrow> can_list s"
  shows "\<exists>t. consoleintr c s = Ok () t \<and> cons_inv t \<and> can_print t \<and> cons_view t = edit c (cons_view s) \<and> uart_rx t = uart_rx s
    \<and> can_list t = can_list s"
proof -
  have len: "length (fst (cons_view s)) + length (snd (cons_view s)) = unat (cons_e s - cons_r s)"
    using cons_counts[OF assms(1)] by (simp add: cons_view_def)
  consider "c = 16" | "c = 21" | "c = 8 \<or> c = 0x7f" | "c \<notin> {16, 21, 8, 0x7f}" "c = 0 \<or> INPUT_BUF_SIZE \<le> unat (cons_e s - cons_r s)"
    | "c \<notin> {16, 21, 8, 0x7f, 0}" "unat (cons_e s - cons_r s) < INPUT_BUF_SIZE" by fastforce
  then show ?thesis
  proof cases
    case 1
    obtain t out where t: "procdump s = Ok () t" "printed out s t" using procdump_Ok[OF assms(2)] assms(3) 1 by blast
    show ?thesis using 1 t(1) assms printed_cons[OF t(2)]
      by (simp add: consoleintr_def edit_def cons_inv_def cons_view_def)
  next
    case 2
    obtain t where "kill_line (unat (cons_e s - cons_w s)) s = Ok () t \<and> can_print t \<and> cons_buf t = cons_buf s \<and> cons_r t = cons_r s
      \<and> cons_w t = cons_w s \<and> cons_e t = cons_w s \<and> uart_rx t = uart_rx s \<and> can_list t = can_list s" using kill_line_Ok[OF assms(1,2) refl] by blast
    with 2 show ?thesis using assms by (simp add: consoleintr_def edit_def cons_inv_def cons_view_def)
  next
    case 3
    show ?thesis
    proof (cases "cons_e s = cons_w s")
      case True
      with 3 assms show ?thesis by (auto simp: consoleintr_def edit_def cons_view_def)
    next
      case False
      let ?s = "s\<lparr>cons_e := cons_e s - 1\<rparr>"
      have l: "can_list ?s = can_list s" by (simp add: can_list_def)
      have "can_print ?s" using assms by (simp add: can_print_def mycpu_def cpuid_def)
      then obtain t where t: "consputc BACKSPACE ?s = Ok () t" "printed [8, 32, 8] ?s t" using consputc_Ok by force
      note c = printed_cons[OF t(2)] l
      have "unat (cons_e s - 1 - cons_w s) \<le> unat (cons_e s - cons_w s)"
        using cr.length_contents[of "cons_buf s" "cons_w s" "cons_e s - 1"] cr.unpush[OF False, of "cons_buf s"] by simp
      then have "cons_inv t" using assms(1) in_set_butlastD[of _ "ring_list cons_idx (cons_buf s) (cons_w s) (cons_e s)"]
        by (auto simp: cons_inv_def cons_view_def c cr.unpush[OF False])
      then show ?thesis using 3 False t(1) c by (auto simp: consoleintr_def edit_def cons_view_def cr.unpush)
    qed
  next
    case 4
    then show ?thesis using assms len by (auto simp: consoleintr_def edit_def split: prod.splits)
  next
    case 5
    then show ?thesis using store_key[OF assms(1,2) _ 5(2)] len by simp
  qed
qed

text \<open>The transmit ring: \<^verbatim>\<open>uartstart\<close> sends the bytes in the order they were put.\<close>

definition uart_pending :: "'z conss_scheme \<Rightarrow> u8 list" where
  "uart_pending s = ring_list uart_idx (uart_tx_buf s) (uart_tx_r s) (uart_tx_w s)"

lemma wakeup_uart [simp]:
  "uart_tx_buf (wakeup ch s) = uart_tx_buf s" "uart_tx_w (wakeup ch s) = uart_tx_w s" "uart_tx_r (wakeup ch s) = uart_tx_r s"
  "uart_tx (wakeup ch s) = uart_tx s" "uart_room (wakeup ch s) = uart_room s"
  by (simp_all add: wakeup_def each_proc_def)

lemma cons_view_frame: "cons_buf t = cons_buf s \<Longrightarrow> cons_r t = cons_r s \<Longrightarrow> cons_w t = cons_w s \<Longrightarrow> cons_e t = cons_e s
    \<Longrightarrow> cons_view t = cons_view s"
  by (simp add: cons_view_def)

lemma uart_send_effect:
  "uart_tx (uart_send k s) = uart_tx s @ take k (uart_pending s) \<and> uart_pending (uart_send k s) = drop k (uart_pending s)
   \<and> uart_tx_w (uart_send k s) = uart_tx_w s
   \<and> cons_view (uart_send k s) = cons_view s \<and> uart_rx (uart_send k s) = uart_rx s"
proof (induction k arbitrary: s)
  case (Suc k)
  show ?case
  proof (cases "uart_tx_w s = uart_tx_r s")
    case True
    then show ?thesis by (simp add: uart_pending_def)
  next
    case False
    let ?c = "uart_tx_buf s (uart_idx (uart_tx_r s))"
    let ?t = "wakeup (Some Ch_uart) (s\<lparr>uart_tx_r := uart_tx_r s + 1\<rparr>)"
    have p: "uart_pending s = ?c # ring_list uart_idx (uart_tx_buf s) (uart_tx_r s + 1) (uart_tx_w s)"
      using ur.pop[OF False] by (simp add: uart_pending_def)
    have "cons_view (?t\<lparr>uart_tx := uart_tx ?t @ [?c], uart_room := k\<rparr>) = cons_view s" by (rule cons_view_frame) simp_all
    moreover have "uart_pending (?t\<lparr>uart_tx := uart_tx ?t @ [?c], uart_room := k\<rparr>)
        = ring_list uart_idx (uart_tx_buf s) (uart_tx_r s + 1) (uart_tx_w s)" by (simp add: uart_pending_def)
    ultimately show ?thesis using Suc.IH[of "?t\<lparr>uart_tx := uart_tx ?t @ [?c], uart_room := k\<rparr>"] False p
      by (simp add: Let_def)
  qed
qed simp

lemma uart_send_cons:
  "cons_buf (uart_send k s) = cons_buf s \<and> cons_r (uart_send k s) = cons_r s \<and> cons_w (uart_send k s) = cons_w s \<and> cons_e (uart_send k s) = cons_e s"
  by (induction k arbitrary: s) (simp_all add: Let_def)

lemma uart_input_Ok:
  assumes "cons_inv s" and "can_print s" and "length (uart_rx s) < k" and "16 \<in> set (uart_rx s) \<longrightarrow> can_list s"
  shows "\<exists>t. uart_input k s = Ok () t \<and> cons_inv t \<and> can_print t \<and> cons_view t = fold edit (uart_rx s) (cons_view s) \<and> uart_rx t = []"
  using assms
proof (induction k arbitrary: s)
  case (Suc k)
  show ?case
  proof (cases "uart_rx s")
    case Nil
    with Suc.prems show ?thesis by (simp add: uartgetc_def)
  next
    case (Cons c cs)
    let ?s = "s\<lparr>uart_rx := cs\<rparr>"
    have v: "cons_view ?s = cons_view s" by (rule cons_view_frame) simp_all
    have "cons_inv ?s" "can_print ?s" "can_list ?s = can_list s" "c = 16 \<longrightarrow> can_list s"
      using Suc.prems v Cons by (simp_all add: cons_inv_def can_print_def can_list_def mycpu_def cpuid_def)
    then obtain t where t: "consoleintr c ?s = Ok () t" "cons_inv t" "can_print t" "cons_view t = edit c (cons_view s)" "uart_rx t = cs"
      "can_list t = can_list s" using consoleintr_Ok[of ?s c] v by auto
    from Suc.IH[OF t(2,3)] t(5,6) Suc.prems(3,4) Cons obtain u where
      "uart_input k t = Ok () u" "cons_inv u" "can_print u" "cons_view u = fold edit cs (cons_view t)" "uart_rx u = []" by auto
    then show ?thesis using Cons t by (simp add: uartgetc_def)
  qed
qed simp

text \<open>C23: The console handler is a line discipline. From a console whose counters are in order, an interrupt returns, and it has
  applied every received key, in order, to the ready lines and the line being edited: ordinary
  keys append, backspace and \<^verbatim>\<open>^U\<close> erase only from the unfinished line, newline, \<^verbatim>\<open>^D\<close> and a full buffer make it ready. It holds
  at every value of the wrapping counters. If \<^verbatim>\<open>^P\<close>, which lists the processes, is among the keys, no process may have the least \<^verbatim>\<open>int\<close> as its
  pid, which could not be printed.
\<close>

theorem console_line_discipline:
  assumes "cons_inv s" and "can_print s" and "16 \<in> set (uart_rx s) \<longrightarrow> (\<forall>p < NPROC. sint (p_pid (ptable s p)) \<noteq> - (2 ^ 31))"
  shows "\<exists>t. uartintr s = Ok () t \<and> cons_view t = fold edit (uart_rx s) (cons_view s) \<and> uart_rx t = [] \<and> cons_inv t"
proof -
  obtain t where t: "uart_input (Suc (length (uart_rx s))) s = Ok () t" "cons_inv t" "cons_view t = fold edit (uart_rx s) (cons_view s)" "uart_rx t = []"
    using uart_input_Ok[OF assms(1,2) lessI] assms(3) by (auto simp: can_list_def)
  have e: "cons_view (uartstart t) = cons_view t" "uart_rx (uartstart t) = uart_rx t" using uart_send_effect by (auto simp: uartstart_def)
  have "cons_buf (uartstart t) = cons_buf t \<and> cons_r (uartstart t) = cons_r t \<and> cons_w (uartstart t) = cons_w t \<and> cons_e (uartstart t) = cons_e t"
    by (simp add: uartstart_def uart_send_cons)
  then show ?thesis using t e by (simp add: uartintr_def cons_inv_def)
qed

definition demo_conss :: "u32 \<Rightarrow> u8 list \<Rightarrow> conss" where
  "demo_conss k keys = procs.extend (demo_procs (\<lambda>_. demo_proc)) \<lparr>uart_regs = [], uart_rx = keys, uart_room = 0, uart_tx_buf = (\<lambda>_. 0), uart_tx_w = 0,
     uart_tx_r = 0, cons_buf = (\<lambda>_. 0), cons_r = k, cons_w = k, cons_e = k,
     devsw_read = (\<lambda>_. None), devsw_write = (\<lambda>_. None)\<rparr>"

text \<open>The keys \<^verbatim>\<open>l x ^H s RETURN c d ^U\<close> just before the counters wrap: the line \<^verbatim>\<open>ls\<close> is ready, nothing is being edited.\<close>

theorem console_line_discipline_witness:
  "\<exists>t. uartintr (demo_conss 0xfffffffe [108, 120, 8, 115, 13, 99, 100, 21]) = Ok () t \<and> cons_view t = ([108, 115, 10], []) \<and> cons_inv t"
proof -
  let ?s = "demo_conss 0xfffffffe [108, 120, 8, 115, 13, 99, 100, 21]"
  have v: "cons_view ?s = ([], [])" by (simp add: cons_view_def demo_conss_def procs.defs)
  have i: "cons_inv ?s" using v by (simp add: cons_inv_def demo_conss_def procs.defs)
  have c: "can_print ?s" by (simp add: can_print_def demo_conss_def demo_procs_def procs.defs demo_harts_def mycpu_def cpuid_def)
  have r: "uart_rx ?s = [108, 120, 8, 115, 13, 99, 100, 21]" by (simp add: demo_conss_def procs.defs)
  have k: "16 \<in> set (uart_rx ?s) \<longrightarrow> (\<forall>p < NPROC. sint (p_pid (ptable ?s p)) \<noteq> - (2 ^ 31))" by (simp add: r)
  show ?thesis using console_line_discipline[OF i c k] unfolding v r by (auto simp: edit_def)
qed

text \<open>C24: Output through the UART ring is a stream: putting a byte, when there is room, appends it to what was sent and is still to be
  sent, whatever part of it the device takes at once; with the ring full the writer sleeps and nothing is lost.
\<close>

theorem uartputc_stream:
  assumes "panicked s = 0" and "length (uart_pending s) \<le> UART_TX_BUF_SIZE" and "myproc s = Some p"
  shows "if length (uart_pending s) = UART_TX_BUF_SIZE
    then \<exists>t. uartputc c s = Sleep Ch_uart t \<and> uart_tx t @ uart_pending t = uart_tx s @ uart_pending s
    else \<exists>t. uartputc c s = Ok () t \<and> uart_tx t @ uart_pending t = uart_tx s @ uart_pending s @ [c]
      \<and> length (uart_pending t) \<le> UART_TX_BUF_SIZE"
proof -
  have full: "uart_tx_w s = uart_tx_r s + 32 \<longleftrightarrow> length (uart_pending s) = 32"
  proof -
    have "unat (32 :: u64) = 32" by simp
    then have "uart_tx_w s - uart_tx_r s = 32 \<longleftrightarrow> unat (uart_tx_w s - uart_tx_r s) = 32" by (metis word_unat_eq_iff)
    then show ?thesis by (auto simp: uart_pending_def diff_eq_eq add.commute)
  qed
  show ?thesis
  proof (cases "length (uart_pending s) = 32")
    case True
    then show ?thesis using full assms
      by (auto simp: uartputc_def uartputc_wait_def sleep_def with_proc_def upd_proc_def uart_pending_def)
  next
    case False
    let ?s = "s\<lparr>uart_tx_buf := (uart_tx_buf s)(uart_idx (uart_tx_w s) := c), uart_tx_w := uart_tx_w s + 1\<rparr>"
    have p: "uart_pending ?s = uart_pending s @ [c]"
      using False assms(2) ur.push[of "uart_tx_w s" "uart_tx_r s"] by (simp add: uart_pending_def)
    have "uart_tx (uartstart ?s) @ uart_pending (uartstart ?s) = uart_tx s @ uart_pending ?s" "length (uart_pending (uartstart ?s)) \<le> length (uart_pending ?s)"
      using uart_send_effect[of "uart_room ?s" ?s] by (simp_all add: uartstart_def)
    then show ?thesis using False full assms p by (simp add: uartputc_def uartputc_wait_def)
  qed
qed

theorem uartputc_stream_witness:
  "\<exists>t. uartputc 65 ((demo_conss 0 [])\<lparr>cpus := (\<lambda>_. (cpus demo_harts 0)\<lparr>cpu_proc := Some 1\<rparr>)\<rparr>) = Ok () t \<and> uart_tx t @ uart_pending t = [65]"
  using uartputc_stream[of "(demo_conss 0 [])\<lparr>cpus := (\<lambda>_. (cpus demo_harts 0)\<lparr>cpu_proc := Some 1\<rparr>)\<rparr>" 1 65]
  by (auto simp: demo_conss_def procs.defs demo_procs_def uart_pending_def ring_list_def myproc_def mycpu_def cpuid_def)

end
