(* ===== verification/Bio.thy ===== *)
theory Bio
  imports Sleeplock Console
begin

text \<open>
  The buffer cache, \<^verbatim>\<open>kernel/bio.c\<close>: NBUF buffers on a doubly linked ring sorted by how recently they were used.
  A \<^verbatim>\<open>struct buf *\<close> is an index below NBUF, and NBUF itself is the list head. The disk is a function from block
  numbers to blocks of BSIZE bytes together with the writes made to it, in order: a crash loses
  the writes after some point, so the order is what recovery depends on. \<^verbatim>\<open>virtio_disk_rw\<close> appears by what it
  promises to this layer: on return the block was transferred.
\<close>

abbreviation (input) BSIZE :: nat where "BSIZE \<equiv> 1024"

record buf =
  b_valid :: cint
  b_disk :: cint
  b_dev :: u32
  b_blockno :: u32
  b_lock :: sleeplock
  b_refcnt :: u32
  b_prev :: nat
  b_next :: nat
  b_data :: "u8 list"

type_synonym disk = "u32 \<Rightarrow> u8 list"

record bcache = conss +
  bufs :: "nat \<Rightarrow> buf"
  bdisk :: disk
  dwrites :: "(u32 \<times> u8 list) list"

abbreviation (input) bhead :: nat where "bhead \<equiv> NBUF"

definition upd_buf :: "nat \<Rightarrow> (buf \<Rightarrow> buf) \<Rightarrow> 'z bcache_scheme \<Rightarrow> 'z bcache_scheme" where
  "upd_buf b f s = s\<lparr>bufs := (bufs s)(b := f (bufs s b))\<rparr>"

definition buf_lock :: "nat \<Rightarrow> 'z bcache_scheme \<Rightarrow> sleeplock" where
  "buf_lock b s = b_lock (bufs s b)"

definition upd_buf_lock :: "nat \<Rightarrow> (sleeplock \<Rightarrow> sleeplock) \<Rightarrow> 'z bcache_scheme \<Rightarrow> 'z bcache_scheme" where
  "upd_buf_lock b f s = upd_buf b (\<lambda>x. x\<lparr>b_lock := f (b_lock x)\<rparr>) s"

text \<open>Linking \<open>b\<close> in right after the head, the assignments in the order of the code.\<close>

definition link_head :: "nat \<Rightarrow> 'z bcache_scheme \<Rightarrow> 'z bcache_scheme" where
  "link_head b s =
     (let s = upd_buf b (\<lambda>x. x\<lparr>b_next := b_next (bufs s bhead)\<rparr>) s;
          s = upd_buf b (\<lambda>x. x\<lparr>b_prev := bhead\<rparr>) s;
          s = upd_buf (b_next (bufs s bhead)) (\<lambda>x. x\<lparr>b_prev := b\<rparr>) s in
      upd_buf bhead (\<lambda>x. x\<lparr>b_next := b\<rparr>) s)"

definition unlink :: "nat \<Rightarrow> 'z bcache_scheme \<Rightarrow> 'z bcache_scheme" where
  "unlink b s =
     (let s = upd_buf (b_next (bufs s b)) (\<lambda>x. x\<lparr>b_prev := b_prev (bufs s b)\<rparr>) s in
      upd_buf (b_prev (bufs s b)) (\<lambda>x. x\<lparr>b_next := b_next (bufs s b)\<rparr>) s)"

definition binit :: "'z bcache_scheme \<Rightarrow> 'z bcache_scheme" where
  "binit s =
     fold (\<lambda>b s. upd_buf_lock b (\<lambda>_. initsleeplock ''buffer'') (link_head b s)) [0..<NBUF]
       (upd_buf bhead (\<lambda>x. x\<lparr>b_prev := bhead, b_next := bhead\<rparr>) s)"

text \<open>
  The search loops: from \<open>b\<close> along \<open>nxt\<close> to the head, for the first buffer with \<open>P\<close>. The fuel NBUF + 1 reaches the
  head of every ring of NBUF buffers; \<open>None\<close> is a ring that does not close.
\<close>

fun find_buf :: "nat \<Rightarrow> (buf \<Rightarrow> nat) \<Rightarrow> (buf \<Rightarrow> bool) \<Rightarrow> nat \<Rightarrow> 'z bcache_scheme \<Rightarrow> nat option option" where
  "find_buf 0 nxt P b s = None"
| "find_buf (Suc k) nxt P b s =
     (if b = bhead then Some None
      else if P (bufs s b) then Some (Some b)
      else find_buf k nxt P (nxt (bufs s b)) s)"

definition bget :: "u32 \<Rightarrow> u32 \<Rightarrow> 'z bcache_scheme \<Rightarrow> ('z bcache_scheme, nat) res" where
  "bget dev blockno s =
     (case find_buf (Suc NBUF) b_next (\<lambda>x. b_dev x = dev \<and> b_blockno x = blockno) (b_next (bufs s bhead)) s of
        None \<Rightarrow> Undef ''buffer list does not close''
      | Some (Some b) \<Rightarrow>
          let s = upd_buf b (\<lambda>x. x\<lparr>b_refcnt := b_refcnt x + 1\<rparr>) s in
          bnd (acquiresleep (Ch_buflock b) (buf_lock b) (upd_buf_lock b) s) (\<lambda>_ s. Ok b s)
      | Some None \<Rightarrow>
         (case find_buf (Suc NBUF) b_prev (\<lambda>x. b_refcnt x = 0) (b_prev (bufs s bhead)) s of
            None \<Rightarrow> Undef ''buffer list does not close''
          | Some None \<Rightarrow> Panic ''bget: no buffers''
          | Some (Some b) \<Rightarrow>
              let s = upd_buf b (\<lambda>x. x\<lparr>b_dev := dev, b_blockno := blockno, b_valid := 0, b_refcnt := 1\<rparr>) s in
              bnd (acquiresleep (Ch_buflock b) (buf_lock b) (upd_buf_lock b) s) (\<lambda>_ s. Ok b s)))"

definition virtio_disk_rw :: "nat \<Rightarrow> bool \<Rightarrow> 'z bcache_scheme \<Rightarrow> 'z bcache_scheme" where
  "virtio_disk_rw b write s =
     (let n = b_blockno (bufs s b) in
      if write
      then s\<lparr>bdisk := (bdisk s)(n := b_data (bufs s b)), dwrites := dwrites s @ [(n, b_data (bufs s b))]\<rparr>
      else upd_buf b (\<lambda>x. x\<lparr>b_data := bdisk s n\<rparr>) s)"

definition bread :: "u32 \<Rightarrow> u32 \<Rightarrow> 'z bcache_scheme \<Rightarrow> ('z bcache_scheme, nat) res" where
  "bread dev blockno s =
     bnd (bget dev blockno s) (\<lambda>b s.
       if b_valid (bufs s b) = 0 then Ok b (upd_buf b (\<lambda>x. x\<lparr>b_valid := 1\<rparr>) (virtio_disk_rw b False s))
       else Ok b s)"

definition bwrite :: "nat \<Rightarrow> 'z bcache_scheme \<Rightarrow> ('z bcache_scheme, unit) res" where
  "bwrite b s =
     bnd (holdingsleep (buf_lock b) s) (\<lambda>h s.
       if \<not> h then Panic ''bwrite'' else Ok () (virtio_disk_rw b True s))"

definition brelse :: "nat \<Rightarrow> 'z bcache_scheme \<Rightarrow> ('z bcache_scheme, unit) res" where
  "brelse b s =
     bnd (holdingsleep (buf_lock b) s) (\<lambda>h s.
       if \<not> h then Panic ''brelse''
       else
         let s = releasesleep (Ch_buflock b) (upd_buf_lock b) s;
             s = upd_buf b (\<lambda>x. x\<lparr>b_refcnt := b_refcnt x - 1\<rparr>) s in
         if b_refcnt (bufs s b) = 0 then Ok () (link_head b (unlink b s)) else Ok () s)"

definition bpin :: "nat \<Rightarrow> 'z bcache_scheme \<Rightarrow> 'z bcache_scheme" where
  "bpin b s = upd_buf b (\<lambda>x. x\<lparr>b_refcnt := b_refcnt x + 1\<rparr>) s"

definition bunpin :: "nat \<Rightarrow> 'z bcache_scheme \<Rightarrow> 'z bcache_scheme" where
  "bunpin b s = upd_buf b (\<lambda>x. x\<lparr>b_refcnt := b_refcnt x - 1\<rparr>) s"

end
