(* ===== verification/Virtio.thy ===== *)
theory Virtio
  imports Bio
begin

text \<open>
  The disk driver, \<^verbatim>\<open>kernel/virtio_disk.c\<close> with the structures of \<^verbatim>\<open>kernel/virtio.h\<close>: the descriptor table, the ring of requests
  for the device and the ring of its answers. \<open>virtio_disk_rw\<close> of \<open>Bio\<close> is what the rest of the kernel relies on; here it is the
  driver's two halves around the sleep, with the interrupt handler between them. The device itself is not part of the kernel:
  it is an argument of the property that needs it.

  An address in a descriptor is the kernel object it points to. A read of a device register gives the value \<open>vd_reads\<close> has for its
  offset; writes are recorded in order.
\<close>

abbreviation (input) NUM :: nat where "NUM \<equiv> 8"
abbreviation (input) VRING_DESC_F_NEXT :: u16 where "VRING_DESC_F_NEXT \<equiv> 1"
abbreviation (input) VRING_DESC_F_WRITE :: u16 where "VRING_DESC_F_WRITE \<equiv> 2"
abbreviation (input) VIRTIO_BLK_T_IN :: u32 where "VIRTIO_BLK_T_IN \<equiv> 0"
abbreviation (input) VIRTIO_BLK_T_OUT :: u32 where "VIRTIO_BLK_T_OUT \<equiv> 1"

datatype vaddr = Va_null | Va_op nat | Va_data nat | Va_status nat

record virtq_desc =
  vq_addr :: vaddr
  vq_len :: u32
  vq_flags :: u16
  vq_next :: u16

record virtio_blk_req =
  req_type :: u32
  req_reserved :: u32
  req_sector :: u64

record vdisk = bcache +
  vd_desc_pa :: u64
  vd_avail_pa :: u64
  vd_used_pa :: u64
  vd_desc :: "nat \<Rightarrow> virtq_desc"
  avail_idx :: u16
  avail_ring :: "nat \<Rightarrow> u16"
  used_ring_idx :: u16
  used_ring :: "nat \<Rightarrow> u32"
  vd_free :: "nat \<Rightarrow> u8"
  vd_used_idx :: u16
  info_b :: "nat \<Rightarrow> nat option"
  info_status :: "nat \<Rightarrow> u8"
  vd_ops :: "nat \<Rightarrow> virtio_blk_req"
  vd_reads :: "nat \<Rightarrow> u32"
  vd_writes :: "(nat \<times> u32) list"

definition upd_desc :: "nat \<Rightarrow> virtq_desc \<Rightarrow> 'z vdisk_scheme \<Rightarrow> 'z vdisk_scheme" where
  "upd_desc i d s = s\<lparr>vd_desc := (vd_desc s)(i := d)\<rparr>"

definition vd_write :: "nat \<Rightarrow> u32 \<Rightarrow> 'z vdisk_scheme \<Rightarrow> 'z vdisk_scheme" where
  "vd_write r v s = s\<lparr>vd_writes := vd_writes s @ [(r, v)]\<rparr>"

section \<open>Initialisation\<close>

text \<open>The features kept: all but RO, SCSI, CONFIG_WCE, MQ, ANY_LAYOUT, EVENT_IDX and INDIRECT_DESC.\<close>

definition vd_features :: "u32 \<Rightarrow> u32" where
  "vd_features f = fold (\<lambda>b f. f AND NOT (push_bit b 1)) [5, 7, 11, 12, 27, 29, 28] f"

definition null_desc :: virtq_desc where
  "null_desc = \<lparr>vq_addr = Va_null, vq_len = 0, vq_flags = 0, vq_next = 0\<rparr>"

definition virtio_disk_init :: "'z vdisk_scheme \<Rightarrow> ('z vdisk_scheme, unit) res" where
  "virtio_disk_init s =
     (if vd_reads s 0x000 \<noteq> 0x74726976 \<or> vd_reads s 0x004 \<noteq> 2 \<or> vd_reads s 0x008 \<noteq> 2 \<or> vd_reads s 0x00c \<noteq> 0x554d4551
      then Panic ''could not find virtio disk''
      else
        let s = vd_write 0x070 0 s;
            s = vd_write 0x070 1 s;
            s = vd_write 0x070 3 s;
            s = vd_write 0x020 (vd_features (vd_reads s 0x010)) s;
            s = vd_write 0x070 11 s;
            status = vd_reads s 0x070 in
        if status AND 8 = 0 then Panic ''virtio disk FEATURES_OK unset''
        else
          let s = vd_write 0x030 0 s in
          if vd_reads s 0x044 \<noteq> 0 then Panic ''virtio disk should not be ready''
          else if vd_reads s 0x034 = 0 then Panic ''virtio disk has no queue 0''
          else if vd_reads s 0x034 < of_nat NUM then Panic ''virtio disk max queue too short''
          else
            bnd (kalloc s) (\<lambda>d s. bnd (kalloc s) (\<lambda>a s. bnd (kalloc s) (\<lambda>u s.
              let s = s\<lparr>vd_desc_pa := d, vd_avail_pa := a, vd_used_pa := u\<rparr> in
              if d = 0 \<or> a = 0 \<or> u = 0 then Panic ''virtio disk kalloc''
              else
                let s = s\<lparr>vd_desc := (\<lambda>i. if i < NUM then null_desc else vd_desc s i), avail_idx := 0, avail_ring := (\<lambda>i. if i < NUM then 0 else avail_ring s i),
                      used_ring_idx := 0, used_ring := (\<lambda>i. if i < NUM then 0 else used_ring s i)\<rparr>;
                    s = vd_write 0x038 (of_nat NUM) s;
                    s = vd_write 0x080 (ucast d) s;
                    s = vd_write 0x084 (ucast (drop_bit 32 d)) s;
                    s = vd_write 0x090 (ucast a) s;
                    s = vd_write 0x094 (ucast (drop_bit 32 a)) s;
                    s = vd_write 0x0a0 (ucast u) s;
                    s = vd_write 0x0a4 (ucast (drop_bit 32 u)) s;
                    s = vd_write 0x044 1 s;
                    s = s\<lparr>vd_free := (\<lambda>i. if i < NUM then 1 else vd_free s i)\<rparr> in
                Ok () (vd_write 0x070 (status OR 4) s)))))"

section \<open>Descriptors\<close>

definition alloc_desc :: "'z vdisk_scheme \<Rightarrow> nat option \<times> 'z vdisk_scheme" where
  "alloc_desc s =
     (case first_index (\<lambda>i. vd_free s i \<noteq> 0) NUM of
        None \<Rightarrow> (None, s)
      | Some i \<Rightarrow> (Some i, s\<lparr>vd_free := (vd_free s)(i := 0)\<rparr>))"

definition free_desc :: "nat \<Rightarrow> 'z vdisk_scheme \<Rightarrow> ('z vdisk_scheme, unit) res" where
  "free_desc i s =
     (if NUM \<le> i then Panic ''free_desc 1''
      else if vd_free s i \<noteq> 0 then Panic ''free_desc 2''
      else Ok () (wakeup (Some Ch_disk) ((upd_desc i null_desc s)\<lparr>vd_free := (vd_free s)(i := 1)\<rparr>)))"

text \<open>\<^verbatim>\<open>free_chain\<close>: a descriptor can be freed once, so NUM rounds always reach the end of the chain or a panic.\<close>

fun free_chain_loop :: "nat \<Rightarrow> nat \<Rightarrow> 'z vdisk_scheme \<Rightarrow> ('z vdisk_scheme, unit) res" where
  "free_chain_loop 0 i s = Undef ''descriptor chain does not end''"
| "free_chain_loop (Suc k) i s =
     (let flag = vq_flags (vd_desc s i);
          nxt = vq_next (vd_desc s i) in
      bnd (free_desc i s) (\<lambda>_ s.
        if flag AND VRING_DESC_F_NEXT \<noteq> 0 then free_chain_loop k (unat nxt) s else Ok () s))"

definition free_chain :: "nat \<Rightarrow> 'z vdisk_scheme \<Rightarrow> ('z vdisk_scheme, unit) res" where
  "free_chain i s = free_chain_loop (Suc NUM) i s"

text \<open>\<^verbatim>\<open>alloc3_desc\<close>, with the descriptors so far: on failure they are freed again.\<close>

fun alloc3_loop :: "nat \<Rightarrow> nat list \<Rightarrow> 'z vdisk_scheme \<Rightarrow> ('z vdisk_scheme, nat list option) res" where
  "alloc3_loop 0 idx s = Ok (Some idx) s"
| "alloc3_loop (Suc k) idx s =
     (case alloc_desc s of
        (Some i, s) \<Rightarrow> alloc3_loop k (idx @ [i]) s
      | (None, s) \<Rightarrow> bnd (loop free_desc idx s) (\<lambda>_ s. Ok None s))"

definition alloc3_desc :: "'z vdisk_scheme \<Rightarrow> ('z vdisk_scheme, nat list option) res" where
  "alloc3_desc s = alloc3_loop 3 [] s"

section \<open>A transfer\<close>

text \<open>The part of \<^verbatim>\<open>virtio_disk_rw\<close> that formats the chain \<open>i, j, k\<close> and hands it to the device.\<close>

definition submit :: "nat \<Rightarrow> bool \<Rightarrow> nat \<Rightarrow> nat \<Rightarrow> nat \<Rightarrow> 'z vdisk_scheme \<Rightarrow> 'z vdisk_scheme" where
  "submit b write i j k s =
     (let sector = ucast (b_blockno (bufs s b) * 2);
          s = s\<lparr>vd_ops := (vd_ops s)(i := \<lparr>req_type = (if write then VIRTIO_BLK_T_OUT else VIRTIO_BLK_T_IN), req_reserved = 0, req_sector = sector\<rparr>)\<rparr>;
          s = upd_desc i \<lparr>vq_addr = Va_op i, vq_len = 16, vq_flags = VRING_DESC_F_NEXT, vq_next = of_nat j\<rparr> s;
          s = upd_desc j \<lparr>vq_addr = Va_data b, vq_len = of_nat BSIZE,
                vq_flags = (if write then 0 else VRING_DESC_F_WRITE) OR VRING_DESC_F_NEXT, vq_next = of_nat k\<rparr> s;
          s = s\<lparr>info_status := (info_status s)(i := 0xff)\<rparr>;
          s = upd_desc k \<lparr>vq_addr = Va_status i, vq_len = 1, vq_flags = VRING_DESC_F_WRITE, vq_next = 0\<rparr> s;
          s = upd_buf b (\<lambda>x. x\<lparr>b_disk := 1\<rparr>) s;
          s = s\<lparr>info_b := (info_b s)(i := Some b)\<rparr>;
          s = s\<lparr>avail_ring := (avail_ring s)(unat (avail_idx s) mod NUM := of_nat i)\<rparr>;
          s = s\<lparr>avail_idx := avail_idx s + 1\<rparr> in
      vd_write 0x050 0 s)"

text \<open>\<^verbatim>\<open>virtio_disk_rw\<close> up to its wait for the answer: the first descriptor of the chain. Without three descriptors it sleeps.\<close>

definition virtio_disk_start :: "nat \<Rightarrow> bool \<Rightarrow> 'z vdisk_scheme \<Rightarrow> ('z vdisk_scheme, nat) res" where
  "virtio_disk_start b write s =
     bnd (alloc3_desc s) (\<lambda>r s.
       case r of
         Some [i, j, k] \<Rightarrow> Ok i (submit b write i j k s)
       | _ \<Rightarrow> sleep Ch_disk s)"

text \<open>The rest of it, from the loop that waits for the answer on.\<close>

definition virtio_disk_finish :: "nat \<Rightarrow> nat \<Rightarrow> 'z vdisk_scheme \<Rightarrow> ('z vdisk_scheme, unit) res" where
  "virtio_disk_finish b i s =
     (if b_disk (bufs s b) = 1 then sleep (Ch_buf b) s
      else free_chain i (s\<lparr>info_b := (info_b s)(i := None)\<rparr>))"

text \<open>The loop of \<^verbatim>\<open>virtio_disk_intr\<close>, for the \<open>k\<close> answers between \<^verbatim>\<open>used_idx\<close> and the device's counter.\<close>

fun intr_loop :: "nat \<Rightarrow> 'z vdisk_scheme \<Rightarrow> ('z vdisk_scheme, unit) res" where
  "intr_loop 0 s = Ok () s"
| "intr_loop (Suc k) s =
     (let id = unat (used_ring s (unat (vd_used_idx s) mod NUM)) in
      if NUM \<le> id then Undef ''disk.info''
      else if info_status s id \<noteq> 0 then Panic ''virtio_disk_intr status''
      else case info_b s id of
        None \<Rightarrow> Undef ''info.b is null''
      | Some b \<Rightarrow>
          let s = wakeup (Some (Ch_buf b)) (upd_buf b (\<lambda>x. x\<lparr>b_disk := 0\<rparr>) s) in
          intr_loop k (s\<lparr>vd_used_idx := vd_used_idx s + 1\<rparr>))"

definition virtio_disk_intr :: "'z vdisk_scheme \<Rightarrow> ('z vdisk_scheme, unit) res" where
  "virtio_disk_intr s =
     (let s = vd_write 0x064 (vd_reads s 0x060 AND 3) s in
      intr_loop (unat (used_ring_idx s - vd_used_idx s)) s)"

section \<open>What the device finds and does\<close>

text \<open>
  The request at the head \<open>h\<close> of a chain, as the virtio specification lays it out: a header, the block's data, a status byte; whether it
  is a write, the sector, the buffer and the status byte. A malformed chain is no request.
\<close>

definition vd_request :: "'z vdisk_scheme \<Rightarrow> nat \<Rightarrow> (bool \<times> u64 \<times> nat \<times> nat) option" where
  "vd_request s h =
     (let d0 = vd_desc s h; d1 = vd_desc s (unat (vq_next d0)); d2 = vd_desc s (unat (vq_next d1)) in
      case (vq_addr d0, vq_addr d1, vq_addr d2) of
        (Va_op i, Va_data b, Va_status k) \<Rightarrow>
          let write = (req_type (vd_ops s i) = VIRTIO_BLK_T_OUT) in
          if vq_flags d0 = VRING_DESC_F_NEXT \<and> vq_len d0 = 16
            \<and> vq_flags d1 = (if write then VRING_DESC_F_NEXT else VRING_DESC_F_NEXT OR VRING_DESC_F_WRITE) \<and> vq_len d1 = of_nat BSIZE
            \<and> vq_flags d2 = VRING_DESC_F_WRITE \<and> vq_len d2 = 1
          then Some (write, req_sector (vd_ops s i), b, k) else None
      | _ \<Rightarrow> None)"

text \<open>The transfer, the status and the answer of the device for a request.\<close>

definition vd_serve :: "nat \<Rightarrow> bool \<Rightarrow> u64 \<Rightarrow> nat \<Rightarrow> nat \<Rightarrow> 'z vdisk_scheme \<Rightarrow> 'z vdisk_scheme" where
  "vd_serve h write sector b k s =
     (let n = ucast (sector div 2);
          s = (if write then s\<lparr>bdisk := (bdisk s)(n := b_data (bufs s b)), dwrites := dwrites s @ [(n, b_data (bufs s b))]\<rparr>
               else upd_buf b (\<lambda>x. x\<lparr>b_data := bdisk s n\<rparr>) s) in
      s\<lparr>info_status := (info_status s)(k := 0), used_ring := (used_ring s)(unat (used_ring_idx s) mod NUM := of_nat h),
        used_ring_idx := used_ring_idx s + 1\<rparr>)"

text \<open>A device that serves the request it was notified of last, the one in the slot before \<^verbatim>\<open>avail->idx\<close>.\<close>

definition device_serves :: "('z vdisk_scheme \<Rightarrow> 'z vdisk_scheme) \<Rightarrow> bool" where
  "device_serves dev \<longleftrightarrow> (\<forall>s h write sector b k. h = unat (avail_ring s (unat (avail_idx s - 1) mod NUM))
     \<longrightarrow> vd_request s h = Some (write, sector, b, k) \<longrightarrow> dev s = vd_serve h write sector b k s)"

section \<open>The driver and the device transfer a block\<close>

definition free_descs :: "'z vdisk_scheme \<Rightarrow> nat set" where
  "free_descs s = {i. i < NUM \<and> vd_free s i \<noteq> 0}"

lemma alloc_desc_Some:
  assumes "free_descs s \<noteq> {}"
  obtains i where "alloc_desc s = (Some i, s\<lparr>vd_free := (vd_free s)(i := 0)\<rparr>)" and "i \<in> free_descs s"
    and "free_descs (s\<lparr>vd_free := (vd_free s)(i := 0)\<rparr>) = free_descs s - {i}"
proof -
  obtain i where i: "first_index (\<lambda>i. vd_free s i \<noteq> 0) NUM = Some i"
    using assms first_index_None[of "\<lambda>i. vd_free s i \<noteq> 0" NUM] by (cases "first_index (\<lambda>i. vd_free s i \<noteq> 0) NUM") (auto simp: free_descs_def)
  from first_index_Some[OF i] show ?thesis using i by (intro that[of i]) (auto simp: alloc_desc_def free_descs_def)
qed

lemma alloc3_Ok:
  assumes "3 \<le> card (free_descs s)"
  shows "\<exists>i j k. alloc3_desc s = Ok (Some [i, j, k]) (s\<lparr>vd_free := (vd_free s)(i := 0, j := 0, k := 0)\<rparr>)
    \<and> {i, j, k} \<subseteq> free_descs s \<and> i \<noteq> j \<and> i \<noteq> k \<and> j \<noteq> k"
proof -
  have f: "finite (free_descs s)" by (simp add: free_descs_def)
  have "free_descs s \<noteq> {}" using assms by auto
  from alloc_desc_Some[OF this] obtain i where i: "alloc_desc s = (Some i, s\<lparr>vd_free := (vd_free s)(i := 0)\<rparr>)" "i \<in> free_descs s"
    "free_descs (s\<lparr>vd_free := (vd_free s)(i := 0)\<rparr>) = free_descs s - {i}" .
  let ?s = "s\<lparr>vd_free := (vd_free s)(i := 0)\<rparr>"
  have "card (free_descs ?s) \<ge> 2" using i(2,3) assms f by simp
  then have "free_descs ?s \<noteq> {}" by auto
  from alloc_desc_Some[OF this] obtain j where j: "alloc_desc ?s = (Some j, ?s\<lparr>vd_free := (vd_free ?s)(j := 0)\<rparr>)" "j \<in> free_descs ?s"
    "free_descs (?s\<lparr>vd_free := (vd_free ?s)(j := 0)\<rparr>) = free_descs ?s - {j}" .
  let ?t = "?s\<lparr>vd_free := (vd_free ?s)(j := 0)\<rparr>"
  have "card (free_descs ?t) \<ge> 1" using i(2,3) j(2,3) assms f by simp
  then have "free_descs ?t \<noteq> {}" by auto
  from alloc_desc_Some[OF this] obtain k where k: "alloc_desc ?t = (Some k, ?t\<lparr>vd_free := (vd_free ?t)(k := 0)\<rparr>)" "k \<in> free_descs ?t" .
  have "alloc3_desc s = Ok (Some [i, j, k]) (?t\<lparr>vd_free := (vd_free ?t)(k := 0)\<rparr>)"
    using i(1) j(1) k(1) by (simp add: alloc3_desc_def numeral_3_eq_3)
  moreover have "?t\<lparr>vd_free := (vd_free ?t)(k := 0)\<rparr> = s\<lparr>vd_free := (vd_free s)(i := 0, j := 0, k := 0)\<rparr>" by simp
  moreover have "j \<in> free_descs s" "i \<noteq> j" using j(2) unfolding i(3) by simp_all
  moreover have "k \<in> free_descs s" "i \<noteq> k" "j \<noteq> k" using k(2) unfolding j(3) i(3) by simp_all
  ultimately show ?thesis using i(2) by (intro exI[of _ i] exI[of _ j] exI[of _ k]) (simp only: insert_subset empty_subsetI simp_thms)
qed

lemma free_desc_Ok:
  "i < NUM \<Longrightarrow> vd_free s i = 0
    \<Longrightarrow> free_desc i s = Ok () (wakeup (Some Ch_disk) ((upd_desc i null_desc s)\<lparr>vd_free := (vd_free s)(i := 1)\<rparr>))"
  by (simp add: free_desc_def)

lemma wakeup_vdisk [simp]:
  "vd_desc (wakeup c s) = vd_desc s" "vd_free (wakeup c s) = vd_free s" "bufs (wakeup c s) = bufs s" "bdisk (wakeup c s) = bdisk s"
  "dwrites (wakeup c s) = dwrites s" "vd_used_idx (wakeup c s) = vd_used_idx s" "used_ring_idx (wakeup c s) = used_ring_idx s"
  by (simp_all add: wakeup_def each_proc_def)

text \<open>Freeing a chain of three gives back the three descriptors and touches nothing else the driver relies on.\<close>

lemma free_chain3:
  assumes "vq_flags (vd_desc s i) = VRING_DESC_F_NEXT" and "vq_next (vd_desc s i) = of_nat j"
    and "vq_flags (vd_desc s j) AND VRING_DESC_F_NEXT \<noteq> 0" and "vq_next (vd_desc s j) = of_nat k" and "vq_flags (vd_desc s k) = VRING_DESC_F_WRITE"
    and "i < NUM" "j < NUM" "k < NUM" "i \<noteq> j" "i \<noteq> k" "j \<noteq> k" "vd_free s i = 0" "vd_free s j = 0" "vd_free s k = 0"
  shows "\<exists>t. free_chain i s = Ok () t \<and> vd_free t = (vd_free s)(i := 1, j := 1, k := 1) \<and> bufs t = bufs s \<and> bdisk t = bdisk s
    \<and> dwrites t = dwrites s \<and> vd_used_idx t = vd_used_idx s \<and> used_ring_idx t = used_ring_idx s"
proof -
  have u: "unat (of_nat j :: u16) = j" "unat (of_nat k :: u16) = k" using assms(7,8) by (simp_all add: unat_of_nat)
  have f: "(1 :: u16) AND 1 \<noteq> 0" "(2 :: u16) AND 1 = 0" by simp_all
  define s1 where "s1 = wakeup (Some Ch_disk) ((upd_desc i null_desc s)\<lparr>vd_free := (vd_free s)(i := 1)\<rparr>)"
  define s2 where "s2 = wakeup (Some Ch_disk) ((upd_desc j null_desc s1)\<lparr>vd_free := (vd_free s1)(j := 1)\<rparr>)"
  define s3 where "s3 = wakeup (Some Ch_disk) ((upd_desc k null_desc s2)\<lparr>vd_free := (vd_free s2)(k := 1)\<rparr>)"
  have d1: "vd_desc s1 j = vd_desc s j" "vd_desc s1 k = vd_desc s k" "vd_free s1 = (vd_free s)(i := 1)" using assms(9,10) by (simp_all add: s1_def upd_desc_def)
  have d2: "vd_desc s2 k = vd_desc s k" "vd_free s2 = (vd_free s)(i := 1, j := 1)" using assms(11) d1 by (simp_all add: s2_def upd_desc_def)
  have r: "free_desc i s = Ok () s1" "free_desc j s1 = Ok () s2" "free_desc k s2 = Ok () s3"
    using assms d1 d2 by (simp_all add: free_desc_Ok s1_def s2_def s3_def)
  have "free_chain i s = Ok () s3"
    using r assms(1-5) u d1 d2 f by (simp add: free_chain_def numeral_eq_Suc)
  moreover have "vd_free s3 = (vd_free s)(i := 1, j := 1, k := 1)" using d2 by (simp add: s3_def)
  moreover have "bufs s3 = bufs s \<and> bdisk s3 = bdisk s \<and> dwrites s3 = dwrites s \<and> vd_used_idx s3 = vd_used_idx s \<and> used_ring_idx s3 = used_ring_idx s"
    by (simp add: s1_def s2_def s3_def upd_desc_def)
  ultimately show ?thesis by blast
qed

lemma sector_block: "unat n < 2 ^ 31 \<Longrightarrow> ucast (ucast (n * 2) div 2 :: u64) = n" for n :: u32
proof -
  assume n: "unat n < 2 ^ 31"
  then have "unat (n * 2) = unat n * 2" by (simp add: unat_word_ariths)
  moreover have "take_bit 64 (unat n * 2) = unat n * 2" using n by (intro take_bit_nat_eq_self) simp
  ultimately have "unat (ucast (n * 2) div 2 :: u64) = unat n" by (simp add: unat_div unsigned_ucast_eq)
  then have "(ucast (n * 2) div 2 :: u64) = ucast n" by (simp add: word_unat_eq_iff unsigned_ucast_eq take_bit_nat_eq_self[OF less_trans[OF unat_u32]])
  then show ?thesis by (simp add: word_unat_eq_iff unsigned_ucast_eq take_bit_nat_eq_self[OF unat_u32])
qed

lemma submit_state:
  fixes s :: "'z vdisk_scheme" and b :: nat and "write" :: bool and i j k :: nat
  assumes "i \<noteq> j" "i \<noteq> k" "j \<noteq> k"
  defines "t \<equiv> submit b write i j k s"
  shows "vd_desc t i = \<lparr>vq_addr = Va_op i, vq_len = 16, vq_flags = VRING_DESC_F_NEXT, vq_next = of_nat j\<rparr>"
    "vd_desc t j = \<lparr>vq_addr = Va_data b, vq_len = of_nat BSIZE, vq_flags = (if write then 0 else VRING_DESC_F_WRITE) OR VRING_DESC_F_NEXT, vq_next = of_nat k\<rparr>"
    "vd_desc t k = \<lparr>vq_addr = Va_status i, vq_len = 1, vq_flags = VRING_DESC_F_WRITE, vq_next = 0\<rparr>"
    "vd_ops t i = \<lparr>req_type = (if write then VIRTIO_BLK_T_OUT else VIRTIO_BLK_T_IN), req_reserved = 0, req_sector = ucast (b_blockno (bufs s b) * 2)\<rparr>"
    "info_b t i = Some b" "avail_idx t = avail_idx s + 1" "avail_ring t (unat (avail_idx s) mod NUM) = of_nat i"
    "vd_free t = vd_free s" "used_ring_idx t = used_ring_idx s" "vd_used_idx t = vd_used_idx s" "bdisk t = bdisk s" "dwrites t = dwrites s"
    "bufs t = (bufs s)(b := (bufs s b)\<lparr>b_disk := 1\<rparr>)"
  using assms(1-3) by (simp_all add: t_def submit_def Let_def upd_desc_def upd_buf_def vd_write_def)

lemma submit_request:
  assumes "i \<noteq> j" "i \<noteq> k" "j \<noteq> k" "j < NUM" "k < NUM"
  shows "vd_request (submit b write i j k s) i = Some (write, ucast (b_blockno (bufs s b) * 2), b, i)"
proof -
  have u: "unat (of_nat j :: u16) = j" "unat (of_nat k :: u16) = k" using assms(4,5) by (simp_all add: unat_of_nat)
  have f: "(2 :: u16) OR 1 = 1 OR 2" by simp
  show ?thesis by (simp add: vd_request_def Let_def submit_state[OF assms(1-3)] u f)
qed

lemma intr_one:
  assumes "vd_used_idx s + 1 = used_ring_idx s" and "unat (used_ring s (unat (vd_used_idx s) mod NUM)) = i" and "i < NUM"
    and "info_status s i = 0" and "info_b s i = Some b"
  shows "\<exists>t. virtio_disk_intr s = Ok () t \<and> bufs t = (bufs s)(b := (bufs s b)\<lparr>b_disk := 0\<rparr>) \<and> bdisk t = bdisk s \<and> dwrites t = dwrites s
    \<and> vd_free t = vd_free s \<and> vd_desc t = vd_desc s \<and> vd_used_idx t = used_ring_idx s \<and> used_ring_idx t = used_ring_idx s"
proof -
  have "used_ring_idx s - vd_used_idx s = 1" using assms(1) by (simp add: algebra_simps flip: assms(1))
  then have n: "unat (used_ring_idx s - vd_used_idx s) = Suc 0" by simp
  show ?thesis using assms by (simp add: virtio_disk_intr_def vd_write_def Let_def n upd_buf_def)
qed

lemma vd_serve_state:
  fixes s :: "'z vdisk_scheme" and b :: nat and "write" :: bool and h k :: nat and sector :: u64
  defines "t \<equiv> vd_serve h write sector b k s"
  shows "vd_used_idx t = vd_used_idx s" "used_ring_idx t = used_ring_idx s + 1" "used_ring t (unat (used_ring_idx s) mod NUM) = of_nat h"
    "info_status t k = 0" "info_b t = info_b s" "vd_free t = vd_free s" "vd_desc t = vd_desc s"
    "bdisk t = (if write then (bdisk s)(ucast (sector div 2) := b_data (bufs s b)) else bdisk s)"
    "dwrites t = (if write then dwrites s @ [(ucast (sector div 2), b_data (bufs s b))] else dwrites s)"
    "bufs t = (if write then bufs s else (bufs s)(b := (bufs s b)\<lparr>b_data := bdisk s (ucast (sector div 2))\<rparr>))"
  by (simp_all add: t_def vd_serve_def Let_def upd_buf_def)

text \<open>C22: The disk driver implements the transfer the buffer cache relies on. With three free descriptors, the driver submits a request;
  any device that serves requests as the virtio specification lays them out, followed by the completion interrupt, makes
  \<^verbatim>\<open>virtio_disk_rw\<close> return with the block transferred exactly as \<open>virtio_disk_rw\<close> of the cache layer says, and every
  descriptor is free again.
\<close>

theorem virtio_transfer:
  fixes s :: "'z vdisk_scheme" and dev :: "'z vdisk_scheme \<Rightarrow> 'z vdisk_scheme"
  assumes "3 \<le> card (free_descs s)" and "\<And>i. vd_free s i \<in> {0, 1}" and "used_ring_idx s = vd_used_idx s"
    and "b_disk (bufs s b) = 0" and "unat (b_blockno (bufs s b)) < 2 ^ 31" and "device_serves dev"
  shows "\<exists>i t u v. virtio_disk_start b write s = Ok i t \<and> virtio_disk_intr (dev t) = Ok () u \<and> virtio_disk_finish b i u = Ok () v
    \<and> bdisk v = bdisk (virtio_disk_rw b write s) \<and> bufs v = bufs (virtio_disk_rw b write s) \<and> dwrites v = dwrites (virtio_disk_rw b write s)
    \<and> vd_free v = vd_free s \<and> used_ring_idx v = vd_used_idx v"
proof -
  obtain i j k where a: "alloc3_desc s = Ok (Some [i, j, k]) (s\<lparr>vd_free := (vd_free s)(i := 0, j := 0, k := 0)\<rparr>)"
    and free: "{i, j, k} \<subseteq> free_descs s" and ne: "i \<noteq> j" "i \<noteq> k" "j \<noteq> k" using alloc3_Ok[OF assms(1)] by blast
  have lt: "i < NUM" "j < NUM" "k < NUM" and one: "vd_free s i = 1" "vd_free s j = 1" "vd_free s k = 1"
    using free assms(2)[of i] assms(2)[of j] assms(2)[of k] by (auto simp: free_descs_def)
  let ?s = "s\<lparr>vd_free := (vd_free s)(i := 0, j := 0, k := 0)\<rparr>"
  define t where "t = submit b write i j k ?s"
  let ?sec = "ucast (b_blockno (bufs s b) * 2) :: u64"
  note st = submit_state[OF ne, of b "write" ?s, folded t_def, simplified]
  have start: "virtio_disk_start b write s = Ok i t" using a by (simp add: virtio_disk_start_def t_def)
  have head: "unat (avail_ring t (unat (avail_idx t - 1) mod NUM)) = i" using lt st by (simp add: unat_of_nat)
  have dev: "dev t = vd_serve i write ?sec b i t"
    using assms(6) head submit_request[OF ne lt(2,3), of b "write" ?s, folded t_def] by (simp add: device_serves_def)
  have blk: "ucast (?sec div 2) = b_blockno (bufs s b)" by (rule sector_block[OF assms(5)])
  note sv = vd_serve_state[of i "write" ?sec b i t, folded dev]
  obtain u where u: "virtio_disk_intr (dev t) = Ok () u" "bufs u = (bufs (dev t))(b := (bufs (dev t) b)\<lparr>b_disk := 0\<rparr>)"
      "bdisk u = bdisk (dev t)" "dwrites u = dwrites (dev t)" "vd_free u = vd_free (dev t)" "vd_desc u = vd_desc (dev t)"
      "vd_used_idx u = used_ring_idx u"
    using intr_one[of "dev t" i b] lt(1) assms(3) st(5,9,10) sv by (auto simp: unat_of_nat)
  let ?u = "u\<lparr>info_b := (info_b u)(i := None)\<rparr>"
  have d: "vd_desc ?u = vd_desc t" "vd_free ?u = vd_free t" using u(5,6) sv(6,7) by simp_all
  obtain v where v: "free_chain i ?u = Ok () v" "vd_free v = (vd_free ?u)(i := 1, j := 1, k := 1)" "bufs v = bufs u" "bdisk v = bdisk u"
      "dwrites v = dwrites u" "vd_used_idx v = vd_used_idx u" "used_ring_idx v = used_ring_idx u"
    using free_chain3[of ?u i j k] lt ne st d by (auto simp: unat_of_nat)
  have fin: "virtio_disk_finish b i u = Ok () v" using v(1) u(2) by (simp add: virtio_disk_finish_def)
  have fr: "vd_free v = vd_free s" using v(2) d(2) st one ne by (auto simp: fun_eq_iff)
  have eff: "bdisk v = bdisk (virtio_disk_rw b write s) \<and> bufs v = bufs (virtio_disk_rw b write s) \<and> dwrites v = dwrites (virtio_disk_rw b write s)"
    using v(3-5) u(2-4) st(11-13) sv(8-10) assms(4) blk by (simp add: virtio_disk_rw_def Let_def upd_buf_def fun_eq_iff)
  show ?thesis using start u(1,7) fin fr eff v(6,7) by auto
qed

text \<open>A device of this kind, and a driver at rest with one buffer to write.\<close>

definition vd_device :: "'z vdisk_scheme \<Rightarrow> 'z vdisk_scheme" where
  "vd_device s =
     (let h = unat (avail_ring s (unat (avail_idx s - 1) mod NUM)) in
      case vd_request s h of None \<Rightarrow> s | Some (write, sector, b, k) \<Rightarrow> vd_serve h write sector b k s)"

definition demo_buf :: buf where
  "demo_buf = \<lparr>b_valid = 1, b_disk = 0, b_dev = 1, b_blockno = 7, b_lock = initsleeplock ''buffer'', b_refcnt = 1, b_prev = 0, b_next = 0,
     b_data = replicate BSIZE 65\<rparr>"

definition demo_vdisk :: vdisk where
  "demo_vdisk = bcache.extend (conss.extend (demo_conss 0 []) \<lparr>bufs = (\<lambda>_. demo_buf), bdisk = (\<lambda>_. replicate BSIZE 0), dwrites = []\<rparr>)
     \<lparr>vd_desc_pa = 0, vd_avail_pa = 0, vd_used_pa = 0, vd_desc = (\<lambda>_. null_desc), avail_idx = 0xffff, avail_ring = (\<lambda>_. 0), used_ring_idx = 0xffff,
       used_ring = (\<lambda>_. 0), vd_free = (\<lambda>i. if i < NUM then 1 else 0), vd_used_idx = 0xffff, info_b = (\<lambda>_. None), info_status = (\<lambda>_. 0),
       vd_ops = (\<lambda>_. \<lparr>req_type = 0, req_reserved = 0, req_sector = 0\<rparr>), vd_reads = (\<lambda>_. 0), vd_writes = []\<rparr>"

theorem virtio_transfer_witness:
  "\<exists>i t u v. virtio_disk_start 0 True demo_vdisk = Ok i t \<and> virtio_disk_intr (vd_device t) = Ok () u \<and> virtio_disk_finish 0 i u = Ok () v
    \<and> bdisk v 7 = replicate BSIZE 65 \<and> vd_free v = vd_free demo_vdisk"
proof -
  have f: "free_descs demo_vdisk = {..<8}" by (auto simp: free_descs_def demo_vdisk_def bcache.defs)
  have d: "device_serves vd_device" by (simp add: device_serves_def vd_device_def)
  have c: "3 \<le> card (free_descs demo_vdisk)" by (simp add: f)
  have z: "vd_free demo_vdisk i \<in> {0, 1}" for i by (simp add: demo_vdisk_def bcache.defs)
  have b: "used_ring_idx demo_vdisk = vd_used_idx demo_vdisk" "bufs demo_vdisk 0 = demo_buf"
    by (simp_all add: demo_vdisk_def bcache.defs conss.defs)
  have q: "b_disk (bufs demo_vdisk 0) = 0" "unat (b_blockno (bufs demo_vdisk 0)) < 2 ^ 31" by (simp_all add: b demo_buf_def)
  have w: "bdisk (virtio_disk_rw 0 True demo_vdisk) 7 = replicate BSIZE 65"
    by (simp add: virtio_disk_rw_def Let_def b demo_buf_def)
  show ?thesis using virtio_transfer[OF c z b(1) q d, of True] w by auto
qed

end
