(* ===== verification/Log.thy ===== *)
theory Log
  imports Virtio
begin

text \<open>
  The log, \<^verbatim>\<open>kernel/log.c\<close>: file system calls are bracketed by \<^verbatim>\<open>begin_op\<close> and \<^verbatim>\<open>end_op\<close>; the blocks they modify are
  recorded by \<^verbatim>\<open>log_write\<close>, and the last \<^verbatim>\<open>end_op\<close> commits them: to the log, then the header, then their home locations.
  The header block is read and written byte for byte: the count at offset 0 and \<^verbatim>\<open>block[i]\<close> at 4 + 4 i.

  The lock \<^verbatim>\<open>log.lock\<close> is left out, each call being one step. So is the window in which \<^verbatim>\<open>end_op\<close> commits without the lock: the
  commit is part of the step of the last \<^verbatim>\<open>end_op\<close>. During it \<^verbatim>\<open>committing\<close> is 1 and no call is in progress, so another process
  that reaches the log can only sleep in \<^verbatim>\<open>begin_op\<close>, which changes nothing of the log.
\<close>

abbreviation (input) MAXOPBLOCKS :: nat where "MAXOPBLOCKS \<equiv> 10"
abbreviation (input) LOGSIZE :: nat where "LOGSIZE \<equiv> 30"

record logst = vdisk +
  l_start :: cint
  l_size :: cint
  l_outstanding :: cint
  l_committing :: cint
  l_dev :: cint
  lh_n :: cint
  lh_block :: "nat \<Rightarrow> cint"

text \<open>The number of rounds of \<^verbatim>\<open>for (i = 0; i < log.lh.n; i++)\<close>.\<close>

definition lh_len :: "'z logst_scheme \<Rightarrow> nat" where
  "lh_len s = nat (sint (lh_n s))"

definition install_one :: "bool \<Rightarrow> nat \<Rightarrow> 'z logst_scheme \<Rightarrow> ('z logst_scheme, unit) res" where
  "install_one recovering tail s =
     bnd (bread (l_dev s) (l_start s + of_nat tail + 1) s) (\<lambda>lbuf s.
     bnd (bread (l_dev s) (lh_block s tail) s) (\<lambda>dbuf s.
     let s = upd_buf dbuf (\<lambda>x. x\<lparr>b_data := b_data (bufs s lbuf)\<rparr>) s in
     bnd (bwrite dbuf s) (\<lambda>_ s.
     let s = (if recovering then s else bunpin dbuf s) in
     bnd (brelse lbuf s) (\<lambda>_ s.
     brelse dbuf s))))"

definition install_trans :: "bool \<Rightarrow> 'z logst_scheme \<Rightarrow> ('z logst_scheme, unit) res" where
  "install_trans recovering s =
     (if LOGSIZE < lh_len s then Undef ''log.lh.block'' else loop (install_one recovering) [0..<lh_len s] s)"

definition read_head :: "'z logst_scheme \<Rightarrow> ('z logst_scheme, unit) res" where
  "read_head s =
     bnd (bread (l_dev s) (l_start s) s) (\<lambda>b s.
     let d = b_data (bufs s b);
         s = s\<lparr>lh_n := get32 0 d\<rparr> in
     if LOGSIZE < lh_len s then Undef ''log.lh.block''
     else brelse b (s\<lparr>lh_block := (\<lambda>i. if i < lh_len s then get32 (4 + 4 * i) d else lh_block s i)\<rparr>))"

text \<open>The header as \<^verbatim>\<open>write_head\<close> lays it out in the buffer.\<close>

definition put_head :: "'z logst_scheme \<Rightarrow> u8 list \<Rightarrow> u8 list" where
  "put_head s d = fold (\<lambda>i d. put_bytes (4 + 4 * i) (bytes32 (lh_block s i)) d) [0..<lh_len s] (put_bytes 0 (bytes32 (lh_n s)) d)"

definition write_head :: "'z logst_scheme \<Rightarrow> ('z logst_scheme, unit) res" where
  "write_head s =
     bnd (bread (l_dev s) (l_start s) s) (\<lambda>b s.
     if LOGSIZE < lh_len s then Undef ''log.lh.block''
     else
       let s = upd_buf b (\<lambda>x. x\<lparr>b_data := put_head s (b_data x)\<rparr>) s in
       bnd (bwrite b s) (\<lambda>_ s. brelse b s))"

definition recover_from_log :: "'z logst_scheme \<Rightarrow> ('z logst_scheme, unit) res" where
  "recover_from_log s =
     bnd (read_head s) (\<lambda>_ s.
     bnd (install_trans True s) (\<lambda>_ s.
     write_head (s\<lparr>lh_n := 0\<rparr>)))"

text \<open>\<^verbatim>\<open>initlog\<close> with the two fields of the superblock it uses; the size of the header is a constant below BSIZE.\<close>

definition initlog :: "cint \<Rightarrow> u32 \<Rightarrow> u32 \<Rightarrow> 'z logst_scheme \<Rightarrow> ('z logst_scheme, unit) res" where
  "initlog dev logstart nlog s =
     (if BSIZE \<le> 4 + 4 * LOGSIZE then Panic ''initlog: too big logheader''
      else recover_from_log (s\<lparr>l_start := logstart, l_size := nlog, l_dev := dev\<rparr>))"

definition begin_op :: "'z logst_scheme \<Rightarrow> ('z logst_scheme, unit) res" where
  "begin_op s =
     (if l_committing s \<noteq> 0 then sleep Ch_log s
      else if sint (lh_n s + (l_outstanding s + 1) * of_nat MAXOPBLOCKS) > int LOGSIZE then sleep Ch_log s
      else Ok () (s\<lparr>l_outstanding := l_outstanding s + 1\<rparr>))"

definition write_log_one :: "nat \<Rightarrow> 'z logst_scheme \<Rightarrow> ('z logst_scheme, unit) res" where
  "write_log_one tail s =
     bnd (bread (l_dev s) (l_start s + of_nat tail + 1) s) (\<lambda>to s.
     bnd (bread (l_dev s) (lh_block s tail) s) (\<lambda>from s.
     let s = upd_buf to (\<lambda>x. x\<lparr>b_data := b_data (bufs s from)\<rparr>) s in
     bnd (bwrite to s) (\<lambda>_ s.
     bnd (brelse from s) (\<lambda>_ s.
     brelse to s))))"

definition write_log :: "'z logst_scheme \<Rightarrow> ('z logst_scheme, unit) res" where
  "write_log s = (if LOGSIZE < lh_len s then Undef ''log.lh.block'' else loop write_log_one [0..<lh_len s] s)"

definition commit :: "'z logst_scheme \<Rightarrow> ('z logst_scheme, unit) res" where
  "commit s =
     (if sint (lh_n s) > 0 then
        bnd (write_log s) (\<lambda>_ s.
        bnd (write_head s) (\<lambda>_ s.
        bnd (install_trans False s) (\<lambda>_ s.
        write_head (s\<lparr>lh_n := 0\<rparr>))))
      else Ok () s)"

definition end_op :: "'z logst_scheme \<Rightarrow> ('z logst_scheme, unit) res" where
  "end_op s =
     (let s = s\<lparr>l_outstanding := l_outstanding s - 1\<rparr> in
      if l_committing s \<noteq> 0 then Panic ''log.committing''
      else if l_outstanding s = 0 then
        bnd (commit (s\<lparr>l_committing := 1\<rparr>)) (\<lambda>_ s. Ok () (wakeup (Some Ch_log) (s\<lparr>l_committing := 0\<rparr>)))
      else Ok () (wakeup (Some Ch_log) s))"

definition log_write :: "nat \<Rightarrow> 'z logst_scheme \<Rightarrow> ('z logst_scheme, unit) res" where
  "log_write b s =
     (if sint (lh_n s) \<ge> int LOGSIZE \<or> sint (lh_n s) \<ge> sint (l_size s - 1) then Panic ''too big a transaction''
      else if sint (l_outstanding s) < 1 then Panic ''log_write outside of trans''
      else
        let i = (case first_index (\<lambda>i. lh_block s i = b_blockno (bufs s b)) (lh_len s) of Some i \<Rightarrow> i | None \<Rightarrow> lh_len s);
            s = s\<lparr>lh_block := (lh_block s)(i := b_blockno (bufs s b))\<rparr> in
        if of_nat i = lh_n s then
          let s = bpin b s in Ok () (s\<lparr>lh_n := lh_n s + 1\<rparr>)
        else Ok () s)"

end
