(* ===== verification/Bio_ring.thy ===== *)
theory Bio_ring
  imports Bio
begin

text \<open>
  The ring of buffers as a list: from most to least recently used. \<^verbatim>\<open>binit\<close> builds it, \<^verbatim>\<open>brelse\<close> moves a buffer to its front, and the
  two searches of \<^verbatim>\<open>bget\<close> go through it from either end; nothing but the links changes.
\<close>

fun links :: "(nat \<Rightarrow> buf) \<Rightarrow> nat list \<Rightarrow> bool" where
  "links f (a # b # ys) \<longleftrightarrow> b_next (f a) = b \<and> b_prev (f b) = a \<and> links f (b # ys)"
| "links f _ \<longleftrightarrow> True"

definition bring :: "(nat \<Rightarrow> buf) \<Rightarrow> nat list \<Rightarrow> bool" where
  "bring f xs \<longleftrightarrow> links f (bhead # xs @ [bhead]) \<and> distinct xs \<and> bhead \<notin> set xs"

text \<open>A buffer without its links.\<close>

definition core :: "buf \<Rightarrow> buf" where
  "core x = x\<lparr>b_prev := 0, b_next := 0\<rparr>"

lemma core_eqD:
  assumes "core x = core y"
  shows "b_valid x = b_valid y" "b_disk x = b_disk y" "b_dev x = b_dev y" "b_blockno x = b_blockno y" "b_lock x = b_lock y"
    "b_refcnt x = b_refcnt y" "b_data x = b_data y"
  using assms by (cases x; cases y; simp add: core_def)+

lemma links_append:
  "links f (as @ cs) \<longleftrightarrow> links f as \<and> links f cs
     \<and> (as \<noteq> [] \<and> cs \<noteq> [] \<longrightarrow> b_next (f (last as)) = hd cs \<and> b_prev (f (hd cs)) = last as)"
proof (induction as)
  case (Cons a as)
  show ?case
  proof (cases as)
    case Nil
    then show ?thesis by (cases cs) auto
  next
    case (Cons b bs)
    with Cons.IH show ?thesis by auto
  qed
qed simp

lemma links_cong:
  assumes "\<And>a. a \<in> set (butlast ys) \<Longrightarrow> b_next (g a) = b_next (f a)" and "\<And>a. a \<in> set (tl ys) \<Longrightarrow> b_prev (g a) = b_prev (f a)"
  shows "links g ys = links f ys"
  using assms
proof (induction f ys rule: links.induct)
  case (1 f a b ys)
  have "links g (b # ys) = links f (b # ys)" using 1(2,3) by (intro "1.IH") (cases ys; auto)+
  then show ?case using 1(2)[of a] 1(3)[of b] by auto
qed simp_all

lemma last_notin_butlast: "distinct xs \<Longrightarrow> xs \<noteq> [] \<Longrightarrow> last xs \<notin> set (butlast xs)"
  by (metis append_butlast_last_id distinct_append disjoint_iff list.set_intros(1))

lemma hd_notin_tl: "distinct xs \<Longrightarrow> xs \<noteq> [] \<Longrightarrow> hd xs \<notin> set (tl xs)"
  by (cases xs) auto

lemma links_next: "links f (bhead # xs @ [bhead]) \<Longrightarrow> b_next (f bhead) = hd (xs @ [bhead])"
  by (cases xs) auto

lemma links_prev: "links f (bhead # xs @ [bhead]) \<Longrightarrow> b_prev (f bhead) = last (bhead # xs)"
  using links_append[of f "bhead # xs" "[bhead]"] by simp

section \<open>Searching\<close>

lemma find_next:
  assumes "links (bufs s) (zs @ [bhead])" and "bhead \<notin> set zs" and "length zs < k"
  shows "find_buf k b_next P (hd (zs @ [bhead])) s = Some (find (\<lambda>b. P (bufs s b)) zs)"
  using assms
proof (induction zs arbitrary: k)
  case Nil
  then show ?case by (cases k) auto
next
  case (Cons z zs)
  obtain k' where k: "k = Suc k'" using Cons.prems(3) by (cases k) auto
  have l: "links (bufs s) (zs @ [bhead])" "b_next (bufs s z) = hd (zs @ [bhead])"
    using Cons.prems(1) by (cases zs; auto)+
  show ?case using Cons.IH[OF l(1), of k'] Cons.prems(2,3) l(2) k by auto
qed

lemma find_prev:
  assumes "links (bufs s) (bhead # zs)" and "bhead \<notin> set zs" and "length zs < k"
  shows "find_buf k b_prev P (last (bhead # zs)) s = Some (find (\<lambda>b. P (bufs s b)) (rev zs))"
  using assms
proof (induction zs arbitrary: k rule: rev_induct)
  case Nil
  then show ?case by (cases k) auto
next
  case (snoc z zs)
  obtain k' where k: "k = Suc k'" using snoc.prems(3) by (cases k) auto
  have l: "links (bufs s) (bhead # zs)" "b_prev (bufs s z) = last (bhead # zs)"
    using snoc.prems(1) links_append[of "bufs s" "bhead # zs" "[z]"] by auto
  show ?case using snoc.IH[OF l(1), of k'] snoc.prems(2,3) l(2) k by auto
qed

section \<open>Moving a buffer to the front\<close>

lemma unlink_fields:
  assumes "b_next (bufs s b) \<noteq> b" and "b_prev (bufs s b) \<noteq> b"
  defines "g \<equiv> bufs (unlink b s)"
  shows "b_next (g x) = (if x = b_prev (bufs s b) then b_next (bufs s b) else b_next (bufs s x))"
    and "b_prev (g x) = (if x = b_next (bufs s b) then b_prev (bufs s b) else b_prev (bufs s x))"
    and "core (g x) = core (bufs s x)"
  using assms(1,2) by (auto simp: g_def unlink_def upd_buf_def Let_def core_def)

lemma link_head_fields:
  assumes "b_next (bufs s bhead) \<noteq> b" and "b \<noteq> bhead"
  defines "g \<equiv> bufs (link_head b s)"
  shows "b_next (g x) = (if x = bhead then b else if x = b then b_next (bufs s bhead) else b_next (bufs s x))"
    and "b_prev (g x) = (if x = b_next (bufs s bhead) then b else if x = b then bhead else b_prev (bufs s x))"
    and "core (g x) = core (bufs s x)"
  using assms(1,2) by (auto simp: g_def link_head_def upd_buf_def Let_def core_def)

lemma unlink_ring:
  assumes "bring (bufs s) (us @ b # vs)"
  shows "bring (bufs (unlink b s)) (us @ vs)" "\<And>x. core (bufs (unlink b s) x) = core (bufs s x)"
proof -
  let ?f = "bufs s" and ?g = "bufs (unlink b s)"
  let ?as = "bhead # us" and ?cs = "vs @ [bhead]"
  have l: "links ?f (?as @ [b] @ ?cs)" and d: "distinct (us @ b # vs)" "bhead \<notin> set (us @ b # vs)" using assms by (auto simp: bring_def)
  have as: "links ?f ?as" and cs: "links ?f ?cs" and n: "b_next (?f b) = hd ?cs" "b_prev (?f b) = last ?as"
    using l links_append[of ?f ?as "[b] @ ?cs"] links_append[of ?f "[b]" ?cs] by auto
  have ne: "hd ?cs \<noteq> b" "last ?as \<noteq> b" using d by (auto simp: hd_append)
  have ca: "hd ?cs \<notin> set us" using d by (cases vs) auto
  have ac: "last ?as \<notin> set vs" using d by (cases us rule: rev_cases) auto
  note g = unlink_fields[of s b, unfolded n, OF ne]
  have "links ?g ?as = links ?f ?as"
  proof (rule links_cong)
    show "b_next (?g a) = b_next (?f a)" if "a \<in> set (butlast ?as)" for a
      using that last_notin_butlast[of ?as] d g(1) by force
    show "b_prev (?g a) = b_prev (?f a)" if "a \<in> set (tl ?as)" for a using that ca g(2) by force
  qed
  moreover have "links ?g ?cs = links ?f ?cs"
  proof (rule links_cong)
    show "b_next (?g a) = b_next (?f a)" if "a \<in> set (butlast ?cs)" for a using that ac g(1) by force
    show "b_prev (?g a) = b_prev (?f a)" if "a \<in> set (tl ?cs)" for a
      using that hd_notin_tl[of ?cs] d g(2) by force
  qed
  moreover have "b_next (?g (last ?as)) = hd ?cs" "b_prev (?g (hd ?cs)) = last ?as" using g(1,2) by metis+
  ultimately have "links ?g (?as @ ?cs)" using as cs unfolding links_append[of ?g ?as] by blast
  then show "bring ?g (us @ vs)" using d by (simp add: bring_def)
  show "core (?g x) = core (?f x)" for x by (rule g(3))
qed

lemma link_head_ring:
  assumes "bring (bufs s) xs" and "b \<notin> set xs" and "b \<noteq> bhead"
  shows "bring (bufs (link_head b s)) (b # xs)" "\<And>x. core (bufs (link_head b s) x) = core (bufs s x)"
proof -
  let ?f = "bufs s" and ?g = "bufs (link_head b s)" and ?cs = "xs @ [bhead]"
  have l: "links ?f (bhead # ?cs)" and d: "distinct xs" "bhead \<notin> set xs" using assms by (auto simp: bring_def)
  have n: "b_next (?f bhead) = hd ?cs" by (rule links_next[OF l])
  have c: "links ?f ?cs" using l by (cases xs) auto
  have ne: "hd ?cs \<noteq> b" using assms(2,3) by (cases xs) auto
  note g = link_head_fields[of s b, unfolded n, OF ne assms(3)]
  have "links ?g ?cs" using c
    by (subst links_cong[where f = ?f]) (use d assms(2,3) in \<open>cases xs; auto simp: g\<close>)+
  moreover have "b_next (?g b) = hd ?cs" "b_prev (?g (hd ?cs)) = b" "b_next (?g bhead) = b" "b_prev (?g b) = bhead"
    using g ne assms(3) by auto
  ultimately have "links ?g (bhead # b # ?cs)" by (cases xs) auto
  then show "bring ?g (b # xs)" using d assms(2,3) by (simp add: bring_def)
  show "core (?g x) = core (?f x)" for x by (rule g(3))
qed

section \<open>The ring after boot\<close>

lemma links_same: "(\<And>x. b_next (g x) = b_next (f x)) \<Longrightarrow> (\<And>x. b_prev (g x) = b_prev (f x)) \<Longrightarrow> links g ys = links f ys"
  by (rule links_cong) auto

lemma bring_same: "(\<And>x. b_next (g x) = b_next (f x)) \<Longrightarrow> (\<And>x. b_prev (g x) = b_prev (f x)) \<Longrightarrow> bring g xs = bring f xs"
  using links_same[of g f] by (simp add: bring_def)

text \<open>A buffer without its links and its lock.\<close>

definition core' :: "buf \<Rightarrow> buf" where
  "core' x = (core x)\<lparr>b_lock := initsleeplock ''buffer''\<rparr>"

lemma binit_ring_upto:
  fixes s :: "'z bcache_scheme"
  assumes "n \<le> NBUF"
  defines "step \<equiv> (\<lambda>b s. upd_buf_lock b (\<lambda>_. initsleeplock ''buffer'') (link_head b s))"
    and "s0 \<equiv> upd_buf bhead (\<lambda>x. x\<lparr>b_prev := bhead, b_next := bhead\<rparr>) s"
  shows "bring (bufs (fold step [0..<n] s0)) (rev [0..<n])
    \<and> (\<forall>x. core' (bufs (fold step [0..<n] s0) x) = core' (bufs s x))
    \<and> (\<forall>x < n. b_lock (bufs (fold step [0..<n] s0) x) = initsleeplock ''buffer'')"
  using assms(1)
proof (induction n)
  case 0
  then show ?case by (simp add: bring_def s0_def upd_buf_def core'_def core_def)
next
  case (Suc n)
  let ?t = "fold step [0..<n] s0"
  have r: "bring (bufs ?t) (rev [0..<n])" using Suc by simp
  have l: "bring (bufs (link_head n ?t)) (n # rev [0..<n])" "\<And>x. core (bufs (link_head n ?t) x) = core (bufs ?t x)"
    using link_head_ring[OF r, of n] Suc.prems by auto
  have u: "bufs (step n ?t) = (bufs (link_head n ?t))(n := (bufs (link_head n ?t) n)\<lparr>b_lock := initsleeplock ''buffer''\<rparr>)"
    by (simp add: step_def upd_buf_lock_def upd_buf_def)
  have "bring (bufs (step n ?t)) (n # rev [0..<n])" using l(1) by (subst bring_same[where f = "bufs (link_head n ?t)"]) (simp_all add: u)
  moreover have "core' (bufs (step n ?t) x) = core' (bufs s x)" for x
  proof -
    have "core' (bufs (step n ?t) x) = core' (bufs (link_head n ?t) x)" by (simp add: u core'_def core_def)
    also have "\<dots> = core' (bufs ?t x)" using l(2)[of x] by (simp add: core'_def)
    finally show ?thesis using Suc by simp
  qed
  moreover have "b_lock (bufs (step n ?t) x) = initsleeplock ''buffer''" if "x < Suc n" for x
    using that core_eqD(5)[OF l(2)[of x]] Suc by (auto simp: u less_Suc_eq)
  ultimately show ?case by simp
qed

lemma binit_ring:
  "bring (bufs (binit s)) (rev [0..<NBUF])" "core' (bufs (binit s) x) = core' (bufs s x)"
  "x < NBUF \<Longrightarrow> b_lock (bufs (binit s) x) = initsleeplock ''buffer''"
  using binit_ring_upto[of NBUF s] unfolding binit_def by auto

lemma core'_eqD:
  assumes "core' x = core' y"
  shows "b_valid x = b_valid y" "b_disk x = b_disk y" "b_dev x = b_dev y" "b_blockno x = b_blockno y" "b_refcnt x = b_refcnt y" "b_data x = b_data y"
  using assms by (cases x; cases y; simp add: core_def core'_def)+

end
