(* ===== verification/Bio_spec.thy ===== *)
theory Bio_spec
  imports Bio_ring
begin

text \<open>
  What the buffer cache promises. A cache of the blocks of one device is described by what a reader of a block sees (\<open>view\<close>), by how many
  references and pins a block has (\<open>refs\<close>), by which blocks are locked (\<open>lockd\<close>), and by the disk. Every operation of \<^verbatim>\<open>kernel/bio.c\<close> changes
  just what it is meant to change of these, and keeps the invariant: a block is in at most one buffer, and a block nobody
  refers to is in the cache as it is on the disk.
\<close>

definition slot_of :: "u32 \<Rightarrow> (nat \<Rightarrow> buf) \<Rightarrow> u32 \<Rightarrow> nat option" where
  "slot_of d f n = first_index (\<lambda>b. b_dev (f b) = d \<and> b_blockno (f b) = n) NBUF"

definition view :: "u32 \<Rightarrow> 'z bcache_scheme \<Rightarrow> u32 \<Rightarrow> u8 list" where
  "view d s n = (case slot_of d (bufs s) n of None \<Rightarrow> bdisk s n | Some b \<Rightarrow> b_data (bufs s b))"

definition refs :: "u32 \<Rightarrow> 'z bcache_scheme \<Rightarrow> u32 \<Rightarrow> nat" where
  "refs d s n = (case slot_of d (bufs s) n of None \<Rightarrow> 0 | Some b \<Rightarrow> unat (b_refcnt (bufs s b)))"

definition lockd :: "u32 \<Rightarrow> 'z bcache_scheme \<Rightarrow> u32 \<Rightarrow> bool" where
  "lockd d s n = (case slot_of d (bufs s) n of None \<Rightarrow> False | Some b \<Rightarrow> sl_locked (b_lock (bufs s b)) \<noteq> 0)"

definition bufs_inv :: "u32 \<Rightarrow> (nat \<Rightarrow> buf) \<Rightarrow> disk \<Rightarrow> bool" where
  "bufs_inv d f D \<longleftrightarrow> d \<noteq> 0 \<and> (\<exists>xs. bring f xs \<and> set xs = {..<NBUF})
     \<and> (\<forall>b b'. b < NBUF \<and> b' < NBUF \<and> b_dev (f b) = d \<and> b_dev (f b') = d \<and> b_blockno (f b) = b_blockno (f b') \<longrightarrow> b = b')
     \<and> (\<forall>b < NBUF. b_dev (f b) = d \<longrightarrow> b_valid (f b) \<noteq> 0)
     \<and> (\<forall>b < NBUF. b_refcnt (f b) \<noteq> 0 \<longrightarrow> b_dev (f b) = d)
     \<and> (\<forall>b < NBUF. b_refcnt (f b) = 0 \<longrightarrow> sl_locked (b_lock (f b)) = 0)
     \<and> (\<forall>b < NBUF. b_refcnt (f b) = 0 \<and> b_dev (f b) = d \<longrightarrow> b_data (f b) = D (b_blockno (f b)))"

text \<open>The process \<open>p\<close> is running on a cache in order; and it has block \<open>n\<close> in the buffer \<open>b\<close>, locked.\<close>

definition cache_ok :: "u32 \<Rightarrow> nat \<Rightarrow> 'z bcache_scheme \<Rightarrow> bool" where
  "cache_ok d p s \<longleftrightarrow> bufs_inv d (bufs s) (bdisk s) \<and> myproc s = Some p"

definition own :: "u32 \<Rightarrow> nat \<Rightarrow> 'z bcache_scheme \<Rightarrow> nat \<Rightarrow> u32 \<Rightarrow> bool" where
  "own d p s b n \<longleftrightarrow> b < NBUF \<and> b_dev (bufs s b) = d \<and> b_blockno (bufs s b) = n
     \<and> sl_locked (b_lock (bufs s b)) \<noteq> 0 \<and> sl_pid (b_lock (bufs s b)) = p_pid (ptable s p)"

text \<open>A call on the cache leaves everything else alone, but for processes it woke up.\<close>

definition cmoves :: "'z bcache_scheme \<Rightarrow> 'z bcache_scheme \<Rightarrow> bool" where
  "cmoves s t \<longleftrightarrow> (\<exists>g D W pt. t = s\<lparr>bufs := g, bdisk := D, dwrites := W, ptable := pt\<rparr> \<and> (\<forall>p. p_pid (pt p) = p_pid (ptable s p)))"

lemma cmovesE:
  assumes "cmoves s t"
  obtains g D W pt where "t = s\<lparr>bufs := g, bdisk := D, dwrites := W, ptable := pt\<rparr>" and "\<And>p. p_pid (pt p) = p_pid (ptable s p)"
  using assms by (auto simp: cmoves_def)

lemma cmoves_trans: "cmoves s t \<Longrightarrow> cmoves t u \<Longrightarrow> cmoves s u"
proof -
  assume "cmoves s t" "cmoves t u"
  then obtain g D W pt g' D' W' pt' where
    "t = s\<lparr>bufs := g, bdisk := D, dwrites := W, ptable := pt\<rparr>" "\<And>p. p_pid (pt p) = p_pid (ptable s p)"
    "u = t\<lparr>bufs := g', bdisk := D', dwrites := W', ptable := pt'\<rparr>" "\<And>p. p_pid (pt' p) = p_pid (ptable t p)"
    by (elim cmovesE) metis
  then have "u = s\<lparr>bufs := g', bdisk := D', dwrites := W', ptable := pt'\<rparr>" "\<And>p. p_pid (pt' p) = p_pid (ptable s p)" by simp_all
  then show ?thesis unfolding cmoves_def by blast
qed

lemma cmoves_bufs: "cmoves s (s\<lparr>bufs := g\<rparr>)"
  unfolding cmoves_def by (intro exI[of _ g] exI[of _ "bdisk s"] exI[of _ "dwrites s"] exI[of _ "ptable s"]) simp

lemma cmoves_disk: "cmoves s (s\<lparr>bdisk := D, dwrites := W\<rparr>)"
  unfolding cmoves_def by (intro exI[of _ "bufs s"] exI[of _ D] exI[of _ W] exI[of _ "ptable s"]) simp

lemma cmoves_pid: "cmoves s t \<Longrightarrow> p_pid (ptable t p) = p_pid (ptable s p)"
  by (elim cmovesE) simp

lemma cmoves_myproc: "cmoves s t \<Longrightarrow> myproc t = myproc s"
  by (elim cmovesE) (simp add: myproc_def mycpu_def cpuid_def)

lemma bufs_invI:
  assumes "d \<noteq> 0" "bring f xs" "set xs = {..<NBUF}"
    and "\<And>b b'. b < NBUF \<Longrightarrow> b' < NBUF \<Longrightarrow> b_dev (f b) = d \<Longrightarrow> b_dev (f b') = d \<Longrightarrow> b_blockno (f b) = b_blockno (f b') \<Longrightarrow> b = b'"
    and "\<And>b. b < NBUF \<Longrightarrow> b_dev (f b) = d \<Longrightarrow> b_valid (f b) \<noteq> 0"
    and "\<And>b. b < NBUF \<Longrightarrow> b_refcnt (f b) \<noteq> 0 \<Longrightarrow> b_dev (f b) = d"
    and "\<And>b. b < NBUF \<Longrightarrow> b_refcnt (f b) = 0 \<Longrightarrow> sl_locked (b_lock (f b)) = 0"
    and "\<And>b. b < NBUF \<Longrightarrow> b_refcnt (f b) = 0 \<Longrightarrow> b_dev (f b) = d \<Longrightarrow> b_data (f b) = D (b_blockno (f b))"
  shows "bufs_inv d f D"
  unfolding bufs_inv_def
  by (intro conjI exI[of _ xs] allI impI) (use assms in \<open>simp_all; blast\<close>)+

lemma bufs_invD:
  assumes "bufs_inv d f D"
  shows "d \<noteq> 0" "\<exists>xs. bring f xs \<and> set xs = {..<NBUF}"
    and "\<And>b b'. b < NBUF \<Longrightarrow> b' < NBUF \<Longrightarrow> b_dev (f b) = d \<Longrightarrow> b_dev (f b') = d \<Longrightarrow> b_blockno (f b) = b_blockno (f b') \<Longrightarrow> b = b'"
    and "\<And>b. b < NBUF \<Longrightarrow> b_dev (f b) = d \<Longrightarrow> b_valid (f b) \<noteq> 0"
    and "\<And>b. b < NBUF \<Longrightarrow> b_refcnt (f b) \<noteq> 0 \<Longrightarrow> b_dev (f b) = d"
    and "\<And>b. b < NBUF \<Longrightarrow> b_refcnt (f b) = 0 \<Longrightarrow> sl_locked (b_lock (f b)) = 0"
    and "\<And>b. b < NBUF \<Longrightarrow> b_refcnt (f b) = 0 \<Longrightarrow> b_dev (f b) = d \<Longrightarrow> b_data (f b) = D (b_blockno (f b))"
  using assms unfolding bufs_inv_def by blast+

section \<open>Which buffer holds a block\<close>

lemma slot_of_Some:
  assumes "bufs_inv d f D" and "b < NBUF" and "b_dev (f b) = d" and "b_blockno (f b) = n"
  shows "slot_of d f n = Some b"
proof -
  obtain c where c: "slot_of d f n = Some c" using first_index_exists[of b NBUF "\<lambda>b. b_dev (f b) = d \<and> b_blockno (f b) = n"] assms
    by (auto simp: slot_of_def)
  then have "c < NBUF" "b_dev (f c) = d" "b_blockno (f c) = n" using first_index_Some by (auto simp: slot_of_def)
  with assms have "c = b" unfolding bufs_inv_def by blast
  with c show ?thesis by simp
qed

lemma slot_ofD: "slot_of d f n = Some b \<Longrightarrow> b < NBUF \<and> b_dev (f b) = d \<and> b_blockno (f b) = n"
  using first_index_Some by (auto simp: slot_of_def)

lemma slot_of_None: "slot_of d f n = None \<longleftrightarrow> (\<forall>b < NBUF. \<not> (b_dev (f b) = d \<and> b_blockno (f b) = n))"
  by (simp add: slot_of_def first_index_None)

lemma first_from_cong: "(\<And>j. i \<le> j \<Longrightarrow> j < i + k \<Longrightarrow> P j = Q j) \<Longrightarrow> first_from P i k = first_from Q i k"
proof (induction k arbitrary: i)
  case (Suc k)
  have "first_from P (Suc i) k = first_from Q (Suc i) k" by (rule Suc.IH, rule Suc.prems) simp_all
  then show ?case using Suc.prems[of i] by simp
qed simp

lemma slot_of_cong: "(\<And>b. b < NBUF \<Longrightarrow> b_dev (g b) = b_dev (f b) \<and> b_blockno (g b) = b_blockno (f b)) \<Longrightarrow> slot_of d g n = slot_of d f n"
  unfolding slot_of_def first_index_def by (rule first_from_cong) auto

section \<open>Changing one buffer, or only the links\<close>

lemma same_core:
  assumes "\<And>x. core (bufs t x) = core (bufs s x)" and "bdisk t = bdisk s"
  shows "view d t = view d s" "refs d t = refs d s" "lockd d t = lockd d s"
proof -
  have e: "slot_of d (bufs t) n = slot_of d (bufs s) n" for n by (rule slot_of_cong) (use core_eqD[OF assms(1)] in auto)
  show "view d t = view d s" "refs d t = refs d s" "lockd d t = lockd d s"
    by (auto simp: fun_eq_iff view_def refs_def lockd_def e assms(2) core_eqD[OF assms(1)] split: option.splits)
qed

lemma inv_same_core:
  assumes "bufs_inv d f D" and "\<And>x. core (g x) = core (f x)" and "bring g ys" and "set ys = {..<NBUF}"
  shows "bufs_inv d g D"
  using assms(1,3,4) unfolding bufs_inv_def core_eqD[OF assms(2)] by blast

lemma upd_slot:
  assumes "bufs_inv d (bufs s) (bdisk s)" and "b < NBUF" "b_dev (bufs s b) = d" "b_blockno (bufs s b) = n"
    and "bufs t = (bufs s)(b := x)" "bdisk t = bdisk s" "b_dev x = d" "b_blockno x = n"
  shows "view d t = (view d s)(n := b_data x)" "refs d t = (refs d s)(n := unat (b_refcnt x))"
    "lockd d t = (lockd d s)(n := (sl_locked (b_lock x) \<noteq> 0))"
proof -
  have e: "slot_of d ((bufs s)(b := x)) m = slot_of d (bufs s) m" for m by (rule slot_of_cong) (use assms(2-4,7,8) in auto)
  have n: "slot_of d (bufs s) n = Some b" by (rule slot_of_Some[OF assms(1-4)])
  have o: "slot_of d (bufs s) m = Some c \<Longrightarrow> m \<noteq> n \<Longrightarrow> c \<noteq> b" for m c using slot_ofD assms(4) by blast
  show "view d t = (view d s)(n := b_data x)" "refs d t = (refs d s)(n := unat (b_refcnt x))"
    "lockd d t = (lockd d s)(n := (sl_locked (b_lock x) \<noteq> 0))"
    using n o by (auto simp: fun_eq_iff view_def refs_def lockd_def e assms(5,6) split: option.splits)
qed

lemma inv_upd_slot:
  assumes "bufs_inv d f D" and "b < NBUF" "b_dev (f b) = d" "b_blockno x = b_blockno (f b)" "b_dev x = d"
    and "b_next x = b_next (f b)" "b_prev x = b_prev (f b)" "b_valid x \<noteq> 0"
    and "b_refcnt x = 0 \<Longrightarrow> sl_locked (b_lock x) = 0 \<and> b_data x = D (b_blockno x)"
  shows "bufs_inv d (f(b := x)) D"
proof -
  note i = bufs_invD[OF assms(1)]
  let ?g = "f(b := x)"
  obtain xs where r: "bring f xs" "set xs = {..<NBUF}" using i(2) by blast
  have k: "b_dev (?g c) = b_dev (f c)" "b_blockno (?g c) = b_blockno (f c)" for c using assms(3-5) by auto
  show ?thesis
  proof (rule bufs_invI[OF i(1) _ r(2)])
    show "bring ?g xs" using r(1) by (subst bring_same[where f = f]) (use assms(6,7) in auto)
    show "c = c'" if "c < NBUF" "c' < NBUF" "b_dev (?g c) = d" "b_dev (?g c') = d" "b_blockno (?g c) = b_blockno (?g c')" for c c'
      using i(3)[of c c'] that k by simp
    show "b_valid (?g c) \<noteq> 0" if "c < NBUF" "b_dev (?g c) = d" for c using i(4)[of c] that k assms(8) by simp
    show "b_dev (?g c) = d" if "c < NBUF" "b_refcnt (?g c) \<noteq> 0" for c using i(5)[of c] that k assms(3,5) by (cases "c = b") auto
    show "sl_locked (b_lock (?g c)) = 0" if "c < NBUF" "b_refcnt (?g c) = 0" for c using i(6)[of c] that assms(9) by (cases "c = b") auto
    show "b_data (?g c) = D (b_blockno (?g c))" if "c < NBUF" "b_refcnt (?g c) = 0" "b_dev (?g c) = d" for c
      using i(7)[of c] that assms(9) by (cases "c = b") auto
  qed
qed

lemma inv_disk:
  assumes "bufs_inv d f D" and "b < NBUF" "b_dev (f b) = d" "b_refcnt (f b) \<noteq> 0"
  shows "bufs_inv d f (D(b_blockno (f b) := v))"
proof -
  have "b_blockno (f c) \<noteq> b_blockno (f b)" if "c < NBUF" "b_refcnt (f c) = 0" "b_dev (f c) = d" for c
  proof
    assume "b_blockno (f c) = b_blockno (f b)"
    then have "c = b" using assms(1-3) that unfolding bufs_inv_def by blast
    with that assms(4) show False by simp
  qed
  then show ?thesis using assms(1) unfolding bufs_inv_def by auto
qed

section \<open>Reading a block\<close>

lemma find_in: "find P xs = Some b \<Longrightarrow> b \<in> set xs \<and> P b"
  by (induction xs) (auto split: if_splits)

lemma find_ex: "c \<in> set xs \<Longrightarrow> P c \<Longrightarrow> \<exists>b. find P xs = Some b"
  by (induction xs) auto

lemma find_slot:
  assumes "bufs_inv d (bufs s) (bdisk s)"
  shows "find_buf (Suc NBUF) b_next (\<lambda>x. b_dev x = d \<and> b_blockno x = n) (b_next (bufs s bhead)) s = Some (slot_of d (bufs s) n)"
proof -
  obtain xs where r: "bring (bufs s) xs" "set xs = {..<NBUF}" using bufs_invD(2)[OF assms] by blast
  have l: "links (bufs s) (bhead # xs @ [bhead])" "bhead \<notin> set xs" "distinct xs" using r(1) by (auto simp: bring_def)
  then have l': "links (bufs s) (xs @ [bhead])" by (cases xs) auto
  have len: "length xs = NBUF" using r(2) l(3) distinct_card[of xs] by simp
  have "find_buf (Suc NBUF) b_next (\<lambda>x. b_dev x = d \<and> b_blockno x = n) (hd (xs @ [bhead])) s
      = Some (find (\<lambda>b. b_dev (bufs s b) = d \<and> b_blockno (bufs s b) = n) xs)" using l' l(2) len by (intro find_next) auto
  moreover have "find (\<lambda>b. b_dev (bufs s b) = d \<and> b_blockno (bufs s b) = n) xs = slot_of d (bufs s) n"
  proof (cases "slot_of d (bufs s) n")
    case None
    then have "find (\<lambda>b. b_dev (bufs s b) = d \<and> b_blockno (bufs s b) = n) xs = None"
      using r(2) by (auto simp: slot_of_None find_None_iff)
    with None show ?thesis by simp
  next
    case (Some b)
    note b = slot_ofD[OF Some]
    then obtain c where c: "find (\<lambda>b. b_dev (bufs s b) = d \<and> b_blockno (bufs s b) = n) xs = Some c"
      using r(2) find_ex[of b xs "\<lambda>b. b_dev (bufs s b) = d \<and> b_blockno (bufs s b) = n"] by auto
    then have "c \<in> set xs" "b_dev (bufs s c) = d" "b_blockno (bufs s c) = n" using find_in by fastforce+
    then have "c = b" using r(2) b bufs_invD(3)[OF assms, of c b] by auto
    with c Some show ?thesis by simp
  qed
  ultimately show ?thesis using links_next[OF l(1)] by simp
qed

lemma find_free:
  assumes "bufs_inv d (bufs s) (bdisk s)" and "c < NBUF" "b_refcnt (bufs s c) = 0"
  shows "\<exists>b. find_buf (Suc NBUF) b_prev (\<lambda>x. b_refcnt x = 0) (b_prev (bufs s bhead)) s = Some (Some b) \<and> b < NBUF \<and> b_refcnt (bufs s b) = 0"
proof -
  obtain xs where r: "bring (bufs s) xs" "set xs = {..<NBUF}" using bufs_invD(2)[OF assms(1)] by blast
  have l: "links (bufs s) (bhead # xs @ [bhead])" "bhead \<notin> set xs" "distinct xs" using r(1) by (auto simp: bring_def)
  then have l': "links (bufs s) (bhead # xs)" using links_append[of "bufs s" "bhead # xs" "[bhead]"] by simp
  have len: "length xs = NBUF" using r(2) l(3) distinct_card[of xs] by simp
  have e: "find_buf (Suc NBUF) b_prev (\<lambda>x. b_refcnt x = 0) (last (bhead # xs)) s = Some (find (\<lambda>b. b_refcnt (bufs s b) = 0) (rev xs))"
    using l' l(2) len by (intro find_prev) auto
  obtain b where b: "find (\<lambda>b. b_refcnt (bufs s b) = 0) (rev xs) = Some b"
    using assms(2,3) r(2) find_ex[of c "rev xs" "\<lambda>b. b_refcnt (bufs s b) = 0"] by auto
  then have "b \<in> set xs" "b_refcnt (bufs s b) = 0" using find_in[OF b] by auto
  then show ?thesis using e b r(2) links_prev[OF l(1)] by auto
qed

text \<open>The lock of a buffer as its new holder leaves it.\<close>

definition held_by :: "nat \<Rightarrow> 'z procs_scheme \<Rightarrow> sleeplock \<Rightarrow> sleeplock" where
  "held_by p s lk = lk\<lparr>sl_locked := 1, sl_pid := p_pid (ptable s p)\<rparr>"

lemma bread_hit:
  assumes "cache_ok d p s" and "slot_of d (bufs s) n = Some b" and "sl_locked (b_lock (bufs s b)) = 0"
  shows "bread d n s = Ok b (s\<lparr>bufs := (bufs s)(b := (bufs s b)\<lparr>b_refcnt := b_refcnt (bufs s b) + 1, b_lock := held_by p s (b_lock (bufs s b))\<rparr>)\<rparr>)"
proof -
  have i: "bufs_inv d (bufs s) (bdisk s)" and p: "myproc s = Some p" using assms(1) by (auto simp: cache_ok_def)
  have v: "b_valid (bufs s b) \<noteq> 0" using slot_ofD[OF assms(2)] bufs_invD(4)[OF i] by auto
  show ?thesis using v assms(3) p find_slot[OF i, of n] assms(2)
    by (simp add: bread_def bget_def acquiresleep_def with_proc_def buf_lock_def upd_buf_lock_def upd_buf_def Let_def held_by_def myproc_def mycpu_def cpuid_def)
qed

lemma bread_miss:
  assumes "cache_ok d p s" and "slot_of d (bufs s) n = None" and "c < NBUF" "b_refcnt (bufs s c) = 0"
  shows "\<exists>b. b < NBUF \<and> b_refcnt (bufs s b) = 0 \<and> bread d n s = Ok b (s\<lparr>bufs := (bufs s)(b := (bufs s b)\<lparr>b_dev := d, b_blockno := n,
    b_refcnt := 1, b_lock := held_by p s (b_lock (bufs s b)), b_data := bdisk s n, b_valid := 1\<rparr>)\<rparr>)"
proof -
  have i: "bufs_inv d (bufs s) (bdisk s)" and p: "myproc s = Some p" using assms(1) by (auto simp: cache_ok_def)
  obtain b where b: "find_buf (Suc NBUF) b_prev (\<lambda>x. b_refcnt x = 0) (b_prev (bufs s bhead)) s = Some (Some b)" "b < NBUF" "b_refcnt (bufs s b) = 0"
    using find_free[OF i assms(3,4)] by blast
  have l: "sl_locked (b_lock (bufs s b)) = 0" using bufs_invD(6)[OF i] b by blast
  have "bread d n s = Ok b (s\<lparr>bufs := (bufs s)(b := (bufs s b)\<lparr>b_dev := d, b_blockno := n,
    b_refcnt := 1, b_lock := held_by p s (b_lock (bufs s b)), b_data := bdisk s n, b_valid := 1\<rparr>)\<rparr>)"
    using l p find_slot[OF i, of n] assms(2) b(1)
    by (simp add: bread_def bget_def acquiresleep_def with_proc_def buf_lock_def upd_buf_lock_def upd_buf_def Let_def held_by_def
        virtio_disk_rw_def myproc_def mycpu_def cpuid_def)
  with b show ?thesis by blast
qed

lemma free_slot:
  assumes "bufs_inv d (bufs s) (bdisk s)" and "card {m. refs d s m \<noteq> 0} < NBUF"
  shows "\<exists>c < NBUF. b_refcnt (bufs s c) = 0"
proof (rule ccontr)
  assume a: "\<not> ?thesis"
  let ?f = "\<lambda>b. b_blockno (bufs s b)"
  have d: "b_dev (bufs s b) = d" if "b < NBUF" for b using a that bufs_invD(5)[OF assms(1)] by blast
  have r: "refs d s (?f b) \<noteq> 0" if "b < NBUF" for b
    using slot_of_Some[OF assms(1) that d[OF that] refl] a that by (simp add: refs_def unat_eq_0)
  have "inj_on ?f {..<NBUF}" using d bufs_invD(3)[OF assms(1)] by (auto simp: inj_on_def)
  then have "card (?f ` {..<NBUF}) = NBUF" by (simp add: card_image)
  moreover have "?f ` {..<NBUF} \<subseteq> {m. refs d s m \<noteq> 0}" using r by auto
  ultimately show False using card_mono[OF finite, of "?f ` {..<NBUF}" "{m. refs d s m \<noteq> 0}"] assms(2) by simp
qed

lemma recycle_slot_of:
  assumes "bufs_inv d f D" and "slot_of d f n = None" and "b < NBUF" and "b_dev x = d" and "b_blockno x = n"
  shows "slot_of d (f(b := x)) k = (if k = n then Some b else if slot_of d f k = Some b then None else slot_of d f k)"
proof -
  note no = assms(2)[unfolded slot_of_None]
  have u: "c = b" if "slot_of d (f(b := x)) n = Some c" for c using slot_ofD[OF that] no by (auto split: if_splits)
  have n: "slot_of d (f(b := x)) n = Some b"
    using u slot_of_None[of d "f(b := x)" n] assms(3-5) by (cases "slot_of d (f(b := x)) n") auto
  have o: "slot_of d (f(b := x)) k = None" if "k \<noteq> n" "slot_of d f k = None \<or> slot_of d f k = Some b"
  proof -
    have "\<not> (b_dev (f c) = d \<and> b_blockno (f c) = k)" if "c < NBUF" "c \<noteq> b" for c
      using slot_of_Some[OF assms(1) that(1), of k] \<open>slot_of d f k = None \<or> slot_of d f k = Some b\<close> that by auto
    then show ?thesis using that(1) assms(5) by (simp add: slot_of_None)
  qed
  have c: "slot_of d (f(b := x)) k = Some c" if "k \<noteq> n" "slot_of d f k = Some c" "c \<noteq> b" for c
  proof -
    note s = slot_ofD[OF that(2)] and ne = that(3)
    obtain e where e: "slot_of d (f(b := x)) k = Some e"
      using slot_of_None[of d "f(b := x)" k] s ne by (cases "slot_of d (f(b := x)) k") auto
    have "e \<noteq> b" using slot_ofD[OF e] that(1) assms(5) by auto
    then have "e = c" using slot_ofD[OF e] s bufs_invD(3)[OF assms(1), of e c] by auto
    with e show ?thesis by simp
  qed
  show ?thesis using n o c by (cases "slot_of d f k") auto
qed

lemma recycle_inv:
  assumes "bufs_inv d f D" and "slot_of d f n = None" and "b < NBUF" and "b_dev x = d" "b_blockno x = n"
    and "b_next x = b_next (f b)" "b_prev x = b_prev (f b)" "b_valid x \<noteq> 0" "b_refcnt x \<noteq> 0"
  shows "bufs_inv d (f(b := x)) D"
proof -
  note i = bufs_invD[OF assms(1)]
  let ?g = "f(b := x)"
  obtain xs where r: "bring f xs" "set xs = {..<NBUF}" using i(2) by blast
  have no: "\<not> (b_dev (f c) = d \<and> b_blockno (f c) = n)" if "c < NBUF" for c using assms(2) that by (simp add: slot_of_None)
  show ?thesis
  proof (rule bufs_invI[OF i(1) _ r(2)])
    show "bring ?g xs" using r(1) by (subst bring_same[where f = f]) (use assms(6,7) in auto)
    show "c = c'" if "c < NBUF" "c' < NBUF" "b_dev (?g c) = d" "b_dev (?g c') = d" "b_blockno (?g c) = b_blockno (?g c')" for c c'
      using i(3)[of c c'] that no[of c] no[of c'] assms(5) by (cases "c = b"; cases "c' = b") auto
    show "b_valid (?g c) \<noteq> 0" if "c < NBUF" "b_dev (?g c) = d" for c using i(4)[of c] that assms(8) by (cases "c = b") auto
    show "b_dev (?g c) = d" if "c < NBUF" "b_refcnt (?g c) \<noteq> 0" for c using i(5)[of c] that assms(4) by (cases "c = b") auto
    show "sl_locked (b_lock (?g c)) = 0" if "c < NBUF" "b_refcnt (?g c) = 0" for c using i(6)[of c] that assms(9) by (cases "c = b") auto
    show "b_data (?g c) = D (b_blockno (?g c))" if "c < NBUF" "b_refcnt (?g c) = 0" "b_dev (?g c) = d" for c
      using i(7)[of c] that assms(9) by (cases "c = b") auto
  qed
qed

lemma recycle_abs:
  assumes "bufs_inv d (bufs s) (bdisk s)" and "slot_of d (bufs s) n = None" and "b < NBUF" "b_refcnt (bufs s b) = 0"
    and "bufs t = (bufs s)(b := x)" "bdisk t = bdisk s" "b_dev x = d" "b_blockno x = n" "b_data x = bdisk s n"
  shows "view d t = view d s" "refs d t = (refs d s)(n := unat (b_refcnt x))" "lockd d t = (lockd d s)(n := (sl_locked (b_lock x) \<noteq> 0))"
proof -
  note sl = recycle_slot_of[OF assms(1-3,7,8)]
  have cl: "b_data (bufs s b) = bdisk s k \<and> sl_locked (b_lock (bufs s b)) = 0" if "slot_of d (bufs s) k = Some b" for k
    using slot_ofD[OF that] bufs_invD(6,7)[OF assms(1), of b] assms(3,4) by auto
  show "view d t = view d s" using cl assms(2,9) by (auto simp: view_def sl assms(5,6) fun_eq_iff split: option.splits)
  show "refs d t = (refs d s)(n := unat (b_refcnt x))" using assms(4) by (auto simp: refs_def sl assms(5) fun_eq_iff split: option.splits)
  show "lockd d t = (lockd d s)(n := (sl_locked (b_lock x) \<noteq> 0))" using cl by (auto simp: lockd_def sl assms(5) fun_eq_iff split: option.splits)
qed

text \<open>What a call leaves of the abstract cache.\<close>

definition after :: "u32 \<Rightarrow> nat \<Rightarrow> 'z bcache_scheme \<Rightarrow> 'z bcache_scheme \<Rightarrow> (u32 \<Rightarrow> u8 list) \<Rightarrow> (u32 \<Rightarrow> nat) \<Rightarrow> (u32 \<Rightarrow> bool)
    \<Rightarrow> disk \<Rightarrow> (u32 \<times> u8 list) list \<Rightarrow> bool" where
  "after d p s t V R L D W \<longleftrightarrow> cache_ok d p t \<and> cmoves s t \<and> view d t = V \<and> refs d t = R \<and> lockd d t = L \<and> bdisk t = D \<and> dwrites t = W"

lemma bread_spec:
  assumes "cache_ok d p s" and "\<not> lockd d s n" and "refs d s n + 1 < 2 ^ 32" and "refs d s n \<noteq> 0 \<or> card {m. refs d s m \<noteq> 0} < NBUF"
  obtains b t where "bread d n s = Ok b t" and "own d p t b n" and "\<And>b' m. own d p s b' m \<Longrightarrow> m \<noteq> n \<Longrightarrow> own d p t b' m"
    and "after d p s t (view d s) ((refs d s)(n := refs d s n + 1)) ((lockd d s)(n := True)) (bdisk s) (dwrites s)"
proof (cases "slot_of d (bufs s) n")
  case (Some b)
  have i: "bufs_inv d (bufs s) (bdisk s)" and p: "myproc s = Some p" using assms(1) by (auto simp: cache_ok_def)
  note b = slot_ofD[OF Some]
  let ?x = "(bufs s b)\<lparr>b_refcnt := b_refcnt (bufs s b) + 1, b_lock := held_by p s (b_lock (bufs s b))\<rparr>"
  let ?t = "s\<lparr>bufs := (bufs s)(b := ?x)\<rparr>"
  have u: "unat (b_refcnt (bufs s b) + 1) = refs d s n + 1" using assms(3) Some by (simp add: refs_def unat_word_ariths)
  then have nz: "b_refcnt (bufs s b) + 1 \<noteq> 0" by auto
  have "bread d n s = Ok b ?t" using bread_hit[OF assms(1) Some] assms(2) Some by (simp add: lockd_def)
  moreover have inv: "bufs_inv d (bufs ?t) (bdisk ?t)"
    using inv_upd_slot[OF i, of b ?x] b bufs_invD(4)[OF i, of b] nz by simp
  have "view d ?t = view d s" "refs d ?t = (refs d s)(n := refs d s n + 1)" "lockd d ?t = (lockd d s)(n := True)"
    using upd_slot[OF i, of b n ?t ?x] b u Some by (auto simp: held_by_def view_def fun_eq_iff)
  moreover have "own d p ?t b n" using b by (simp add: own_def held_by_def)
  moreover have "own d p ?t b' m" if "own d p s b' m" "m \<noteq> n" for b' m using that b by (auto simp: own_def)
  ultimately show thesis using inv p cmoves_bufs
    by (intro that[of b ?t]) (auto simp: after_def cache_ok_def myproc_def mycpu_def cpuid_def)
next
  case None
  have i: "bufs_inv d (bufs s) (bdisk s)" and p: "myproc s = Some p" using assms(1) by (auto simp: cache_ok_def)
  have r0: "refs d s n = 0" using None by (simp add: refs_def)
  obtain c where c: "c < NBUF" "b_refcnt (bufs s c) = 0" using free_slot[OF i] assms(4) r0 by auto
  let ?x = "\<lambda>b. (bufs s b)\<lparr>b_dev := d, b_blockno := n, b_refcnt := 1, b_lock := held_by p s (b_lock (bufs s b)), b_data := bdisk s n, b_valid := 1\<rparr>"
  obtain b where b: "b < NBUF" "b_refcnt (bufs s b) = 0" "bread d n s = Ok b (s\<lparr>bufs := (bufs s)(b := ?x b)\<rparr>)"
    using bread_miss[OF assms(1) None c] by blast
  let ?t = "s\<lparr>bufs := (bufs s)(b := ?x b)\<rparr>"
  have inv: "bufs_inv d (bufs ?t) (bdisk ?t)" using recycle_inv[OF i None b(1), of "?x b"] by simp
  have "view d ?t = view d s" "refs d ?t = (refs d s)(n := refs d s n + 1)" "lockd d ?t = (lockd d s)(n := True)"
    using recycle_abs[OF i None b(1,2), of ?t "?x b"] r0 by (simp_all add: held_by_def)
  moreover have "own d p ?t b n" using b(1) by (simp add: own_def held_by_def)
  moreover have "own d p ?t b' m" if "own d p s b' m" "m \<noteq> n" for b' m
    using that b(1,2) bufs_invD(6)[OF i, of b] by (cases "b' = b") (auto simp: own_def)
  ultimately show thesis using inv p cmoves_bufs b(3)
    by (intro that[of b ?t]) (auto simp: after_def cache_ok_def myproc_def mycpu_def cpuid_def)
qed

section \<open>Operations on a block the process holds\<close>

lemma cache_okD: "cache_ok d p s \<Longrightarrow> bufs_inv d (bufs s) (bdisk s)" "cache_ok d p s \<Longrightarrow> myproc s = Some p"
  by (auto simp: cache_ok_def)

lemma afterD:
  assumes "after d p s t V R L D W"
  shows "cache_ok d p t" "cmoves s t" "view d t = V" "refs d t = R" "lockd d t = L" "bdisk t = D" "dwrites t = W"
  using assms by (auto simp: after_def)

lemma after_trans: "after d p s t V R L D W \<Longrightarrow> after d p t u V' R' L' D' W' \<Longrightarrow> after d p s u V' R' L' D' W'"
  unfolding after_def using cmoves_trans by blast

lemma ownD:
  assumes "cache_ok d p s" and "own d p s b n"
  shows "b < NBUF" "b_dev (bufs s b) = d" "b_blockno (bufs s b) = n" "slot_of d (bufs s) n = Some b" "view d s n = b_data (bufs s b)"
    "refs d s n = unat (b_refcnt (bufs s b))" "b_refcnt (bufs s b) \<noteq> 0" "b_valid (bufs s b) \<noteq> 0"
    "holdingsleep (buf_lock b) s = Ok True s"
proof -
  note i = cache_okD(1)[OF assms(1)]
  show o: "b < NBUF" "b_dev (bufs s b) = d" "b_blockno (bufs s b) = n" using assms(2) by (auto simp: own_def)
  show sl: "slot_of d (bufs s) n = Some b" by (rule slot_of_Some[OF i o])
  show "view d s n = b_data (bufs s b)" "refs d s n = unat (b_refcnt (bufs s b))" by (simp_all add: view_def refs_def sl)
  show "b_refcnt (bufs s b) \<noteq> 0" using bufs_invD(6)[OF i o(1)] assms(2) by (auto simp: own_def)
  show "b_valid (bufs s b) \<noteq> 0" using bufs_invD(4)[OF i o(1,2)] .
  show "holdingsleep (buf_lock b) s = Ok True s"
    using assms(2) cache_okD(2)[OF assms(1)] by (simp add: holdingsleep_def with_proc_def buf_lock_def own_def)
qed

text \<open>An assignment to fields of a buffer that keeps its identity.\<close>

lemma upd_own:
  assumes "cache_ok d p s" and "own d p s b n"
    and "b_dev (f (bufs s b)) = d" "b_blockno (f (bufs s b)) = n" "b_next (f (bufs s b)) = b_next (bufs s b)"
      "b_prev (f (bufs s b)) = b_prev (bufs s b)" "b_valid (f (bufs s b)) = b_valid (bufs s b)" "b_refcnt (f (bufs s b)) \<noteq> 0"
      "b_lock (f (bufs s b)) = b_lock (bufs s b)"
  shows "after d p s (upd_buf b f s) ((view d s)(n := b_data (f (bufs s b)))) ((refs d s)(n := unat (b_refcnt (f (bufs s b))))) (lockd d s)
      (bdisk s) (dwrites s)"
    and "own d p s b' m \<Longrightarrow> own d p (upd_buf b f s) b' m"
proof -
  let ?t = "upd_buf b f s"
  note i = cache_okD(1)[OF assms(1)] and o = ownD[OF assms(1,2)]
  have t: "?t = s\<lparr>bufs := (bufs s)(b := f (bufs s b))\<rparr>" by (simp add: upd_buf_def)
  have "bufs_inv d (bufs ?t) (bdisk ?t)" unfolding t
    using inv_upd_slot[OF i o(1,2), of "f (bufs s b)"] assms(3-9) o(3,8) by simp
  then have "cache_ok d p ?t" using cache_okD(2)[OF assms(1)] by (simp add: t cache_ok_def myproc_def mycpu_def cpuid_def)
  moreover have "(lockd d s)(n := (sl_locked (b_lock (bufs s b)) \<noteq> 0)) = lockd d s" by (auto simp: lockd_def o(4) fun_eq_iff)
  ultimately show "after d p s ?t ((view d s)(n := b_data (f (bufs s b)))) ((refs d s)(n := unat (b_refcnt (f (bufs s b))))) (lockd d s)
      (bdisk s) (dwrites s)"
    using upd_slot[OF i o(1-3), of ?t "f (bufs s b)"] assms(3,4,9) cmoves_bufs[of s] by (simp add: t after_def)
  show "own d p s b' m \<Longrightarrow> own d p ?t b' m" using assms(2-9) by (auto simp: own_def t)
qed

lemma set_data_spec:
  assumes "cache_ok d p s" and "own d p s b n" and "f (bufs s b) = (bufs s b)\<lparr>b_data := v\<rparr>"
  shows "after d p s (upd_buf b f s) ((view d s)(n := v)) (refs d s) (lockd d s) (bdisk s) (dwrites s)"
    and "own d p s b' m \<Longrightarrow> own d p (upd_buf b f s) b' m"
proof -
  note o = ownD[OF assms(1,2)]
  have "(refs d s)(n := unat (b_refcnt (bufs s b))) = refs d s" using o(6) by auto
  then show "after d p s (upd_buf b f s) ((view d s)(n := v)) (refs d s) (lockd d s) (bdisk s) (dwrites s)"
    using upd_own(1)[OF assms(1,2), of f] o by (simp add: assms(3))
  show "own d p s b' m \<Longrightarrow> own d p (upd_buf b f s) b' m" using upd_own(2)[OF assms(1,2), of f] o by (simp add: assms(3))
qed

lemma bunpin_spec:
  assumes "cache_ok d p s" and "own d p s b n" and "2 \<le> refs d s n"
  shows "after d p s (bunpin b s) (view d s) ((refs d s)(n := refs d s n - 1)) (lockd d s) (bdisk s) (dwrites s)"
    and "own d p s b' m \<Longrightarrow> own d p (bunpin b s) b' m"
proof -
  note o = ownD[OF assms(1,2)]
  have "unat (b_refcnt (bufs s b) - 1) = refs d s n - 1" using o(6,7) unat_minus_one by fastforce
  moreover from this have "b_refcnt (bufs s b) - 1 \<noteq> 0" using assms(3) by auto
  ultimately show "after d p s (bunpin b s) (view d s) ((refs d s)(n := refs d s n - 1)) (lockd d s) (bdisk s) (dwrites s)"
    and "own d p s b' m \<Longrightarrow> own d p (bunpin b s) b' m"
    using upd_own[OF assms(1,2), of "\<lambda>x. x\<lparr>b_refcnt := b_refcnt x - 1\<rparr>"] o assms(3) unfolding bunpin_def
    by (auto simp: fun_upd_idem)
qed

lemma bpin_spec:
  assumes "cache_ok d p s" and "own d p s b n" and "refs d s n + 1 < 2 ^ 32"
  shows "after d p s (bpin b s) (view d s) ((refs d s)(n := refs d s n + 1)) (lockd d s) (bdisk s) (dwrites s)"
    and "own d p s b' m \<Longrightarrow> own d p (bpin b s) b' m"
proof -
  note o = ownD[OF assms(1,2)]
  have u: "unat (b_refcnt (bufs s b) + 1) = refs d s n + 1" using o(6) assms(3) by (simp add: unat_word_ariths)
  then have "b_refcnt (bufs s b) + 1 \<noteq> 0" by auto
  then show "after d p s (bpin b s) (view d s) ((refs d s)(n := refs d s n + 1)) (lockd d s) (bdisk s) (dwrites s)"
    and "own d p s b' m \<Longrightarrow> own d p (bpin b s) b' m"
    using upd_own[OF assms(1,2), of "\<lambda>x. x\<lparr>b_refcnt := b_refcnt x + 1\<rparr>"] o u unfolding bpin_def
    by (auto simp: fun_upd_idem)
qed

lemma bwrite_spec:
  assumes "cache_ok d p s" and "own d p s b n"
  obtains t where "bwrite b s = Ok () t" and "\<And>b' m. own d p s b' m \<Longrightarrow> own d p t b' m"
    and "after d p s t (view d s) (refs d s) (lockd d s) ((bdisk s)(n := view d s n)) (dwrites s @ [(n, view d s n)])"
proof -
  note i = cache_okD(1)[OF assms(1)] and o = ownD[OF assms]
  let ?t = "s\<lparr>bdisk := (bdisk s)(n := view d s n), dwrites := dwrites s @ [(n, view d s n)]\<rparr>"
  have "bwrite b s = Ok () ?t" using o by (simp add: bwrite_def virtio_disk_rw_def Let_def)
  moreover have "own d p ?t b' m" if "own d p s b' m" for b' m using that by (simp add: own_def)
  moreover have "bufs_inv d (bufs ?t) (bdisk ?t)" using inv_disk[OF i o(1,2,7)] o(3) by simp
  then have "cache_ok d p ?t" using cache_okD(2)[OF assms(1)] by (simp add: cache_ok_def myproc_def mycpu_def cpuid_def)
  moreover have "view d ?t m = view d s m" for m using o(4,5) by (auto simp: view_def split: option.splits)
  moreover have "refs d ?t = refs d s" "lockd d ?t = lockd d s" by (auto simp: refs_def lockd_def fun_eq_iff split: option.splits)
  ultimately show thesis using cmoves_disk by (intro that[of ?t]) (simp_all add: after_def fun_eq_iff)
qed

lemma put_block_spec:
  assumes "cache_ok d p s" and "own d p s b n" and "f (bufs s b) = (bufs s b)\<lparr>b_data := v\<rparr>"
  obtains t where "bwrite b (upd_buf b f s) = Ok () t" and "\<And>b' m. own d p s b' m \<Longrightarrow> own d p t b' m"
    and "after d p s t ((view d s)(n := v)) (refs d s) (lockd d s) ((bdisk s)(n := v)) (dwrites s @ [(n, v)])"
proof -
  note a = set_data_spec[of d p s b n f v, OF assms]
  obtain t where "bwrite b (upd_buf b f s) = Ok () t" "\<And>b' m. own d p (upd_buf b f s) b' m \<Longrightarrow> own d p t b' m"
    "after d p (upd_buf b f s) t ((view d s)(n := v)) (refs d s) (lockd d s) ((bdisk s)(n := v)) (dwrites s @ [(n, v)])"
    using bwrite_spec[OF afterD(1)[OF a(1)] a(2)[OF assms(2)]] afterD(3-7)[OF a(1)] by (metis fun_upd_same)
  then show thesis using that after_trans[OF a(1)] a(2) by blast
qed

lemma wakeup_cmoves: "cmoves s (wakeup ch s)" and wakeup_cache: "bufs (wakeup ch s) = bufs s" "bdisk (wakeup ch s) = bdisk s" "dwrites (wakeup ch s) = dwrites s"
proof -
  have "wakeup ch s = s\<lparr>ptable := ptable (wakeup ch s)\<rparr>" by (simp add: wakeup_def each_proc_def)
  moreover have "p_pid (ptable (wakeup ch s) q) = p_pid (ptable s q)" for q by (simp add: wakeup_def each_proc_def)
  ultimately show "cmoves s (wakeup ch s)" unfolding cmoves_def
    by (intro exI[of _ "bufs s"] exI[of _ "bdisk s"] exI[of _ "dwrites s"] exI[of _ "ptable (wakeup ch s)"]) simp
  show "bufs (wakeup ch s) = bufs s" "bdisk (wakeup ch s) = bdisk s" "dwrites (wakeup ch s) = dwrites s"
    by (simp_all add: wakeup_def each_proc_def)
qed

lemma front_inv:
  assumes "bufs_inv d (bufs s) D" and "b < NBUF"
  shows "bufs_inv d (bufs (link_head b (unlink b s))) D" "core (bufs (link_head b (unlink b s)) x) = core (bufs s x)"
proof -
  obtain xs where r: "bring (bufs s) xs" "set xs = {..<NBUF}" using bufs_invD(2)[OF assms(1)] by blast
  then obtain us vs where xs: "xs = us @ b # vs" using assms(2) by (metis lessThan_iff split_list)
  have u: "bring (bufs (unlink b s)) (us @ vs)" "\<And>x. core (bufs (unlink b s) x) = core (bufs s x)"
    using unlink_ring[of s us b vs] r(1) xs by auto
  have l: "bring (bufs (link_head b (unlink b s))) (b # us @ vs)" "\<And>x. core (bufs (link_head b (unlink b s)) x) = core (bufs (unlink b s) x)"
    using link_head_ring[OF u(1), of b] assms(2) r(1) xs by (auto simp: bring_def)
  show "core (bufs (link_head b (unlink b s)) x) = core (bufs s x)" for x using l(2) u(2) by simp
  then show "bufs_inv d (bufs (link_head b (unlink b s))) D" using inv_same_core[OF assms(1) _ l(1)] r(2) xs by auto
qed

lemma link_moves: "link_head b (unlink b s) = s\<lparr>bufs := bufs (link_head b (unlink b s))\<rparr>"
  by (simp add: link_head_def unlink_def upd_buf_def Let_def)

lemma link_same [simp]: "bdisk (link_head b (unlink b s)) = bdisk s" "dwrites (link_head b (unlink b s)) = dwrites s" "ptable (link_head b (unlink b s)) = ptable s"
  by (simp_all add: link_head_def unlink_def upd_buf_def Let_def)

lemma brelse_spec:
  assumes "cache_ok d p s" and "own d p s b n" and "refs d s n = 1 \<Longrightarrow> view d s n = bdisk s n"
  obtains t where "brelse b s = Ok () t" and "\<And>b' m. own d p s b' m \<Longrightarrow> m \<noteq> n \<Longrightarrow> own d p t b' m"
    and "after d p s t (view d s) ((refs d s)(n := refs d s n - 1)) ((lockd d s)(n := False)) (bdisk s) (dwrites s)"
proof -
  note i = cache_okD(1)[OF assms(1)] and o = ownD[OF assms(1,2)]
  let ?x = "(bufs s b)\<lparr>b_lock := (b_lock (bufs s b))\<lparr>sl_locked := 0, sl_pid := 0\<rparr>, b_refcnt := b_refcnt (bufs s b) - 1\<rparr>"
  let ?u = "upd_buf b (\<lambda>x. x\<lparr>b_refcnt := b_refcnt x - 1\<rparr>) (releasesleep (Ch_buflock b) (upd_buf_lock b) s)"
  let ?t = "if b_refcnt (bufs ?u b) = 0 then link_head b (unlink b ?u) else ?u"
  have rc: "unat (b_refcnt (bufs s b) - 1) = refs d s n - 1" using o(6,7) unat_minus_one by fastforce
  have ub: "bufs ?u = (bufs s)(b := ?x)" "bdisk ?u = bdisk s" "dwrites ?u = dwrites s"
    by (simp_all add: releasesleep_def upd_buf_lock_def upd_buf_def wakeup_cache)
  have um: "cmoves s ?u" unfolding releasesleep_def
    by (simp add: upd_buf_def upd_buf_lock_def) (rule cmoves_trans[OF cmoves_trans[OF cmoves_bufs wakeup_cmoves] cmoves_bufs])
  have z: "b_data ?x = bdisk s (b_blockno ?x)" if "b_refcnt ?x = 0"
  proof -
    have "refs d s n = 1" using that rc o(6,7) by (simp add: unat_eq_0)
    then show ?thesis using assms(3) o(3,5) by simp
  qed
  have ui: "bufs_inv d (bufs ?u) (bdisk s)" unfolding ub using inv_upd_slot[OF i o(1,2), of ?x] o(2,8) z by simp
  have c: "core (bufs ?t x) = core (bufs ?u x)" for x using front_inv(2)[OF ui o(1)] by simp
  have ti: "bufs_inv d (bufs ?t) (bdisk s)" using ui front_inv(1)[OF ui o(1)] by simp
  have tm: "cmoves ?u ?t"
  proof (cases "b_refcnt (bufs ?u b) = 0")
    case True
    then show ?thesis using cmoves_bufs[of ?u "bufs (link_head b (unlink b ?u))"] link_moves[of b ?u] by simp
  next
    case False
    then show ?thesis using cmoves_bufs[of ?u "bufs ?u"] by simp
  qed
  have tb: "bdisk ?t = bdisk s" "dwrites ?t = dwrites s" using ub(2,3) by simp_all
  have m: "cmoves s ?t" by (rule cmoves_trans[OF um tm])
  have ok: "cache_ok d p ?t" unfolding cache_ok_def cmoves_myproc[OF m] tb(1) using ti cache_okD(2)[OF assms(1)] by blast
  have "view d ?u = view d s" "refs d ?u = (refs d s)(n := refs d s n - 1)" "lockd d ?u = (lockd d s)(n := False)"
    using upd_slot[OF i o(1-3) ub(1,2)] o(2,3,5) rc by (simp_all add: fun_upd_idem)
  then have a: "after d p s ?t (view d s) ((refs d s)(n := refs d s n - 1)) ((lockd d s)(n := False)) (bdisk s) (dwrites s)"
    unfolding after_def using ok m tb same_core[of ?t ?u d, OF c] ub(2) by simp
  have "brelse b s = Ok () ?t" by (simp add: brelse_def o(9) Let_def)
  moreover have "own d p ?t b' k" if "own d p s b' k" "k \<noteq> n" for b' k
    using that o(3) core_eqD(3-5)[OF c[of b']] cmoves_pid[OF m, of p] unfolding own_def ub(1) by auto
  ultimately show thesis using a by (intro that[of ?t])
qed

end
