(* ===== verification/Log_spec.thy ===== *)
theory Log_spec
  imports Log Bio_spec
begin

text \<open>
  What the log promises. \<^verbatim>\<open>commit\<close> makes a known sequence of block writes: the new contents to the log, the header, the new contents to
  their places, the empty header. If the machine stops after any number of them, recovery from what is then on the disk
  leaves all of the transaction or none of it.
\<close>

definition apply_writes :: "(u32 \<times> u8 list) list \<Rightarrow> disk \<Rightarrow> disk" where
  "apply_writes ws D = fold (\<lambda>(n, v) D. D(n := v)) ws D"

lemma apply_writes_simps [simp]:
  "apply_writes [] D = D" "apply_writes ((n, v) # ws) D = apply_writes ws (D(n := v))"
  "apply_writes (ws @ ws') D = apply_writes ws' (apply_writes ws D)"
  by (simp_all add: apply_writes_def)

lemma apply_writes_other: "n \<notin> fst ` set ws \<Longrightarrow> apply_writes ws D n = D n"
  by (induction ws arbitrary: D) auto

lemma apply_writes_in: "\<forall>(m, v) \<in> set ws. m = n \<longrightarrow> v = x \<Longrightarrow> n \<in> fst ` set ws \<Longrightarrow> apply_writes ws D n = x"
proof (induction ws arbitrary: D)
  case (Cons w ws)
  then show ?case
    by (cases "n \<in> fst ` set ws"; cases w) (auto simp: apply_writes_other)
qed simp

section \<open>Two blocks at a time\<close>

lemma unref_clean:
  assumes "cache_ok d p s" and "refs d s n = 0"
  shows "view d s n = bdisk s n"
proof (cases "slot_of d (bufs s) n")
  case (Some b)
  then show ?thesis using assms bufs_invD(7)[OF cache_okD(1)[OF assms(1)], of b] slot_ofD[OF Some]
    by (simp add: view_def refs_def unat_eq_0)
qed (simp add: view_def)

definition room :: "u32 \<Rightarrow> 'z bcache_scheme \<Rightarrow> bool" where
  "room d s \<longleftrightarrow> card {m. refs d s m \<noteq> 0} + 2 \<le> NBUF \<and> (\<forall>n. refs d s n + 1 < 2 ^ 32)"

lemma two_reads:
  assumes "cache_ok d p s" and "a \<noteq> b" and "\<not> lockd d s a" "\<not> lockd d s b" and "room d s"
  obtains x y u t where "bread d a s = Ok x u" and "bread d b u = Ok y t" and "own d p t x a" and "own d p t y b" and "cmoves s u"
    and "after d p s t (view d s) ((refs d s)(a := refs d s a + 1, b := refs d s b + 1)) ((lockd d s)(a := True, b := True)) (bdisk s) (dwrites s)"
proof -
  have r: "card {m. refs d s m \<noteq> 0} < NBUF" "refs d s a + 1 < 2 ^ 32" "refs d s b + 1 < 2 ^ 32" using assms(5) by (auto simp: room_def)
  obtain x u where x: "bread d a s = Ok x u" "own d p u x a"
    "after d p s u (view d s) ((refs d s)(a := refs d s a + 1)) ((lockd d s)(a := True)) (bdisk s) (dwrites s)"
    using bread_spec[OF assms(1,3) r(2)] r(1) by metis
  note u = afterD[OF x(3)]
  have "{m. refs d u m \<noteq> 0} \<subseteq> insert a {m. refs d s m \<noteq> 0}" using u(4) by auto
  then have "card {m. refs d u m \<noteq> 0} \<le> card {m. refs d s m \<noteq> 0} + 1"
    using card_mono[OF finite, of "{m. refs d u m \<noteq> 0}" "insert a {m. refs d s m \<noteq> 0}"] by (simp add: card_insert_if split: if_splits)
  then have c: "card {m. refs d u m \<noteq> 0} < NBUF" using assms(5) by (simp add: room_def)
  have l: "\<not> lockd d u b" "refs d u b + 1 < 2 ^ 32" using u(4,5) assms(2,4) r(3) by auto
  obtain y t where y: "bread d b u = Ok y t" "own d p t y b" "\<And>b' m. own d p u b' m \<Longrightarrow> m \<noteq> b \<Longrightarrow> own d p t b' m"
    "after d p u t (view d u) ((refs d u)(b := refs d u b + 1)) ((lockd d u)(b := True)) (bdisk u) (dwrites u)"
    using bread_spec[OF u(1) l] c by metis
  have "after d p s t (view d s) ((refs d s)(a := refs d s a + 1, b := refs d s b + 1)) ((lockd d s)(a := True, b := True)) (bdisk s) (dwrites s)"
    using after_trans[OF x(3) y(4)] u(3-7) assms(2) by simp
  then show thesis using that[OF x(1) y(1) y(3)[OF x(2) assms(2)] y(2) u(2)] by blast
qed

lemma two_releases:
  assumes "cache_ok d p s" and "own d p s x a" "own d p s y b" and "a \<noteq> b"
    and "refs d s a = 1 \<Longrightarrow> view d s a = bdisk s a" and "refs d s b = 1 \<Longrightarrow> view d s b = bdisk s b"
  obtains u t where "brelse x s = Ok () u" and "brelse y u = Ok () t"
    and "after d p s t (view d s) ((refs d s)(a := refs d s a - 1, b := refs d s b - 1)) ((lockd d s)(a := False, b := False)) (bdisk s) (dwrites s)"
proof -
  obtain u where u: "brelse x s = Ok () u" "\<And>b' m. own d p s b' m \<Longrightarrow> m \<noteq> a \<Longrightarrow> own d p u b' m"
    "after d p s u (view d s) ((refs d s)(a := refs d s a - 1)) ((lockd d s)(a := False)) (bdisk s) (dwrites s)"
    using brelse_spec[OF assms(1,2,5)] by metis
  note a = afterD[OF u(3)]
  have "refs d u b = 1 \<Longrightarrow> view d u b = bdisk u b" using a(3,4,6) assms(4,6) by simp
  then obtain t where t: "brelse y u = Ok () t"
    "after d p u t (view d u) ((refs d u)(b := refs d u b - 1)) ((lockd d u)(b := False)) (bdisk u) (dwrites u)"
    using brelse_spec[OF a(1) u(2)[OF assms(3) assms(4)[symmetric]]] by metis
  then show thesis using that[OF u(1) t(1)] after_trans[OF u(3) t(2)] a(3-7) assms(4) by simp
qed

section \<open>The steps of a commit, by what they write\<close>

definition wrote :: "u32 \<Rightarrow> nat \<Rightarrow> 'z bcache_scheme \<Rightarrow> 'z bcache_scheme \<Rightarrow> (u32 \<times> u8 list) list \<Rightarrow> (u32 \<Rightarrow> nat) \<Rightarrow> bool" where
  "wrote d p s t ws R \<longleftrightarrow> after d p s t (apply_writes ws (view d s)) R (lockd d s) (apply_writes ws (bdisk s)) (dwrites s @ ws)"

lemma wroteD:
  assumes "wrote d p s t ws R"
  shows "cache_ok d p t" "cmoves s t" "view d t = apply_writes ws (view d s)" "refs d t = R" "lockd d t = lockd d s"
    "bdisk t = apply_writes ws (bdisk s)" "dwrites t = dwrites s @ ws"
  using afterD[OF assms[unfolded wrote_def]] .

lemma wrote_refl: "cache_ok d p s \<Longrightarrow> wrote d p s s [] (refs d s)"
  using cmoves_bufs[of s "bufs s"] by (simp add: wrote_def after_def)

lemma wrote_trans: "wrote d p s t ws R \<Longrightarrow> wrote d p t u ws' R' \<Longrightarrow> wrote d p s u (ws @ ws') R'"
  unfolding wrote_def using wroteD[unfolded wrote_def] after_trans by fastforce

lemma cmoves_log:
  fixes s t :: "'z logst_scheme"
  assumes "cmoves s t"
  shows "l_dev t = l_dev s" "l_start t = l_start s" "lh_n t = lh_n s" "lh_block t = lh_block s" "l_size t = l_size s"
    "l_outstanding t = l_outstanding s" "l_committing t = l_committing s" "lh_len t = lh_len s"
  using assms by (elim cmovesE; simp add: lh_len_def)+

abbreviation lblk :: "'z logst_scheme \<Rightarrow> nat \<Rightarrow> u32" where
  "lblk s i \<equiv> l_start s + of_nat i + 1"

lemma write_log_one_spec:
  fixes s :: "'z logst_scheme"
  assumes "cache_ok d p s" and "l_dev s = d" and "lblk s i \<noteq> lh_block s i" and "\<not> lockd d s (lblk s i)" "\<not> lockd d s (lh_block s i)" and "room d s"
  obtains t where "write_log_one i s = Ok () t" and "wrote d p s t [(lblk s i, view d s (lh_block s i))] (refs d s)"
proof -
  let ?l = "lblk s i" and ?h = "lh_block s i"
  obtain x y u t0 where r: "bread d ?l s = Ok x u" "bread d ?h u = Ok y t0" "own d p t0 x ?l" "own d p t0 y ?h" "cmoves s u"
    and a0: "after d p s t0 (view d s) ((refs d s)(?l := refs d s ?l + 1, ?h := refs d s ?h + 1)) ((lockd d s)(?l := True, ?h := True)) (bdisk s) (dwrites s)"
    using two_reads[OF assms(1,3-6)] by metis
  note d0 = afterD[OF a0]
  let ?v = "view d s ?h"
  have v: "b_data (bufs t0 y) = ?v" using ownD(5)[OF d0(1) r(4)] d0(3) by simp
  obtain t2 where w: "bwrite x (upd_buf x (\<lambda>z. z\<lparr>b_data := b_data (bufs t0 y)\<rparr>) t0) = Ok () t2" "\<And>b' m. own d p t0 b' m \<Longrightarrow> own d p t2 b' m"
    and a2: "after d p t0 t2 ((view d t0)(?l := ?v)) (refs d t0) (lockd d t0) ((bdisk t0)(?l := ?v)) (dwrites t0 @ [(?l, ?v)])"
    using put_block_spec[OF d0(1) r(3), of "\<lambda>z. z\<lparr>b_data := b_data (bufs t0 y)\<rparr>" ?v] v by metis
  note d2 = afterD[OF a2]
  have "refs d t2 ?h = 1 \<Longrightarrow> view d t2 ?h = bdisk t2 ?h" "refs d t2 ?l = 1 \<Longrightarrow> view d t2 ?l = bdisk t2 ?l"
    using unref_clean[OF assms(1), of ?h] assms(3) by (auto simp: d2 d0)
  then obtain t3 t4 where z: "brelse y t2 = Ok () t3" "brelse x t3 = Ok () t4"
    "after d p t2 t4 (view d t2) ((refs d t2)(?h := refs d t2 ?h - 1, ?l := refs d t2 ?l - 1)) ((lockd d t2)(?h := False, ?l := False)) (bdisk t2) (dwrites t2)"
    using two_releases[OF d2(1) w(2)[OF r(4)] w(2)[OF r(3)] assms(3)[symmetric]] by metis
  have "write_log_one i s = Ok () t4" using r(1,2) w(1) z(1,2) by (simp add: write_log_one_def assms(2) cmoves_log[OF r(5)] Let_def)
  moreover have "(lockd d t2)(?h := False, ?l := False) = lockd d s" "(refs d t2)(?h := refs d t2 ?h - 1, ?l := refs d t2 ?l - 1) = refs d s"
    using assms(3-5) by (auto simp: d2 d0 fun_eq_iff)
  then have "wrote d p s t4 [(?l, ?v)] (refs d s)" using after_trans[OF a0 after_trans[OF a2 z(3)]] by (simp add: wrote_def d2 d0)
  ultimately show thesis by (rule that)
qed

lemma install_one_spec:
  fixes s :: "'z logst_scheme"
  assumes "cache_ok d p s" and "l_dev s = d" and "lblk s i \<noteq> lh_block s i" and "\<not> lockd d s (lblk s i)" "\<not> lockd d s (lh_block s i)" and "room d s"
    and "\<not> recovering \<Longrightarrow> refs d s (lh_block s i) \<noteq> 0"
  obtains t where "install_one recovering i s = Ok () t" and "wrote d p s t [(lh_block s i, view d s (lblk s i))]
    (if recovering then refs d s else (refs d s)(lh_block s i := refs d s (lh_block s i) - 1))"
proof -
  let ?l = "lblk s i" and ?h = "lh_block s i"
  obtain x y u t0 where r: "bread d ?l s = Ok x u" "bread d ?h u = Ok y t0" "own d p t0 x ?l" "own d p t0 y ?h" "cmoves s u"
    and a0: "after d p s t0 (view d s) ((refs d s)(?l := refs d s ?l + 1, ?h := refs d s ?h + 1)) ((lockd d s)(?l := True, ?h := True)) (bdisk s) (dwrites s)"
    using two_reads[OF assms(1,3-6)] by metis
  note d0 = afterD[OF a0]
  let ?v = "view d s ?l"
  have v: "b_data (bufs t0 x) = ?v" using ownD(5)[OF d0(1) r(3)] d0(3) by simp
  obtain t1 where w: "bwrite y (upd_buf y (\<lambda>z. z\<lparr>b_data := b_data (bufs t0 x)\<rparr>) t0) = Ok () t1" "\<And>b' m. own d p t0 b' m \<Longrightarrow> own d p t1 b' m"
    and a1: "after d p t0 t1 ((view d t0)(?h := ?v)) (refs d t0) (lockd d t0) ((bdisk t0)(?h := ?v)) (dwrites t0 @ [(?h, ?v)])"
    using put_block_spec[OF d0(1) r(4), of "\<lambda>z. z\<lparr>b_data := b_data (bufs t0 x)\<rparr>" ?v] v by metis
  note d1 = afterD[OF a1]
  let ?t2 = "if recovering then t1 else bunpin y t1" and ?R = "if recovering then refs d t1 else (refs d t1)(?h := refs d t1 ?h - 1)"
  have two: "2 \<le> refs d t1 ?h" if "\<not> recovering" using assms(7)[OF that] by (simp add: d1 d0)
  have a2: "after d p t1 ?t2 (view d t1) ?R (lockd d t1) (bdisk t1) (dwrites t1)"
    using bunpin_spec(1)[OF d1(1) w(2)[OF r(4)] two] d1 cmoves_bufs[of t1 "bufs t1"] by (auto simp: after_def)
  have o2: "own d p ?t2 x ?l" "own d p ?t2 y ?h" using bunpin_spec(2)[OF d1(1) w(2)[OF r(4)] two] w(2)[OF r(3)] w(2)[OF r(4)] by auto
  note d2 = afterD[OF a2]
  have "refs d ?t2 ?l = 1 \<Longrightarrow> view d ?t2 ?l = bdisk ?t2 ?l" "refs d ?t2 ?h = 1 \<Longrightarrow> view d ?t2 ?h = bdisk ?t2 ?h"
    using unref_clean[OF assms(1), of ?l] assms(3) unfolding d2 by (cases recovering; simp add: d1 d0)+
  then obtain t3 t4 where z: "brelse x ?t2 = Ok () t3" "brelse y t3 = Ok () t4"
    "after d p ?t2 t4 (view d ?t2) ((refs d ?t2)(?l := refs d ?t2 ?l - 1, ?h := refs d ?t2 ?h - 1)) ((lockd d ?t2)(?l := False, ?h := False)) (bdisk ?t2) (dwrites ?t2)"
    using two_releases[OF d2(1) o2 assms(3)] by metis
  have "install_one recovering i s = Ok () t4"
    using r(1,2) w(1) z(1,2) by (simp add: install_one_def assms(2) cmoves_log[OF r(5)] Let_def)
  moreover have "(lockd d ?t2)(?l := False, ?h := False) = lockd d s" "(refs d ?t2)(?l := refs d ?t2 ?l - 1, ?h := refs d ?t2 ?h - 1)
      = (if recovering then refs d s else (refs d s)(?h := refs d s ?h - 1))"
    using assms(3-5) unfolding d2 by (cases recovering; simp add: d1 d0 fun_eq_iff)+
  then have "wrote d p s t4 [(?h, ?v)] (if recovering then refs d s else (refs d s)(?h := refs d s ?h - 1))"
    using after_trans[OF a0 after_trans[OF a1 after_trans[OF a2 z(3)]]] unfolding wrote_def d2 by (simp add: d1 d0)
  ultimately show thesis by (rule that)
qed

lemma put_head_cong: "lh_n t = lh_n s \<Longrightarrow> lh_block t = lh_block s \<Longrightarrow> put_head t = put_head s"
  by (simp add: put_head_def lh_len_def fun_eq_iff)

lemma write_head_spec:
  fixes s :: "'z logst_scheme"
  assumes "cache_ok d p s" and "l_dev s = d" and "\<not> lockd d s (l_start s)" and "room d s" and "lh_len s \<le> LOGSIZE"
  obtains t where "write_head s = Ok () t" and "wrote d p s t [(l_start s, put_head s (view d s (l_start s)))] (refs d s)"
proof -
  let ?n = "l_start s"
  have r: "refs d s ?n + 1 < 2 ^ 32" "refs d s ?n \<noteq> 0 \<or> card {m. refs d s m \<noteq> 0} < NBUF" using assms(4) by (auto simp: room_def)
  obtain b t0 where b: "bread d ?n s = Ok b t0" "own d p t0 b ?n"
    and a0: "after d p s t0 (view d s) ((refs d s)(?n := refs d s ?n + 1)) ((lockd d s)(?n := True)) (bdisk s) (dwrites s)"
    using bread_spec[OF assms(1,3) r] by metis
  note d0 = afterD[OF a0]
  have ph: "put_head t0 = put_head s" by (rule put_head_cong) (simp_all add: cmoves_log[OF d0(2)])
  let ?v = "put_head s (view d s ?n)"
  let ?f = "\<lambda>x. x\<lparr>b_data := put_head t0 (b_data x)\<rparr>"
  have v: "?f (bufs t0 b) = (bufs t0 b)\<lparr>b_data := ?v\<rparr>" using ownD(5)[OF d0(1) b(2)] d0(3) by (simp add: ph)
  obtain t1 where w: "bwrite b (upd_buf b ?f t0) = Ok () t1" "\<And>b' m. own d p t0 b' m \<Longrightarrow> own d p t1 b' m"
    and a1: "after d p t0 t1 ((view d t0)(?n := ?v)) (refs d t0) (lockd d t0) ((bdisk t0)(?n := ?v)) (dwrites t0 @ [(?n, ?v)])"
    by (rule put_block_spec[OF d0(1) b(2), of ?f ?v, OF v]) blast
  note d1 = afterD[OF a1]
  have "refs d t1 ?n = 1 \<Longrightarrow> view d t1 ?n = bdisk t1 ?n" by (simp add: d1)
  then obtain t2 where z: "brelse b t1 = Ok () t2"
    "after d p t1 t2 (view d t1) ((refs d t1)(?n := refs d t1 ?n - 1)) ((lockd d t1)(?n := False)) (bdisk t1) (dwrites t1)"
    using brelse_spec[OF d1(1) w(2)[OF b(2)]] by metis
  have "write_head s = Ok () t2" using b(1) w(1) z(1) assms(2,5) cmoves_log(8)[OF d0(2)] by (simp add: write_head_def Let_def)
  moreover have "(lockd d t1)(?n := False) = lockd d s" "(refs d t1)(?n := refs d t1 ?n - 1) = refs d s"
    using assms(3) by (auto simp: d1 d0 fun_eq_iff)
  then have "wrote d p s t2 [(?n, ?v)] (refs d s)" using after_trans[OF a0 after_trans[OF a1 z(2)]] by (simp add: wrote_def d1 d0)
  ultimately show thesis by (rule that)
qed

section \<open>The loops over the logged blocks\<close>

definition log_area :: "'z logst_scheme \<Rightarrow> u32 set" where
  "log_area s = (\<lambda>i. l_start s + of_nat i) ` {..unat (l_size s - 1)}"

text \<open>The blocks in the log fit into it, and the header fits into a block.\<close>

definition lh_fits :: "'z logst_scheme \<Rightarrow> bool" where
  "lh_fits s \<longleftrightarrow> lh_len s \<le> LOGSIZE \<and> lh_len s \<le> unat (l_size s - 1)"

definition homes :: "'z logst_scheme \<Rightarrow> u32 list" where
  "homes s = map (lh_block s) [0..<lh_len s]"

text \<open>The log's blocks and the blocks in the log are apart and nobody holds them; there are buffers to work with.\<close>

definition log_free :: "u32 \<Rightarrow> nat \<Rightarrow> 'z logst_scheme \<Rightarrow> bool" where
  "log_free d p s \<longleftrightarrow> cache_ok d p s \<and> l_dev s = d \<and> room d s \<and> lh_fits s
     \<and> set (homes s) \<inter> log_area s = {} \<and> (\<forall>n \<in> log_area s \<union> set (homes s). \<not> lockd d s n)"

lemma log_area_in: "l_start s \<in> log_area s" "i < lh_len s \<Longrightarrow> lh_fits s \<Longrightarrow> lblk s i \<in> log_area s"
proof -
  show "l_start s \<in> log_area s" unfolding log_area_def by (rule image_eqI[of _ _ 0]) auto
  show "i < lh_len s \<Longrightarrow> lh_fits s \<Longrightarrow> lblk s i \<in> log_area s" unfolding log_area_def by (rule image_eqI[of _ _ "Suc i"]) (auto simp: lh_fits_def)
qed

lemma unat_small: "i \<le> LOGSIZE \<Longrightarrow> unat (of_nat i :: u32) = i"
  by (simp add: unat_of_nat)

lemma of_nat_u32_inj: "i \<le> LOGSIZE \<Longrightarrow> j \<le> LOGSIZE \<Longrightarrow> (of_nat i :: u32) = of_nat j \<Longrightarrow> i = j"
  using unat_small[of i] unat_small[of j] by argo

lemma lblk_inj: "i < LOGSIZE \<Longrightarrow> j < LOGSIZE \<Longrightarrow> lblk s i = lblk s j \<Longrightarrow> i = j"
  using of_nat_u32_inj[of i j] by simp

lemma lblk_start: "i < LOGSIZE \<Longrightarrow> lblk s i \<noteq> l_start s"
  using of_nat_u32_inj[of "Suc i" 0] by (auto simp: add.assoc add.commute)

lemma log_freeD:
  assumes "log_free d p s"
  shows "cache_ok d p s" "l_dev s = d" "room d s" "lh_len s \<le> LOGSIZE"
    "\<And>i. i < lh_len s \<Longrightarrow> lh_block s i \<notin> log_area s" "\<And>n. n \<in> log_area s \<Longrightarrow> \<not> lockd d s n" "\<And>i. i < lh_len s \<Longrightarrow> \<not> lockd d s (lh_block s i)"
    "lh_fits s"
proof -
  show "cache_ok d p s" "l_dev s = d" "room d s" "lh_len s \<le> LOGSIZE" "\<And>n. n \<in> log_area s \<Longrightarrow> \<not> lockd d s n" "lh_fits s" using assms by (auto simp: log_free_def lh_fits_def)
  have h: "lh_block s i \<in> set (homes s)" if "i < lh_len s" for i using that by (simp add: homes_def)
  show "lh_block s i \<notin> log_area s" "\<not> lockd d s (lh_block s i)" if "i < lh_len s" for i using assms h[OF that] by (auto simp: log_free_def)
qed

lemma room_mono: "room d s \<Longrightarrow> (\<And>n. refs d t n \<le> refs d s n) \<Longrightarrow> room d t"
proof -
  assume r: "room d s" and le: "\<And>n. refs d t n \<le> refs d s n"
  have "{m. refs d t m \<noteq> 0} \<subseteq> {m. refs d s m \<noteq> 0}" using le by (metis (mono_tags, lifting) Collect_mono le_zero_eq)
  then have "card {m. refs d t m \<noteq> 0} \<le> card {m. refs d s m \<noteq> 0}" by (rule card_mono[OF finite])
  then show ?thesis using r le le_less_trans[OF add_right_mono[OF le]] unfolding room_def by (meson add_le_mono1 le_trans)
qed

lemma log_free_wrote:
  fixes s t :: "'z logst_scheme"
  assumes "log_free d p s" and "wrote d p s t ws R" and "\<And>n. R n \<le> refs d s n"
  shows "log_free d p t"
proof -
  note w = wroteD[OF assms(2)]
  have "room d t" using log_freeD(3)[OF assms(1)] assms(3) w(4) by (intro room_mono[of d s t]) simp_all
  then show ?thesis using assms(1) w(1,5) by (simp add: log_free_def log_area_def homes_def lh_fits_def cmoves_log[OF w(2)])
qed

lemma write_log_upto:
  fixes s :: "'z logst_scheme"
  assumes "log_free d p s" and "k \<le> lh_len s"
  shows "\<exists>t. loop write_log_one [0..<k] s = Ok () t \<and> wrote d p s t (map (\<lambda>i. (lblk s i, view d s (lh_block s i))) [0..<k]) (refs d s)"
  using assms(2)
proof (induction k)
  case 0
  then show ?case using wrote_refl[OF log_freeD(1)[OF assms(1)]] by simp
next
  case (Suc k)
  let ?ws = "map (\<lambda>i. (lblk s i, view d s (lh_block s i))) [0..<k]"
  obtain t where t: "loop write_log_one [0..<k] s = Ok () t" and w: "wrote d p s t ?ws (refs d s)" using Suc by auto
  note f = log_freeD[OF assms(1)] and g = log_freeD[OF log_free_wrote[OF assms(1) w order_refl]] and c = cmoves_log[OF wroteD(2)[OF w]]
  have k: "k < LOGSIZE" "k < lh_len s" using Suc.prems f(4) by auto
  have ne: "lblk t k \<noteq> lh_block t k" using log_area_in(2)[OF k(2) f(8)] f(5)[OF k(2)] by (metis c(2,4))
  have nl: "\<not> lockd d t (lblk t k)" "\<not> lockd d t (lh_block t k)"
    using g(6)[OF log_area_in(2)[of k t]] g(7,8) k(2) by (simp_all add: c(8))
  obtain u where u: "write_log_one k t = Ok () u" "wrote d p t u [(lblk t k, view d t (lh_block t k))] (refs d t)"
    using write_log_one_spec[OF g(1,2) ne nl g(3)] by metis
  have v: "view d t (lh_block s k) = view d s (lh_block s k)" unfolding wroteD(3)[OF w]
  proof (rule apply_writes_other)
    have "lblk s i \<noteq> lh_block s k" if "i < k" for i using log_area_in(2)[of i s] f(5)[OF k(2)] f(8) that k(2) by auto
    then show "lh_block s k \<notin> fst ` set ?ws" by force
  qed
  have "wrote d p s u (?ws @ [(lblk s k, view d s (lh_block s k))]) (refs d s)"
    using wrote_trans[OF w u(2)] by (simp add: c v wroteD(4)[OF w])
  then show ?case using t u(1) by (auto simp: loop_append)
qed

definition unpinned :: "bool \<Rightarrow> u32 set \<Rightarrow> (u32 \<Rightarrow> nat) \<Rightarrow> u32 \<Rightarrow> nat" where
  "unpinned recovering A R = (\<lambda>n. if \<not> recovering \<and> n \<in> A then R n - 1 else R n)"

lemma install_upto:
  fixes s :: "'z logst_scheme"
  assumes "log_free d p s" and "\<not> recovering \<Longrightarrow> distinct (homes s) \<and> (\<forall>n \<in> set (homes s). refs d s n \<noteq> 0)" and "k \<le> lh_len s"
  shows "\<exists>t. loop (install_one recovering) [0..<k] s = Ok () t
    \<and> wrote d p s t (map (\<lambda>i. (lh_block s i, view d s (lblk s i))) [0..<k]) (unpinned recovering (lh_block s ` {..<k}) (refs d s))"
  using assms(3)
proof (induction k)
  case 0
  then show ?case using wrote_refl[OF log_freeD(1)[OF assms(1)]] by (simp add: unpinned_def)
next
  case (Suc k)
  let ?ws = "map (\<lambda>i. (lh_block s i, view d s (lblk s i))) [0..<k]" and ?R = "\<lambda>k. unpinned recovering (lh_block s ` {..<k}) (refs d s)"
  obtain t where t: "loop (install_one recovering) [0..<k] s = Ok () t" and w: "wrote d p s t ?ws (?R k)" using Suc by auto
  have f: "log_free d p t" by (rule log_free_wrote[OF assms(1) w]) (simp add: unpinned_def)
  note f0 = log_freeD[OF assms(1)] and g = log_freeD[OF f] and c = cmoves_log[OF wroteD(2)[OF w]]
  have k: "k < LOGSIZE" "k < lh_len s" using Suc.prems f0(4) by auto
  have ne: "lblk t k \<noteq> lh_block t k" using log_area_in(2)[OF k(2) f0(8)] f0(5)[OF k(2)] by (metis c(2,4))
  have nl: "\<not> lockd d t (lblk t k)" "\<not> lockd d t (lh_block t k)"
    using g(6)[OF log_area_in(2)[of k t]] g(7,8) k(2) by (simp_all add: c(8))
  have new: "lh_block s k \<notin> lh_block s ` {..<k}" if "\<not> recovering"
    using assms(2)[OF that] k(2) by (force simp: homes_def distinct_map inj_on_def)
  have pin: "refs d t (lh_block t k) \<noteq> 0" if "\<not> recovering"
    using assms(2)[OF that] k(2) new[OF that] by (simp add: wroteD(4)[OF w] unpinned_def c homes_def)
  obtain u where u: "install_one recovering k t = Ok () u" "wrote d p t u [(lh_block t k, view d t (lblk t k))]
      (if recovering then refs d t else (refs d t)(lh_block t k := refs d t (lh_block t k) - 1))"
    using install_one_spec[OF g(1,2) ne nl g(3) pin] by metis
  have v: "view d t (lblk s k) = view d s (lblk s k)" unfolding wroteD(3)[OF w]
  proof (rule apply_writes_other)
    have "lblk s k \<noteq> lh_block s i" if "i < k" for i using log_area_in(2)[OF k(2) f0(8)] f0(5)[of i] that k(2) by auto
    then show "lblk s k \<notin> fst ` set ?ws" by force
  qed
  have "(if recovering then refs d t else (refs d t)(lh_block t k := refs d t (lh_block t k) - 1)) = ?R (Suc k)"
    using new by (auto simp: wroteD(4)[OF w] c unpinned_def fun_eq_iff lessThan_Suc)
  then have "wrote d p s u (?ws @ [(lh_block s k, view d s (lblk s k))]) (?R (Suc k))"
    using wrote_trans[OF w u(2)] by (simp add: c v)
  then show ?case using t u(1) by (auto simp: loop_append)
qed

section \<open>Commit\<close>

text \<open>What a commit writes, in order.\<close>

definition to_log :: "u32 \<Rightarrow> 'z logst_scheme \<Rightarrow> (u32 \<times> u8 list) list" where
  "to_log d s = map (\<lambda>i. (lblk s i, view d s (lh_block s i))) [0..<lh_len s]"

definition to_home :: "u32 \<Rightarrow> 'z logst_scheme \<Rightarrow> (u32 \<times> u8 list) list" where
  "to_home d s = map (\<lambda>i. (lh_block s i, view d s (lh_block s i))) [0..<lh_len s]"

definition commit_writes :: "u32 \<Rightarrow> 'z logst_scheme \<Rightarrow> (u32 \<times> u8 list) list" where
  "commit_writes d s =
     (let H = put_head s (view d s (l_start s)) in
      to_log d s @ [(l_start s, H)] @ to_home d s @ [(l_start s, put_head (s\<lparr>lh_n := 0\<rparr>) H)])"

definition commit_ready :: "u32 \<Rightarrow> nat \<Rightarrow> 'z logst_scheme \<Rightarrow> bool" where
  "commit_ready d p s \<longleftrightarrow> log_free d p s \<and> distinct (homes s) \<and> (\<forall>n \<in> set (homes s). refs d s n \<noteq> 0)"

lemma to_log_at:
  assumes "i < lh_len s" and "lh_fits s"
  shows "apply_writes (to_log d s) D (lblk s i) = view d s (lh_block s i)"
proof (rule apply_writes_in)
  have "j = i" if "j < lh_len s" "lblk s j = lblk s i" for j using lblk_inj[of j i s] that assms by (simp add: lh_fits_def)
  then show "\<forall>(m, v) \<in> set (to_log d s). m = lblk s i \<longrightarrow> v = view d s (lh_block s i)" unfolding to_log_def by clarsimp metis
  show "lblk s i \<in> fst ` set (to_log d s)" using assms by (auto simp: to_log_def image_image)
qed

lemma to_log_other: "n \<notin> log_area s \<Longrightarrow> lh_fits s \<Longrightarrow> apply_writes (to_log d s) D n = D n"
  by (rule apply_writes_other) (use log_area_in(2)[of _ s] in \<open>auto simp: to_log_def\<close>)

lemma to_log_start: "lh_fits s \<Longrightarrow> apply_writes (to_log d s) D (l_start s) = D (l_start s)"
  by (rule apply_writes_other) (use lblk_start[of _ s] in \<open>force simp: to_log_def lh_fits_def\<close>)

lemma to_home_other: "n \<notin> set (homes s) \<Longrightarrow> apply_writes (to_home d s) D n = D n"
  by (rule apply_writes_other) (auto simp: to_home_def homes_def)

lemma to_home_at: "n \<in> set (homes s) \<Longrightarrow> apply_writes (to_home d s) D n = view d s n"
  by (rule apply_writes_in) (auto simp: to_home_def homes_def image_image)

text \<open>The fields of the log in memory are apart from the cache.\<close>

lemma log_fields_cache [simp]:
  fixes s :: "'z logst_scheme"
  shows "view d (s\<lparr>lh_n := x\<rparr>) = view d s" "refs d (s\<lparr>lh_n := x\<rparr>) = refs d s" "lockd d (s\<lparr>lh_n := x\<rparr>) = lockd d s"
    "cache_ok d p (s\<lparr>lh_n := x\<rparr>) = cache_ok d p s" "room d (s\<lparr>lh_n := x\<rparr>) = room d s"
    "view d (s\<lparr>lh_block := y\<rparr>) = view d s" "refs d (s\<lparr>lh_block := y\<rparr>) = refs d s" "lockd d (s\<lparr>lh_block := y\<rparr>) = lockd d s"
    "cache_ok d p (s\<lparr>lh_block := y\<rparr>) = cache_ok d p s" "room d (s\<lparr>lh_block := y\<rparr>) = room d s"
proof -
  show v: "view d (s\<lparr>lh_n := x\<rparr>) = view d s" "refs d (s\<lparr>lh_n := x\<rparr>) = refs d s" "lockd d (s\<lparr>lh_n := x\<rparr>) = lockd d s"
    "view d (s\<lparr>lh_block := y\<rparr>) = view d s" "refs d (s\<lparr>lh_block := y\<rparr>) = refs d s" "lockd d (s\<lparr>lh_block := y\<rparr>) = lockd d s"
    by (auto simp: view_def refs_def lockd_def fun_eq_iff split: option.splits)
  show "cache_ok d p (s\<lparr>lh_n := x\<rparr>) = cache_ok d p s" "cache_ok d p (s\<lparr>lh_block := y\<rparr>) = cache_ok d p s"
    by (simp_all add: cache_ok_def myproc_def mycpu_def cpuid_def)
  show "room d (s\<lparr>lh_n := x\<rparr>) = room d s" "room d (s\<lparr>lh_block := y\<rparr>) = room d s" by (simp_all add: room_def v)
qed

lemma log_free_n0: "log_free d p s \<Longrightarrow> log_free d p (s\<lparr>lh_n := 0\<rparr>)"
  by (simp add: log_free_def lh_len_def lh_fits_def homes_def log_area_def)

lemma wrote_set_n:
  fixes s t :: "'z logst_scheme"
  assumes "wrote d p s t ws R"
  shows "wrote d p (s\<lparr>lh_n := x\<rparr>) (t\<lparr>lh_n := x\<rparr>) ws R"
proof -
  obtain g D W pt where t: "t = s\<lparr>bufs := g, bdisk := D, dwrites := W, ptable := pt\<rparr>" "\<And>q. p_pid (pt q) = p_pid (ptable s q)"
    using wroteD(2)[OF assms] by (rule cmovesE) blast
  have "t\<lparr>lh_n := x\<rparr> = s\<lparr>lh_n := x\<rparr>\<lparr>bufs := g, bdisk := D, dwrites := W, ptable := pt\<rparr>" by (simp add: t(1))
  then have "cmoves (s\<lparr>lh_n := x\<rparr>) (t\<lparr>lh_n := x\<rparr>)" unfolding cmoves_def using t(2) by auto
  then show ?thesis using assms by (simp add: wrote_def after_def)
qed

lemma commit_spec:
  fixes s :: "'z logst_scheme"
  assumes "commit_ready d p s" and "0 < sint (lh_n s)"
  obtains t where "commit s = Ok () t" and "wrote d p (s\<lparr>lh_n := 0\<rparr>) t (commit_writes d s) (unpinned False (set (homes s)) (refs d s))"
proof -
  have f: "log_free d p s" and dp: "distinct (homes s)" "\<forall>n \<in> set (homes s). refs d s n \<noteq> 0" using assms(1) by (auto simp: commit_ready_def)
  note fs = log_freeD[OF f]
  obtain t1 where t1: "write_log s = Ok () t1" "wrote d p s t1 (to_log d s) (refs d s)"
    using write_log_upto[OF f order_refl] fs(4) by (auto simp: write_log_def to_log_def)
  note f1 = log_free_wrote[OF f t1(2) order_refl] and c1 = cmoves_log[OF wroteD(2)[OF t1(2)]]
  let ?H = "put_head s (view d s (l_start s))"
  have v1: "put_head t1 (view d t1 (l_start t1)) = ?H"
    using put_head_cong[OF c1(3,4)] wroteD(3)[OF t1(2)] to_log_start[OF fs(8)] by (simp add: c1)
  obtain t2 where t2: "write_head t1 = Ok () t2" "wrote d p t1 t2 [(l_start s, ?H)] (refs d s)"
    using write_head_spec[OF log_freeD(1,2)[OF f1] log_freeD(6)[OF f1 log_area_in(1)] log_freeD(3,4)[OF f1]] wroteD(4)[OF t1(2)] v1 c1(2) by metis
  note w2 = wrote_trans[OF t1(2) t2(2)]
  note f2 = log_free_wrote[OF f w2 order_refl] and c2 = cmoves_log[OF wroteD(2)[OF w2]]
  have h2: "homes t2 = homes s" by (simp add: homes_def c2)
  have v2: "view d t2 (lblk s i) = view d s (lh_block s i)" if "i < lh_len s" for i
    using wroteD(3)[OF w2] to_log_at[OF that fs(8), of d "view d s"] lblk_start[of i s] that fs(4) by simp
  obtain t3 where t3: "install_trans False t2 = Ok () t3" "wrote d p t2 t3 (to_home d s) (unpinned False (set (homes s)) (refs d s))"
  proof -
    have "map (\<lambda>i. (lh_block t2 i, view d t2 (lblk t2 i))) [0..<lh_len t2] = to_home d s"
      using v2 by (simp add: to_home_def c2)
    moreover have "lh_block t2 ` {..<lh_len t2} = set (homes s)" by (simp add: c2 homes_def lessThan_atLeast0)
    moreover have "distinct (homes t2) \<and> (\<forall>n \<in> set (homes t2). refs d t2 n \<noteq> 0)" using dp by (simp add: h2 wroteD(4)[OF w2])
    ultimately show thesis using install_upto[OF f2 _ order_refl, of False] fs(4) that
      by (auto simp: install_trans_def c2 wroteD(4)[OF w2])
  qed
  note w3 = wrote_trans[OF w2 t3(2)]
  have f3: "log_free d p t3" by (rule log_free_wrote[OF f w3]) (simp add: unpinned_def)
  note c3 = cmoves_log[OF wroteD(2)[OF w3]]
  have w: "wrote d p (s\<lparr>lh_n := 0\<rparr>) (t3\<lparr>lh_n := 0\<rparr>) (to_log d s @ [(l_start s, ?H)] @ to_home d s) (unpinned False (set (homes s)) (refs d s))"
    using wrote_set_n[OF w3] by simp
  note f4 = log_free_n0[OF f3]
  have ls: "l_start s \<notin> set (homes s)" using f log_area_in(1)[of s] by (auto simp: log_free_def)
  have "view d t3 (l_start s) = ?H" using to_home_other[OF ls] unfolding wroteD(3)[OF w3] by simp
  moreover have "put_head (t3\<lparr>lh_n := 0\<rparr>) = put_head (s\<lparr>lh_n := 0\<rparr>)" by (rule put_head_cong) (simp_all add: c3)
  ultimately have v4: "put_head (t3\<lparr>lh_n := 0\<rparr>) (view d (t3\<lparr>lh_n := 0\<rparr>) (l_start (t3\<lparr>lh_n := 0\<rparr>))) = put_head (s\<lparr>lh_n := 0\<rparr>) ?H"
    by (simp add: c3)
  obtain t where t: "write_head (t3\<lparr>lh_n := 0\<rparr>) = Ok () t" "wrote d p (t3\<lparr>lh_n := 0\<rparr>) t [(l_start s, put_head (s\<lparr>lh_n := 0\<rparr>) ?H)] (refs d t3)"
    using write_head_spec[OF log_freeD(1,2)[OF f4] log_freeD(6)[OF f4 log_area_in(1)] log_freeD(3,4)[OF f4]] v4 c3(2) by (simp, metis)
  have "commit s = Ok () t" using assms(2) t1(1) t2(1) t3(1) t(1) by (simp add: commit_def)
  then show thesis using that wrote_trans[OF w t(2)] by (simp add: commit_writes_def Let_def wroteD(4)[OF w3])
qed

section \<open>Recovery\<close>

text \<open>The log in memory as the header on the disk describes it.\<close>

definition with_head :: "u8 list \<Rightarrow> 'z logst_scheme \<Rightarrow> 'z logst_scheme" where
  "with_head h s = s\<lparr>lh_n := get32 0 h, lh_block := (\<lambda>i. if i < nat (sint (get32 0 h)) then get32 (4 + 4 * i) h else lh_block s i)\<rparr>"

lemma with_head_simps [simp]:
  fixes s :: "'z logst_scheme"
  shows "view d (with_head h s) = view d s" "refs d (with_head h s) = refs d s" "lockd d (with_head h s) = lockd d s"
    "cache_ok d p (with_head h s) = cache_ok d p s" "room d (with_head h s) = room d s" "l_dev (with_head h s) = l_dev s"
    "l_start (with_head h s) = l_start s" "l_size (with_head h s) = l_size s" "lh_n (with_head h s) = get32 0 h" "bdisk (with_head h s) = bdisk s" "dwrites (with_head h s) = dwrites s"
    "log_area (with_head h s) = log_area s" "lh_len (with_head h s) = nat (sint (get32 0 h))"
    "i < nat (sint (get32 0 h)) \<Longrightarrow> lh_block (with_head h s) i = get32 (4 + 4 * i) h" "bufs (with_head h s) = bufs s"
  by (simp_all add: with_head_def log_area_def lh_len_def)

lemma read_head_spec:
  fixes s :: "'z logst_scheme"
  assumes "cache_ok d p s" and "l_dev s = d" and "\<not> lockd d s (l_start s)" and "room d s" and "nat (sint (get32 0 (view d s (l_start s)))) \<le> LOGSIZE"
  obtains t where "read_head s = Ok () t" and "wrote d p (with_head (view d s (l_start s)) s) t [] (refs d s)"
proof -
  let ?n = "l_start s" and ?h = "view d s (l_start s)"
  have r: "refs d s ?n + 1 < 2 ^ 32" "refs d s ?n \<noteq> 0 \<or> card {m. refs d s m \<noteq> 0} < NBUF" using assms(4) by (auto simp: room_def)
  obtain b t0 where b: "bread d ?n s = Ok b t0" "own d p t0 b ?n"
    and a0: "after d p s t0 (view d s) ((refs d s)(?n := refs d s ?n + 1)) ((lockd d s)(?n := True)) (bdisk s) (dwrites s)"
    using bread_spec[OF assms(1,3) r] by metis
  note d0 = afterD[OF a0] and c0 = cmoves_log[OF afterD(2)[OF a0]]
  let ?t1 = "with_head ?h t0" and ?s1 = "with_head ?h s"
  have v: "b_data (bufs t0 b) = ?h" using ownD(5)[OF d0(1) b(2)] d0(3) by simp
  obtain g D W pt where t0: "t0 = s\<lparr>bufs := g, bdisk := D, dwrites := W, ptable := pt\<rparr>" "\<And>q. p_pid (pt q) = p_pid (ptable s q)"
    using d0(2) by (rule cmovesE) blast
  have "?t1 = ?s1\<lparr>bufs := g, bdisk := D, dwrites := W, ptable := pt\<rparr>" "ptable ?s1 = ptable s" by (simp_all add: t0(1) with_head_def cong: if_cong)
  then have m: "cmoves ?s1 ?t1" unfolding cmoves_def using t0(2) by auto
  have o: "own d p ?t1 b ?n" using b(2) by (simp add: own_def with_head_def)
  have cl: "refs d ?t1 ?n = 1 \<Longrightarrow> view d ?t1 ?n = bdisk ?t1 ?n" using unref_clean[OF assms(1), of ?n] by (simp add: d0)
  obtain t where z: "brelse b ?t1 = Ok () t"
    "after d p ?t1 t (view d ?t1) ((refs d ?t1)(?n := refs d ?t1 ?n - 1)) ((lockd d ?t1)(?n := False)) (bdisk ?t1) (dwrites ?t1)"
    using brelse_spec[OF _ o cl] d0(1) by (simp, metis)
  have "read_head s = Ok () t" using b(1) z(1) assms(2,5) v by (simp add: read_head_def Let_def lh_len_def with_head_def cong: if_cong)
  moreover have "(lockd d ?t1)(?n := False) = lockd d s" "(refs d ?t1)(?n := refs d ?t1 ?n - 1) = refs d s"
    using assms(3) by (auto simp: d0 fun_eq_iff)
  then have "wrote d p ?s1 t [] (refs d s)" using afterD[OF z(2)] cmoves_trans[OF m afterD(2)[OF z(2)]] by (simp add: wrote_def after_def d0)
  ultimately show thesis by (rule that)
qed

text \<open>What recovery writes: the blocks the header names from the log to their places, and the empty header.\<close>

definition recovery_writes :: "u32 \<Rightarrow> 'z logst_scheme \<Rightarrow> (u32 \<times> u8 list) list" where
  "recovery_writes d s =
     (let h = view d s (l_start s); s1 = with_head h s in
      map (\<lambda>i. (lh_block s1 i, view d s (lblk s i))) [0..<lh_len s1] @ [(l_start s, put_head (s1\<lparr>lh_n := 0\<rparr>) h)])"

lemma recover_spec:
  fixes s :: "'z logst_scheme" and d :: u32
  defines "s1 \<equiv> with_head (view d s (l_start s)) s"
  assumes "log_free d p s1"
  obtains t where "recover_from_log s = Ok () t" and "wrote d p (s1\<lparr>lh_n := 0\<rparr>) t (recovery_writes d s) (refs d s)"
proof -
  let ?h = "view d s (l_start s)"
  note f = log_freeD[OF assms(2), unfolded s1_def, simplified]
  obtain t0 where t0: "read_head s = Ok () t0" "wrote d p s1 t0 [] (refs d s)"
    using read_head_spec[OF f(1,2) f(6)[OF log_area_in(1)] f(3,4)] unfolding s1_def by metis
  have f0: "log_free d p t0" by (rule log_free_wrote[OF assms(2) t0(2)]) (simp add: s1_def)
  note c0 = cmoves_log[OF wroteD(2)[OF t0(2)]] and w0 = wroteD[OF t0(2), simplified]
  let ?ws = "map (\<lambda>i. (lh_block s1 i, view d s (lblk s i))) [0..<lh_len s1]"
  have s1: "l_start s1 = l_start s" "view d s1 = view d s" "refs d s1 = refs d s" by (simp_all add: s1_def)
  obtain t1 where t1: "install_trans True t0 = Ok () t1" "wrote d p t0 t1 ?ws (refs d s)"
    using install_upto[OF f0 _ order_refl, of True] f(4) log_freeD(4)[OF f0] by (auto simp: install_trans_def c0 w0 s1 unpinned_def)
  have f1: "log_free d p t1" by (rule log_free_wrote[OF f0 t1(2)]) (simp add: w0)
  note w1 = wrote_trans[OF t0(2) t1(2), simplified] note c1 = cmoves_log[OF wroteD(2)[OF w1]] and f2 = log_free_n0[OF f1]
  have "lh_block s1 i \<noteq> l_start s" if "i < lh_len s1" for i using log_area_in(1)[of s1] log_freeD(5)[OF assms(2) that] s1(1) by metis
  then have "l_start s \<notin> fst ` set ?ws" by force
  then have "view d t1 (l_start s) = ?h" using wroteD(3)[OF w1] by (simp add: apply_writes_other s1)
  moreover have "put_head (t1\<lparr>lh_n := 0\<rparr>) = put_head (s1\<lparr>lh_n := 0\<rparr>)" by (rule put_head_cong) (simp_all add: c1)
  ultimately have v: "put_head (t1\<lparr>lh_n := 0\<rparr>) (view d (t1\<lparr>lh_n := 0\<rparr>) (l_start (t1\<lparr>lh_n := 0\<rparr>))) = put_head (s1\<lparr>lh_n := 0\<rparr>) ?h"
    by (simp add: c1 s1)
  obtain t where t: "write_head (t1\<lparr>lh_n := 0\<rparr>) = Ok () t" "wrote d p (t1\<lparr>lh_n := 0\<rparr>) t [(l_start s, put_head (s1\<lparr>lh_n := 0\<rparr>) ?h)] (refs d t1)"
    using write_head_spec[OF log_freeD(1,2)[OF f2] log_freeD(6)[OF f2 log_area_in(1)] log_freeD(3,4)[OF f2]] v c1(2) s1(1) by (simp, metis)
  have "recover_from_log s = Ok () t" using t0(1) t1(1) t(1) by (simp add: recover_from_log_def)
  then show thesis using that wrote_trans[OF wrote_set_n[OF w1, of 0] t(2)]
    unfolding recovery_writes_def Let_def wroteD(4)[OF w1] s1_def[symmetric] by blast
qed

section \<open>The header on the disk\<close>

lemma put_head_upto:
  fixes s :: "'z logst_scheme"
  assumes "length h = BSIZE" and "k \<le> LOGSIZE"
  defines "r \<equiv> fold (\<lambda>i d. put_bytes (4 + 4 * i) (bytes32 (lh_block s i)) d) [0..<k] (put_bytes 0 (bytes32 (lh_n s)) h)"
  shows "length r = BSIZE \<and> get32 0 r = lh_n s \<and> (\<forall>i < k. get32 (4 + 4 * i) r = lh_block s i)"
  unfolding r_def using assms(2)
proof (induction k)
  case 0
  then show ?case using assms(1) by simp
next
  case (Suc k)
  let ?r = "fold (\<lambda>i d. put_bytes (4 + 4 * i) (bytes32 (lh_block s i)) d) [0..<k] (put_bytes 0 (bytes32 (lh_n s)) h)"
  have ih: "length ?r = BSIZE" "get32 0 ?r = lh_n s" "\<forall>i < k. get32 (4 + 4 * i) ?r = lh_block s i" using Suc by simp_all
  let ?q = "put_bytes (4 + 4 * k) (bytes32 (lh_block s k)) ?r"
  have k: "4 + 4 * k + 4 \<le> length ?r" using Suc.prems ih(1) by simp
  have "length ?q = BSIZE" "get32 0 ?q = lh_n s" using ih(1,2) k by (simp_all add: get32_other)
  moreover have "get32 (4 + 4 * i) ?q = lh_block s i" if "i < Suc k" for i
    using that ih(3) k by (cases "i = k") (simp_all add: get32_other)
  ultimately show ?case by simp
qed

lemma put_head_get:
  assumes "length h = BSIZE" and "lh_len s \<le> LOGSIZE"
  shows "get32 0 (put_head s h) = lh_n s" "i < lh_len s \<Longrightarrow> get32 (4 + 4 * i) (put_head s h) = lh_block s i" "length (put_head s h) = BSIZE"
  using put_head_upto[OF assms, of s] by (simp_all add: put_head_def)

section \<open>A crash during a commit\<close>

text \<open>The machine after a boot: nothing is in use in the cache.\<close>

definition booted :: "u32 \<Rightarrow> nat \<Rightarrow> 'z logst_scheme \<Rightarrow> bool" where
  "booted d p s \<longleftrightarrow> cache_ok d p s \<and> l_dev s = d \<and> refs d s = (\<lambda>_. 0) \<and> lockd d s = (\<lambda>_. False)"

lemma bootedD:
  assumes "booted d p s"
  shows "cache_ok d p s" "l_dev s = d" "refs d s = (\<lambda>_. 0)" "lockd d s = (\<lambda>_. False)" "room d s" "view d s = bdisk s"
  using assms unref_clean[of d p s] by (auto simp: booted_def room_def)

lemma recover_empty:
  fixes b :: "'z logst_scheme"
  assumes "booted d p b" and "get32 0 (bdisk b (l_start b)) = 0"
  shows "\<exists>r. recover_from_log b = Ok () r \<and> (\<forall>n. n \<notin> log_area b \<longrightarrow> bdisk r n = bdisk b n)"
proof -
  note f = bootedD[OF assms(1)]
  have "log_free d p (with_head (view d b (l_start b)) b)" using f assms(2) by (simp add: log_free_def lh_fits_def homes_def)
  from recover_spec[OF this] obtain r where r: "recover_from_log b = Ok () r"
    "wrote d p ((with_head (view d b (l_start b)) b)\<lparr>lh_n := 0\<rparr>) r (recovery_writes d b) (refs d b)" by metis
  have "bdisk r n = bdisk b n" if "n \<notin> log_area b" for n
    using that log_area_in(1)[of b] assms(2) unfolding wroteD(6)[OF r(2)] by (auto simp: recovery_writes_def Let_def f(6))
  with r(1) show ?thesis by blast
qed

lemma recover_full:
  fixes s b :: "'z logst_scheme"
  assumes "booted d p b" and "l_start b = l_start s" "l_size b = l_size s" and "lh_fits s" and "set (homes s) \<inter> log_area s = {}"
    and "get32 0 (bdisk b (l_start s)) = lh_n s" "\<And>i. i < lh_len s \<Longrightarrow> get32 (4 + 4 * i) (bdisk b (l_start s)) = lh_block s i"
    and "\<And>i. i < lh_len s \<Longrightarrow> bdisk b (lblk s i) = view d' s (lh_block s i)"
  shows "\<exists>r. recover_from_log b = Ok () r \<and> (\<forall>n. n \<notin> log_area s \<longrightarrow> bdisk r n = (if n \<in> set (homes s) then view d' s n else bdisk b n))"
proof -
  note f = bootedD[OF assms(1)]
  let ?s1 = "with_head (view d b (l_start b)) b"
  have l: "lh_len ?s1 = lh_len s" using assms(2,6) by (simp add: f(6) lh_len_def)
  have h: "lh_block ?s1 i = lh_block s i" if "i < lh_len s" for i using assms(2,6,7) that by (simp add: f(6) lh_len_def)
  have hs: "homes ?s1 = homes s" unfolding homes_def l using h by simp
  have a: "log_area b = log_area s" by (simp add: log_area_def assms(2,3))
  have "log_free d p ?s1" unfolding log_free_def hs lh_fits_def l using f(1-5) assms(3,4,5) by (simp add: a lh_fits_def)
  from recover_spec[OF this] obtain r where r: "recover_from_log b = Ok () r" "wrote d p (?s1\<lparr>lh_n := 0\<rparr>) r (recovery_writes d b) (refs d b)" by metis
  have "map (\<lambda>i. (lh_block ?s1 i, view d b (lblk b i))) [0..<lh_len ?s1] = to_home d' s"
    unfolding l to_home_def by (rule map_cong[OF refl]) (use h assms(2,8) in \<open>simp add: f(6)\<close>)
  then have w: "recovery_writes d b = to_home d' s @ [(l_start s, put_head (?s1\<lparr>lh_n := 0\<rparr>) (view d b (l_start b)))]"
    unfolding recovery_writes_def Let_def using assms(2) by simp
  have "bdisk r n = (if n \<in> set (homes s) then view d' s n else bdisk b n)" if "n \<notin> log_area s" for n
    using that log_area_in(1)[of s] to_home_at to_home_other unfolding wroteD(6)[OF r(2)] w by auto
  with r(1) show ?thesis by blast
qed

text \<open>The disk when the first \<open>k\<close> writes of a commit have reached it.\<close>

definition crash_disk :: "u32 \<Rightarrow> 'z logst_scheme \<Rightarrow> nat \<Rightarrow> disk" where
  "crash_disk d s k = apply_writes (take k (commit_writes d s)) (bdisk s)"

lemma length_commit: "length (to_log d s) = lh_len s" "length (to_home d s) = lh_len s" "length (commit_writes d s) = 2 * lh_len s + 2"
  by (simp_all add: to_log_def to_home_def commit_writes_def Let_def)

lemma crash_early:
  assumes "k \<le> lh_len s" and "lh_fits s"
  shows "crash_disk d s k (l_start s) = bdisk s (l_start s)" "n \<notin> log_area s \<Longrightarrow> crash_disk d s k n = bdisk s n"
proof -
  have e: "crash_disk d s k = apply_writes (take k (to_log d s)) (bdisk s)"
    using assms(1) by (simp add: crash_disk_def commit_writes_def Let_def length_commit)
  have l: "x \<in> log_area s - {l_start s}" if "x \<in> fst ` set (take k (to_log d s))" for x
  proof -
    have "x \<in> fst ` set (to_log d s)" using that set_take_subset by fastforce
    then obtain i where "i < lh_len s" "x = lblk s i" by (auto simp: to_log_def)
    then show ?thesis using log_area_in(2)[of i s] lblk_start[of i s] assms(2) by (auto simp: lh_fits_def)
  qed
  show "crash_disk d s k (l_start s) = bdisk s (l_start s)" unfolding e using l by (intro apply_writes_other) auto
  show "n \<notin> log_area s \<Longrightarrow> crash_disk d s k n = bdisk s n" unfolding e using l by (intro apply_writes_other) auto
qed

lemma crash_late:
  assumes "lh_len s < k" and "k \<le> 2 * lh_len s + 1" and "lh_fits s" and "set (homes s) \<inter> log_area s = {}"
  shows "crash_disk d s k (l_start s) = put_head s (view d s (l_start s))"
    and "i < lh_len s \<Longrightarrow> crash_disk d s k (lblk s i) = view d s (lh_block s i)"
    and "n \<notin> log_area s \<Longrightarrow> n \<notin> set (homes s) \<Longrightarrow> crash_disk d s k n = bdisk s n"
proof -
  let ?H = "put_head s (view d s (l_start s))" and ?j = "k - lh_len s - 1"
  have "take k (commit_writes d s) = to_log d s @ [(l_start s, ?H)] @ take ?j (to_home d s)"
    using assms(1,2) by (simp add: commit_writes_def Let_def length_commit take_Cons' )
  then have e: "crash_disk d s k = apply_writes (take ?j (to_home d s)) ((apply_writes (to_log d s) (bdisk s))(l_start s := ?H))" by (simp add: crash_disk_def)
  have o: "crash_disk d s k x = ((apply_writes (to_log d s) (bdisk s))(l_start s := ?H)) x" if "x \<notin> set (homes s)" for x
  proof -
    have "x \<notin> fst ` set (take ?j (to_home d s))" using that set_take_subset[of ?j "to_home d s"] by (fastforce simp: to_home_def homes_def)
    then show ?thesis unfolding e by (rule apply_writes_other)
  qed
  have ls: "l_start s \<notin> set (homes s)" using assms(4) log_area_in(1)[of s] by auto
  show "crash_disk d s k (l_start s) = ?H" using o[OF ls] by simp
  show "crash_disk d s k (lblk s i) = view d s (lh_block s i)" if "i < lh_len s"
    using o[of "lblk s i"] to_log_at[OF that assms(3)] log_area_in(2)[of i s] lblk_start[of i s] assms(3,4) that by (auto simp: lh_fits_def)
  show "crash_disk d s k n = bdisk s n" if "n \<notin> log_area s" "n \<notin> set (homes s)"
    using o[OF that(2)] to_log_other[OF that(1) assms(3)] that(1) log_area_in(1)[of s] by auto
qed

lemma crash_done:
  assumes "lh_fits s" and "set (homes s) \<inter> log_area s = {}" and "2 * lh_len s + 2 \<le> k"
  shows "crash_disk d s k (l_start s) = put_head (s\<lparr>lh_n := 0\<rparr>) (put_head s (view d s (l_start s)))"
    and "n \<notin> log_area s \<Longrightarrow> crash_disk d s k n = (if n \<in> set (homes s) then view d s n else bdisk s n)"
proof -
  let ?H = "put_head s (view d s (l_start s))"
  have e: "crash_disk d s k = (apply_writes (to_home d s) ((apply_writes (to_log d s) (bdisk s))(l_start s := ?H)))(l_start s := put_head (s\<lparr>lh_n := 0\<rparr>) ?H)"
    using assms(3) by (simp add: crash_disk_def length_commit) (simp add: commit_writes_def Let_def)
  show "crash_disk d s k (l_start s) = put_head (s\<lparr>lh_n := 0\<rparr>) ?H" by (simp add: e)
  show "crash_disk d s k n = (if n \<in> set (homes s) then view d s n else bdisk s n)" if "n \<notin> log_area s"
    using that log_area_in(1)[of s] to_home_at[of n s d] to_home_other[of n s d] to_log_other[OF that assms(1)] unfolding e by auto
qed

lemma recover_after_crash:
  fixes s b :: "'z logst_scheme"
  assumes "commit_ready d p s" and "view d s (l_start s) = bdisk s (l_start s)"
    and "length (bdisk s (l_start s)) = BSIZE" and "get32 0 (bdisk s (l_start s)) = 0"
    and "booted d q b" and "l_start b = l_start s" "l_size b = l_size s" and "bdisk b = crash_disk d s k"
  shows "\<exists>r. recover_from_log b = Ok () r
    \<and> (\<forall>n. n \<notin> log_area s \<longrightarrow> bdisk r n = (if lh_len s < k \<and> n \<in> set (homes s) then view d s n else bdisk s n))"
proof -
  have f: "lh_fits s" "set (homes s) \<inter> log_area s = {}" using assms(1) by (auto simp: commit_ready_def log_free_def)
  have a: "log_area b = log_area s" by (simp add: log_area_def assms(6,7))
  have H: "get32 0 (put_head s (view d s (l_start s))) = lh_n s"
    "\<And>i. i < lh_len s \<Longrightarrow> get32 (4 + 4 * i) (put_head s (view d s (l_start s))) = lh_block s i"
    "length (put_head s (view d s (l_start s))) = BSIZE" using put_head_get[of "view d s (l_start s)" s] assms(2,3) f(1) by (simp_all add: lh_fits_def)
  consider "k \<le> lh_len s" | "lh_len s < k" "k \<le> 2 * lh_len s + 1" | "2 * lh_len s + 2 \<le> k" by linarith
  then show ?thesis
  proof cases
    case 1
    note e = crash_early[OF 1 f(1), where d = d]
    show ?thesis using recover_empty[OF assms(5)] 1 assms(4) e by (simp add: assms(6,8) a)
  next
    case 2
    note l = crash_late[OF 2 f, where d = d]
    have "\<exists>r. recover_from_log b = Ok () r \<and> (\<forall>n. n \<notin> log_area s \<longrightarrow> bdisk r n = (if n \<in> set (homes s) then view d s n else bdisk b n))"
      by (rule recover_full[OF assms(5-7) f]) (simp_all add: assms(8) l(1,2) H)
    then show ?thesis using 2(1) l(3) by (metis assms(8))
  next
    case 3
    note e = crash_done[OF f 3, where d = d]
    have "get32 0 (bdisk b (l_start b)) = 0"
      using put_head_get(1)[OF H(3), of "s\<lparr>lh_n := 0\<rparr>"] e(1) by (simp add: assms(6,8) lh_len_def)
    then show ?thesis using recover_empty[OF assms(5)] 3 e(2) by (simp add: assms(8) a)
  qed
qed

section \<open>The cache after boot, and an example\<close>

lemma upd_buf_frame: "t = s\<lparr>bufs := bufs t\<rparr> \<Longrightarrow> upd_buf b f t = s\<lparr>bufs := bufs (upd_buf b f t)\<rparr>"
proof -
  assume t: "t = s\<lparr>bufs := bufs t\<rparr>"
  show ?thesis unfolding upd_buf_def by (subst t, subst (2) t) simp
qed

lemma binit_frame: "binit s = s\<lparr>bufs := bufs (binit s)\<rparr>"
proof -
  let ?f = "\<lambda>b s. upd_buf_lock b (\<lambda>_. initsleeplock ''buffer'') (link_head b s)"
  have "fold ?f bs t = s\<lparr>bufs := bufs (fold ?f bs t)\<rparr>" if "t = s\<lparr>bufs := bufs t\<rparr>" for bs t
    using that
  proof (induction bs arbitrary: t)
    case (Cons b bs)
    have "?f b t = s\<lparr>bufs := bufs (?f b t)\<rparr>" unfolding upd_buf_lock_def link_head_def Let_def by (intro upd_buf_frame Cons.prems)
    from Cons.IH[OF this] show ?case by simp
  qed simp
  moreover have "upd_buf bhead f s = s\<lparr>bufs := bufs (upd_buf bhead f s)\<rparr>" for f by (rule upd_buf_frame) simp
  ultimately show ?thesis unfolding binit_def by blast
qed

lemma binit_cache:
  assumes "d \<noteq> 0" and "\<And>b. b < NBUF \<Longrightarrow> b_dev (bufs s b) = 0 \<and> b_refcnt (bufs s b) = 0"
  shows "bufs_inv d (bufs (binit s)) D" "slot_of d (bufs (binit s)) n = None"
proof -
  have c: "b_dev (bufs (binit s) b) = 0" "b_refcnt (bufs (binit s) b) = 0" if "b < NBUF" for b
    using assms(2)[OF that] core'_eqD(3,5)[OF binit_ring(2)[of s b]] by auto
  show "slot_of d (bufs (binit s)) n = None" using c(1) assms(1) by (auto simp: slot_of_None)
  show "bufs_inv d (bufs (binit s)) D" by (rule bufs_invI[OF assms(1) binit_ring(1)]) (use c assms(1) binit_ring(3)[of _ s] in \<open>auto simp: initsleeplock_def\<close>)
qed

definition demo_log :: "disk \<Rightarrow> logst" where
  "demo_log D = binit (vdisk.extend (demo_vdisk\<lparr>bufs := (\<lambda>_. demo_buf\<lparr>b_dev := 0, b_refcnt := 0, b_valid := 0\<rparr>), bdisk := D,
       cpus := (\<lambda>_. (cpus demo_vdisk 0)\<lparr>cpu_proc := Some 0\<rparr>)\<rparr>)
     \<lparr>l_start = 2, l_size = 30, l_outstanding = 0, l_committing = 0, l_dev = 1, lh_n = 0, lh_block = (\<lambda>_. 0)\<rparr>)"

text \<open>One block, 50, is in the log: new in the buffer 0, pinned.\<close>

definition demo_tx :: logst where
  "demo_tx = (upd_buf 0 (\<lambda>x. x\<lparr>b_dev := 1, b_blockno := 50, b_refcnt := 1, b_valid := 1, b_data := replicate BSIZE 7\<rparr>) (demo_log (\<lambda>_. replicate BSIZE 0)))
     \<lparr>lh_n := 1, lh_block := (\<lambda>_. 50)\<rparr>"

lemma demo_log_cache:
  "bufs_inv 1 (bufs (demo_log D)) E" "slot_of 1 (bufs (demo_log D)) n = None" "bdisk (demo_log D) = D" "l_start (demo_log D) = 2"
  "l_dev (demo_log D) = 1" "myproc (demo_log D) = Some 0" "l_size (demo_log D) = 30"
proof -
  let ?s = "vdisk.extend (demo_vdisk\<lparr>bufs := (\<lambda>_. demo_buf\<lparr>b_dev := 0, b_refcnt := 0, b_valid := 0\<rparr>), bdisk := D,
       cpus := (\<lambda>_. (cpus demo_vdisk 0)\<lparr>cpu_proc := Some 0\<rparr>)\<rparr>)
     \<lparr>l_start = 2, l_size = 30, l_outstanding = 0, l_committing = 0, l_dev = 1, lh_n = 0, lh_block = (\<lambda>_. 0)\<rparr>"
  have "b_dev (bufs ?s b) = 0 \<and> b_refcnt (bufs ?s b) = 0" for b by (simp add: vdisk.defs demo_buf_def)
  then show "bufs_inv 1 (bufs (demo_log D)) E" "slot_of 1 (bufs (demo_log D)) n = None"
    unfolding demo_log_def by (intro binit_cache; simp)+
  show "bdisk (demo_log D) = D" "l_start (demo_log D) = 2" "l_dev (demo_log D) = 1" "myproc (demo_log D) = Some 0" "l_size (demo_log D) = 30"
    unfolding demo_log_def by (subst binit_frame, simp add: vdisk.defs myproc_def mycpu_def cpuid_def)+
qed

lemma demo_log_booted: "booted 1 0 (demo_log D)"
  using demo_log_cache[of D] by (simp add: booted_def cache_ok_def refs_def lockd_def fun_eq_iff)

lemma fifty_free: "i \<le> LOGSIZE \<Longrightarrow> (50 :: u32) \<noteq> 2 + of_nat i"
proof
  assume i: "i \<le> LOGSIZE" and "(50 :: u32) = 2 + of_nat i"
  then have "(of_nat i :: u32) = 48" by (simp add: algebra_simps)
  then show False using unat_small[OF i] i by simp
qed

lemma demo_tx_ready: "commit_ready 1 0 demo_tx" "view 1 demo_tx 2 = replicate BSIZE 0" "view 1 demo_tx 50 = replicate BSIZE 7"
  "bdisk demo_tx = (\<lambda>_. replicate BSIZE 0)" "l_start demo_tx = 2" "homes demo_tx = [50]" "lh_len demo_tx = 1" "l_size demo_tx = 30"
proof -
  let ?s = "demo_log (\<lambda>_. replicate BSIZE 0)"
  let ?x = "(bufs ?s 0)\<lparr>b_dev := 1, b_blockno := 50, b_refcnt := 1, b_valid := 1, b_data := replicate BSIZE 7\<rparr>"
  have b: "bufs demo_tx = (bufs ?s)(0 := ?x)" by (simp add: demo_tx_def upd_buf_def)
  have b0: "bufs demo_tx 0 = ?x" by (simp add: b)
  note i = demo_log_cache(1)[of "\<lambda>_. replicate BSIZE 0" "\<lambda>_. replicate BSIZE 0"] and n = demo_log_cache(2)[of "\<lambda>_. replicate BSIZE 0"]
  have sl: "slot_of 1 (bufs demo_tx) k = (if k = 50 then Some 0 else None)" for k
    unfolding b using recycle_slot_of[OF i n, of 0 ?x 50 k] n by simp
  have inv: "bufs_inv 1 (bufs demo_tx) (\<lambda>_. replicate BSIZE 0)" unfolding b using recycle_inv[OF i n, of 0 ?x 50] by simp
  show d: "bdisk demo_tx = (\<lambda>_. replicate BSIZE 0)" "l_start demo_tx = 2" "l_size demo_tx = 30" by (simp_all add: demo_tx_def upd_buf_def demo_log_cache)
  show v: "view 1 demo_tx 2 = replicate BSIZE 0" "view 1 demo_tx 50 = replicate BSIZE 7" by (simp_all add: view_def sl d b0)
  show h: "homes demo_tx = [50]" "lh_len demo_tx = 1" by (simp_all add: homes_def lh_len_def demo_tx_def)
  have "b_refcnt (bufs ?s 0) = 0" using bufs_invD(5)[OF i, of 0] n[of "b_blockno (bufs ?s 0)"] unfolding slot_of_None by fastforce
  then have lk: "sl_locked (b_lock ?x) = 0" using bufs_invD(6)[OF i, of 0] by simp
  have r: "refs 1 demo_tx k = (if k = 50 then 1 else 0)" "\<not> lockd 1 demo_tx k" for k using lk by (simp_all add: refs_def lockd_def sl b0)
  have "{m. refs 1 demo_tx m \<noteq> 0} = {50}" by (auto simp: r)
  then have "room 1 demo_tx" by (simp add: room_def r)
  moreover have "50 \<notin> log_area demo_tx" using fifty_free by (auto simp: log_area_def d)
  moreover have "cache_ok 1 0 demo_tx" using inv d(1) demo_log_cache(6) by (simp add: cache_ok_def) (simp add: demo_tx_def upd_buf_def myproc_def mycpu_def cpuid_def)
  moreover have "l_dev demo_tx = 1" by (simp add: demo_tx_def upd_buf_def demo_log_cache)
  ultimately show "commit_ready 1 0 demo_tx" by (simp add: commit_ready_def log_free_def lh_fits_def h r d)
qed

text \<open>C1: a crash during a commit loses nothing and leaves nothing half done. Let a transaction be ready to commit: the blocks of the log are pinned in the cache, distinct and outside the log area, and the header on the disk is empty. Then \<^verbatim>\<open>commit\<close> returns; if the machine stops after any number k of its block writes and boots again, \<^verbatim>\<open>recover_from_log\<close> returns, and outside the log area the disk is as before the transaction (k is at most the number of blocks), or has all of its blocks new and nothing else changed.\<close>

theorem commit_crash_safe:
  fixes s b :: "'z logst_scheme"
  assumes "commit_ready d p s" and "0 < sint (lh_n s)" and "view d s (l_start s) = bdisk s (l_start s)"
    and "length (bdisk s (l_start s)) = BSIZE" and "get32 0 (bdisk s (l_start s)) = 0"
    and "booted d q b" and "l_start b = l_start s" "l_size b = l_size s" and "bdisk b = apply_writes (take k (commit_writes d s)) (bdisk s)"
  shows "(\<exists>t. commit s = Ok () t \<and> dwrites t = dwrites s @ commit_writes d s \<and> bdisk t = apply_writes (commit_writes d s) (bdisk s))
    \<and> (\<exists>r. recover_from_log b = Ok () r
         \<and> (\<forall>n. n \<notin> log_area s \<longrightarrow> bdisk r n = (if lh_len s < k \<and> n \<in> set (homes s) then view d s n else bdisk s n)))"
proof
  obtain t where "commit s = Ok () t" "wrote d p (s\<lparr>lh_n := 0\<rparr>) t (commit_writes d s) (unpinned False (set (homes s)) (refs d s))"
    using commit_spec[OF assms(1,2)] .
  then show "\<exists>t. commit s = Ok () t \<and> dwrites t = dwrites s @ commit_writes d s \<and> bdisk t = apply_writes (commit_writes d s) (bdisk s)"
    using wroteD(6,7) by fastforce
  show "\<exists>r. recover_from_log b = Ok () r
         \<and> (\<forall>n. n \<notin> log_area s \<longrightarrow> bdisk r n = (if lh_len s < k \<and> n \<in> set (homes s) then view d s n else bdisk s n))"
    by (rule recover_after_crash[OF assms(1,3-8)]) (simp add: assms(9) crash_disk_def)
qed

theorem commit_crash_safe_witness:
  "(\<exists>t. commit demo_tx = Ok () t \<and> bdisk t 50 = replicate BSIZE 7)
   \<and> (\<exists>r. recover_from_log (demo_log (apply_writes (take 1 (commit_writes 1 demo_tx)) (bdisk demo_tx))) = Ok () r \<and> bdisk r 50 = replicate BSIZE 0)
   \<and> (\<exists>r. recover_from_log (demo_log (apply_writes (take 2 (commit_writes 1 demo_tx)) (bdisk demo_tx))) = Ok () r \<and> bdisk r 50 = replicate BSIZE 7)"
proof -
  let ?z = "replicate BSIZE 0 :: u8 list" and ?D = "\<lambda>k. apply_writes (take k (commit_writes 1 demo_tx)) (bdisk demo_tx)"
  note r = demo_tx_ready
  have n: "0 < sint (lh_n demo_tx)" by (simp add: demo_tx_def)
  have h: "get32 0 ?z = 0" by code_simp
  have a: "50 \<notin> log_area demo_tx" using r(1) by (simp add: commit_ready_def log_free_def r(6))
  have c: "(\<exists>t. commit demo_tx = Ok () t \<and> dwrites t = dwrites demo_tx @ commit_writes 1 demo_tx \<and> bdisk t = apply_writes (commit_writes 1 demo_tx) (bdisk demo_tx))
    \<and> (\<exists>x. recover_from_log (demo_log (?D k)) = Ok () x
         \<and> (\<forall>n. n \<notin> log_area demo_tx \<longrightarrow> bdisk x n = (if lh_len demo_tx < k \<and> n \<in> set (homes demo_tx) then view 1 demo_tx n else bdisk demo_tx n)))" for k
    by (rule commit_crash_safe[OF r(1) n _ _ _ demo_log_booted]) (simp_all add: r h demo_log_cache)
  obtain t where t: "commit demo_tx = Ok () t" "bdisk t = apply_writes (commit_writes 1 demo_tx) (bdisk demo_tx)" using c by blast
  have "bdisk t 50 = replicate BSIZE 7"
    using crash_done(2)[of demo_tx 4 50 1] r(1) a by (simp add: t(2) r crash_disk_def length_commit commit_ready_def log_free_def lh_fits_def)
  moreover have "\<exists>x. recover_from_log (demo_log (?D 1)) = Ok () x \<and> bdisk x 50 = ?z" using c[of 1] a by (auto simp: r)
  moreover have "\<exists>x. recover_from_log (demo_log (?D 2)) = Ok () x \<and> bdisk x 50 = replicate BSIZE 7" using c[of 2] a by (auto simp: r)
  ultimately show ?thesis using t(1) by blast
qed

end
