(* ===== verification/Log_ops.thy ===== *)
theory Log_ops
  imports Log_spec
begin

text \<open>
  Many system calls share the log. \<^verbatim>\<open>begin_op\<close> lets one in only if MAXOPBLOCKS blocks can be set aside for it, \<^verbatim>\<open>log_write\<close> records a block
  once, and the last \<^verbatim>\<open>end_op\<close> commits and empties the log. Here their interleavings are a step relation, and the blocks set
  aside are enough for all of them.
\<close>

lemma demo_log_n: "lh_n (demo_log D) = 0" "l_outstanding (demo_log D) = 0" "l_committing (demo_log D) = 0"
  unfolding demo_log_def by (subst binit_frame, simp add: vdisk.defs)+

section \<open>What \<^verbatim>\<open>log_write\<close> records\<close>

definition log_inv :: "u32 \<Rightarrow> 'z logst_scheme \<Rightarrow> bool" where
  "log_inv d s \<longleftrightarrow> 0 \<le> sint (lh_n s) \<and> lh_fits s \<and> distinct (homes s) \<and> set (homes s) \<inter> log_area s = {} \<and> (\<forall>n \<in> set (homes s). refs d s n \<noteq> 0)"

lemma lh_n_len: "0 \<le> sint (lh_n s) \<Longrightarrow> lh_n s = of_nat (lh_len s)"
  by (simp add: lh_len_def)

lemma sint_small: "n \<le> LOGSIZE \<Longrightarrow> sint (of_nat n :: u32) = int n"
  by (simp add: signed_of_nat signed_take_bit_int_eq_self)

lemma unat_of_sint: "0 \<le> sint w \<Longrightarrow> unat w = nat (sint w)" for w :: u32
  using uint_nonneg_cint[of w] by (simp add: unat_eq_nat_uint)

lemma sint_nat_eq: "sint w = int n \<Longrightarrow> w = of_nat n" for w :: u32
proof -
  assume "sint w = int n"
  then have "(of_int (sint w) :: u32) = of_nat n" by simp
  then show ?thesis by simp
qed

lemma sint_Suc: "sint w = int n \<Longrightarrow> n < LOGSIZE \<Longrightarrow> sint (w + 1) = int (Suc n)" for w :: u32
  using sint_inc[of w] by simp

text \<open>The search of \<^verbatim>\<open>log_write\<close>: the place of the block in the log, or the place behind the last one.\<close>

definition log_slot :: "u32 \<Rightarrow> 'z logst_scheme \<Rightarrow> nat" where
  "log_slot n s = (case first_index (\<lambda>i. lh_block s i = n) (lh_len s) of Some i \<Rightarrow> i | None \<Rightarrow> lh_len s)"

lemma homes_iff: "n \<in> set (homes s) \<longleftrightarrow> (\<exists>i < lh_len s. lh_block s i = n)"
  by (auto simp: homes_def)

lemma log_slot_in: "n \<in> set (homes s) \<Longrightarrow> log_slot n s < lh_len s \<and> lh_block s (log_slot n s) = n"
proof (cases "first_index (\<lambda>i. lh_block s i = n) (lh_len s)")
  case (Some i)
  then show ?thesis using first_index_Some[OF Some] by (simp add: log_slot_def)
qed (auto simp: first_index_None homes_iff)

lemma log_slot_new: "n \<notin> set (homes s) \<Longrightarrow> log_slot n s = lh_len s"
  using first_index_None[of "\<lambda>i. lh_block s i = n" "lh_len s"] by (auto simp: log_slot_def homes_iff)

text \<open>\<^verbatim>\<open>log_write\<close> on its two branches.\<close>

lemma log_write_eq:
  assumes "0 \<le> sint (lh_n s)" and "lh_len s < LOGSIZE" and "int (lh_len s) < sint (l_size s - 1)" and "1 \<le> sint (l_outstanding s)"
  shows "b_blockno (bufs s b) \<in> set (homes s) \<Longrightarrow> log_write b s = Ok () s"
    and "b_blockno (bufs s b) \<notin> set (homes s) \<Longrightarrow> log_write b s
      = Ok () ((bpin b s)\<lparr>lh_block := (lh_block s)(lh_len s := b_blockno (bufs s b)), lh_n := lh_n s + 1\<rparr>)"
proof -
  have g: "\<not> (sint (lh_n s) \<ge> int LOGSIZE \<or> sint (lh_n s) \<ge> sint (l_size s - 1))" "\<not> sint (l_outstanding s) < 1"
    using assms by (auto simp: lh_len_def)
  have e: "(of_nat i = lh_n s) = (i = lh_len s)" if "i \<le> lh_len s" for i
    using lh_n_len[OF assms(1)] of_nat_u32_inj[of i "lh_len s"] assms(2) that by auto
  let ?n = "b_blockno (bufs s b)"
  have l: "log_write b s = (if of_nat (log_slot ?n s) = lh_n s
      then Ok () ((bpin b (s\<lparr>lh_block := (lh_block s)(log_slot ?n s := ?n)\<rparr>))\<lparr>lh_n := lh_n s + 1\<rparr>)
      else Ok () (s\<lparr>lh_block := (lh_block s)(log_slot ?n s := ?n)\<rparr>))"
    using g unfolding log_write_def log_slot_def[symmetric] Let_def by (simp add: bpin_def upd_buf_def)
  show "log_write b s = Ok () s" if "?n \<in> set (homes s)"
    using log_slot_in[OF that] e[of "log_slot ?n s"] unfolding l by (simp add: fun_upd_idem)
  show "log_write b s = Ok () ((bpin b s)\<lparr>lh_block := (lh_block s)(lh_len s := ?n), lh_n := lh_n s + 1\<rparr>)" if "?n \<notin> set (homes s)"
    using log_slot_new[OF that] e[of "lh_len s"] unfolding l by (simp add: bpin_def upd_buf_def)
qed

lemma homes_snoc:
  assumes "lh_n t = lh_n s + 1" and "lh_block t = (lh_block s)(lh_len s := n)" and "0 \<le> sint (lh_n s)" and "lh_len s < LOGSIZE"
  shows "lh_len t = Suc (lh_len s)" "homes t = homes s @ [n]" "0 \<le> sint (lh_n t)"
proof -
  have "sint (lh_n t) = int (Suc (lh_len s))" using sint_Suc[of "lh_n s" "lh_len s"] assms by (simp add: lh_len_def)
  then show "lh_len t = Suc (lh_len s)" "0 \<le> sint (lh_n t)" by (auto simp: lh_len_def)
  then show "homes t = homes s @ [n]" by (simp add: homes_def assms(2))
qed

lemma log_write_spec:
  fixes s :: "'z logst_scheme"
  assumes "log_inv d s" and "cache_ok d p s" and "own d p s b n" and "n \<notin> log_area s" and "lh_len s < LOGSIZE"
    and "int (lh_len s) < sint (l_size s - 1)" and "1 \<le> sint (l_outstanding s)" and "refs d s n + 1 < 2 ^ 32"
  shows "\<exists>t. log_write b s = Ok () t \<and> homes t = (if n \<in> set (homes s) then homes s else homes s @ [n]) \<and> log_inv d t
    \<and> refs d t = (if n \<in> set (homes s) then refs d s else (refs d s)(n := refs d s n + 1))
    \<and> cache_ok d p t \<and> own d p t b n \<and> view d t = view d s \<and> bdisk t = bdisk s \<and> dwrites t = dwrites s"
proof -
  have n: "b_blockno (bufs s b) = n" by (rule ownD(3)[OF assms(2,3)])
  have p: "0 \<le> sint (lh_n s)" using assms(1) by (simp add: log_inv_def)
  note eq = log_write_eq[OF p assms(5-7), of b, unfolded n]
  show ?thesis
  proof (cases "n \<in> set (homes s)")
    case True
    then show ?thesis using eq(1) assms(1-3) by auto
  next
    case False
    let ?t = "(bpin b s)\<lparr>lh_block := (lh_block s)(lh_len s := n), lh_n := lh_n s + 1\<rparr>"
    note a = afterD[OF bpin_spec(1)[OF assms(2,3,8)]] and h = homes_snoc[of ?t s n, OF _ _ p assms(5), simplified]
    have "Suc (lh_len s) \<le> unat (l_size s - 1)" using assms(6) unat_of_sint[of "l_size s - 1"] by simp
    then have "lh_fits ?t" using h(1) assms(5) by (simp add: lh_fits_def bpin_def upd_buf_def)
    moreover have "log_area ?t = log_area s" by (simp add: log_area_def bpin_def upd_buf_def)
    moreover have "refs d ?t = (refs d s)(n := refs d s n + 1)" using a(4) by simp
    ultimately have "log_inv d ?t" using assms(1,4) False h(2,3) by (auto simp: log_inv_def)
    moreover have "own d p ?t b n" using bpin_spec(2)[OF assms(2,3,8) assms(3)] by (simp add: own_def)
    ultimately show ?thesis using eq(2)[OF False] h(2) a False by auto
  qed
qed

text \<open>C27: \<^verbatim>\<open>log_write\<close> records a block once and pins it. On a block the caller holds, outside the log area, with room in the log and inside a transaction, \<^verbatim>\<open>log_write\<close> returns; the block is in the log exactly once, in its old place if it was there. A block new to the log is pinned: its buffer has one more reference, beside the caller's own, and so stays in the cache after the caller's \<^verbatim>\<open>brelse\<close>; for a block already there no reference count changes. The blocks in the log stay distinct, outside the log area and in the cache; what the cache and the disk hold is unchanged.\<close>

theorem log_write_records:
  fixes s :: "'z logst_scheme"
  assumes "log_inv d s" and "cache_ok d p s" and "own d p s b n" and "n \<notin> log_area s" and "lh_len s < LOGSIZE"
    and "int (lh_len s) < sint (l_size s - 1)" and "1 \<le> sint (l_outstanding s)" and "refs d s n + 1 < 2 ^ 32"
  shows "\<exists>t. log_write b s = Ok () t \<and> homes t = (if n \<in> set (homes s) then homes s else homes s @ [n]) \<and> log_inv d t
    \<and> refs d t = (if n \<in> set (homes s) then refs d s else (refs d s)(n := refs d s n + 1))
    \<and> cache_ok d p t \<and> own d p t b n \<and> view d t = view d s \<and> bdisk t = bdisk s \<and> dwrites t = dwrites s"
  by (rule log_write_spec[OF assms])

theorem log_write_records_witness:
  "\<exists>b u t. bread 1 50 ((demo_log (\<lambda>_. []))\<lparr>l_outstanding := 1\<rparr>) = Ok b u \<and> log_write b u = Ok () t \<and> homes t = [50] \<and> refs 1 t 50 = 2 \<and> log_inv 1 t"
proof -
  let ?s = "(demo_log (\<lambda>_. []))\<lparr>l_outstanding := 1\<rparr>"
  have b: "booted 1 0 ?s" using demo_log_cache[of "\<lambda>_. []"] by (simp add: booted_def cache_ok_def refs_def lockd_def fun_eq_iff) (simp add: myproc_def mycpu_def cpuid_def)
  note f = bootedD[OF b]
  obtain x u where u: "bread 1 50 ?s = Ok x u" "own 1 0 u x 50" "after 1 0 ?s u (view 1 ?s) ((refs 1 ?s)(50 := refs 1 ?s 50 + 1)) ((lockd 1 ?s)(50 := True)) (bdisk ?s) (dwrites ?s)"
    using bread_spec[OF f(1), of 50] f(3,4) by (simp, metis)
  note a = afterD[OF u(3)] and c = cmoves_log[OF afterD(2)[OF u(3)]]
  have z: "lh_n u = 0" "lh_len u = 0" "homes u = []" "l_size u = 30" "l_outstanding u = 1" "l_start u = 2"
    using c demo_log_cache by (simp_all add: lh_len_def homes_def demo_log_n)
  have i: "log_inv 1 u" by (simp add: log_inv_def lh_fits_def z)
  have "50 \<notin> log_area u" using fifty_free by (auto simp: log_area_def z)
  from log_write_records[OF i a(1) u(2) this] show ?thesis using u(1) by (auto simp: z a(4) f(3))
qed

section \<open>Whatever the cache does, the log in memory stays\<close>

lemma cmoves_refl: "cmoves s s"
  using cmoves_bufs[of s "bufs s"] by simp

lemma cmoves_upd_buf: "cmoves s t \<Longrightarrow> cmoves s (upd_buf b f t)"
  unfolding upd_buf_def by (erule cmoves_trans) (rule cmoves_bufs)

lemma acquire_moves:
  assumes "acquiresleep ch (buf_lock b) (upd_buf_lock b) s = Ok u t"
  shows "cmoves s t"
  using assms by (auto simp: acquiresleep_def with_proc_def upd_buf_lock_def sleep_def split: option.splits if_splits intro: cmoves_upd_buf cmoves_refl)

lemma bget_moves:
  assumes "bget d n s = Ok b t"
  shows "cmoves s t"
proof -
  from assms obtain b' f where "bnd (acquiresleep (Ch_buflock b') (buf_lock b') (upd_buf_lock b') (upd_buf b' f s)) (\<lambda>_ s. Ok b' s) = Ok b t"
    unfolding bget_def Let_def by (auto split: option.splits)
  then show ?thesis using cmoves_trans[OF cmoves_upd_buf[OF cmoves_refl] acquire_moves] by (auto simp: bnd_Ok_iff)
qed

lemma bread_moves:
  assumes "bread d n s = Ok b t"
  shows "cmoves s t"
  using assms bget_moves[of d n s]
  by (auto simp: bread_def bnd_Ok_iff virtio_disk_rw_def Let_def split: if_splits intro: cmoves_upd_buf)

lemma bwrite_moves:
  assumes "bwrite b s = Ok u t"
  shows "cmoves s t"
  using assms cmoves_disk[of s] by (auto simp: bwrite_def holdingsleep_def with_proc_def bnd_Ok_iff virtio_disk_rw_def Let_def split: option.splits if_splits)

lemma brelse_moves:
  assumes "brelse b s = Ok u t"
  shows "cmoves s t"
proof -
  let ?u = "upd_buf b (\<lambda>x. x\<lparr>b_refcnt := b_refcnt x - 1\<rparr>) (releasesleep (Ch_buflock b) (upd_buf_lock b) s)"
  have u: "cmoves s ?u" unfolding releasesleep_def upd_buf_lock_def by (rule cmoves_upd_buf, rule cmoves_trans[OF cmoves_upd_buf wakeup_cmoves], rule cmoves_refl)
  have l: "cmoves s (link_head b (unlink b ?u))" using cmoves_trans[OF u cmoves_bufs] by (subst link_moves)
  show ?thesis using assms u l by (auto simp: brelse_def holdingsleep_def with_proc_def bnd_Ok_iff Let_def split: option.splits if_splits)
qed

lemmas op_moves = bread_moves bwrite_moves brelse_moves

lemma cmoves_upd_src: "cmoves (upd_buf b f s) t \<Longrightarrow> cmoves s t"
  by (rule cmoves_trans[OF cmoves_upd_buf[OF cmoves_refl]])

lemma write_log_one_moves: "write_log_one i s = Ok u t \<Longrightarrow> cmoves s t"
  unfolding write_log_one_def Let_def by (auto simp: bnd_Ok_iff dest!: op_moves cmoves_upd_src elim!: cmoves_trans)

lemma install_one_moves: "install_one r i s = Ok u t \<Longrightarrow> cmoves s t"
  unfolding install_one_def Let_def bunpin_def
  by (auto simp: bnd_Ok_iff dest!: op_moves cmoves_upd_src elim!: cmoves_trans split: if_splits)

lemma write_head_moves: "write_head s = Ok u t \<Longrightarrow> cmoves s t"
  unfolding write_head_def Let_def by (auto simp: bnd_Ok_iff dest!: op_moves cmoves_upd_src elim!: cmoves_trans split: if_splits)

lemma loop_moves: "loop f is s = Ok u t \<Longrightarrow> (\<And>i s u t. f i s = Ok u t \<Longrightarrow> cmoves s t) \<Longrightarrow> cmoves s t"
  by (erule loop_inv[where P = "cmoves s"]) (auto intro: cmoves_refl elim: cmoves_trans)

lemma commit_fields:
  fixes s :: "'z logst_scheme"
  assumes "commit s = Ok u t" and "0 \<le> sint (lh_n s)"
  shows "lh_n t = 0" "l_size t = l_size s" "l_outstanding t = l_outstanding s" "l_committing t = l_committing s"
proof -
  have "\<exists>s'. cmoves (s'\<lparr>lh_n := 0\<rparr>) t \<and> cmoves s s'" 
  proof (cases "sint (lh_n s) = 0")
    case True
    then have "lh_n s = 0" using sint_nat_eq[of "lh_n s" 0] by simp
    then have "t = s\<lparr>lh_n := 0\<rparr>" using assms(1) True by (simp add: commit_def)
    then show ?thesis using cmoves_refl by blast
  next
    case False
    then obtain s1 s2 s3 where "write_log s = Ok () s1" "write_head s1 = Ok () s2" "install_trans False s2 = Ok () s3" "write_head (s3\<lparr>lh_n := 0\<rparr>) = Ok u t"
      using assms by (auto simp: commit_def bnd_Ok_iff)
    then have "cmoves s s1" "cmoves s1 s2" "cmoves s2 s3" "cmoves (s3\<lparr>lh_n := 0\<rparr>) t"
      using loop_moves[OF _ write_log_one_moves] write_head_moves loop_moves[OF _ install_one_moves]
      by (auto simp: write_log_def install_trans_def split: if_splits)
    then show ?thesis using cmoves_trans by blast
  qed
  then obtain s' where c: "cmoves (s'\<lparr>lh_n := 0\<rparr>) t" "cmoves s s'" by blast
  then show "lh_n t = 0" "l_size t = l_size s" "l_outstanding t = l_outstanding s" "l_committing t = l_committing s"
    using cmoves_log[OF c(1)] cmoves_log[OF c(2)] by simp_all
qed

section \<open>Interleaved system calls\<close>

text \<open>
  A configuration is the state and, for each system call between its \<^verbatim>\<open>begin_op\<close> and its \<^verbatim>\<open>end_op\<close>, how many blocks it has written so far. A call
  writes at most MAXOPBLOCKS blocks (\<^verbatim>\<open>kernel/param.h\<close>). In between, the cache and other processes move. A step is one call;
  the commit belongs to the step of the last \<^verbatim>\<open>end_op\<close>, when no call is in progress and \<^verbatim>\<open>begin_op\<close> would sleep.
\<close>

inductive log_step :: "'z logst_scheme \<times> nat list \<Rightarrow> 'z logst_scheme \<times> nat list \<Rightarrow> bool" where
  Begin: "begin_op s = Ok () t \<Longrightarrow> log_step (s, cs) (t, 0 # cs)"
| Write: "i < length cs \<Longrightarrow> cs ! i < MAXOPBLOCKS \<Longrightarrow> log_write b s = Ok () t \<Longrightarrow> log_step (s, cs) (t, cs[i := Suc (cs ! i)])"
| End: "i < length cs \<Longrightarrow> end_op s = Ok () t \<Longrightarrow> log_step (s, cs) (t, take i cs @ drop (Suc i) cs)"
| Cache: "cmoves s t \<Longrightarrow> log_step (s, cs) (t, cs)"

definition left :: "nat list \<Rightarrow> nat" where
  "left cs = sum_list (map (\<lambda>c. MAXOPBLOCKS - c) cs)"

definition reserved :: "'z logst_scheme \<times> nat list \<Rightarrow> bool" where
  "reserved = (\<lambda>(s, cs). l_committing s = 0 \<and> sint (l_outstanding s) = int (length cs) \<and> length cs \<le> 3 \<and> 0 \<le> sint (lh_n s)
     \<and> lh_len s + left cs \<le> LOGSIZE)"

lemma left_simps [simp]: "left [] = 0" "left (c # cs) = (MAXOPBLOCKS - c) + left cs" "left (cs @ ds) = left cs + left ds"
  by (simp_all add: left_def)

lemma left_le: "left cs \<le> MAXOPBLOCKS * length cs"
  by (induction cs) auto

lemma left_write:
  assumes "i < length cs" and "cs ! i < MAXOPBLOCKS"
  shows "left cs = Suc (left (cs[i := Suc (cs ! i)]))"
proof -
  have "cs = take i cs @ cs ! i # drop (Suc i) cs" by (rule id_take_nth_drop[OF assms(1)])
  then have "left cs = left (take i cs) + (MAXOPBLOCKS - cs ! i) + left (drop (Suc i) cs)" by (metis left_simps(2,3) add.assoc)
  moreover have "left (cs[i := Suc (cs ! i)]) = left (take i cs) + (MAXOPBLOCKS - Suc (cs ! i)) + left (drop (Suc i) cs)"
    using assms(1) by (simp add: upd_conv_take_nth_drop)
  ultimately show ?thesis using assms(2) by simp
qed

lemma left_end: "i < length cs \<Longrightarrow> left (take i cs @ drop (Suc i) cs) \<le> left cs"
  using id_take_nth_drop[of i cs] by (metis left_simps(2,3) add_le_cancel_left le_add2)

lemma reserved_Begin:
  assumes "reserved (s, cs)" and "begin_op s = Ok () t"
  shows "reserved (t, 0 # cs)"
proof -
  have r: "sint (l_outstanding s) = int (length cs)" "length cs \<le> 3" "0 \<le> sint (lh_n s)" "lh_len s + left cs \<le> LOGSIZE" "l_committing s = 0"
    using assms(1) by (auto simp: reserved_def)
  have n: "lh_n s = of_nat (lh_len s)" "l_outstanding s = of_nat (length cs)"
    using lh_n_len[OF r(3)] sint_nat_eq[OF r(1)] by blast+
  have b: "lh_n s + (l_outstanding s + 1) * of_nat MAXOPBLOCKS = of_nat (lh_len s + Suc (length cs) * MAXOPBLOCKS)" by (simp add: n)
  have "sint (of_nat (lh_len s + Suc (length cs) * MAXOPBLOCKS) :: u32) = int (lh_len s + Suc (length cs) * MAXOPBLOCKS)"
    using r(2,4) by (simp add: signed_of_nat signed_take_bit_int_eq_self del: of_nat_add of_nat_mult)
  then have le: "lh_len s + Suc (length cs) * MAXOPBLOCKS \<le> LOGSIZE" and t: "t = s\<lparr>l_outstanding := l_outstanding s + 1\<rparr>"
    using assms(2) r(5) unfolding begin_op_def b by (auto simp: sleep_def with_proc_def split: if_splits option.splits)
  have "sint (l_outstanding s + 1) = int (Suc (length cs))" using sint_inc[of "l_outstanding s"] r(1,2) by simp
  then show ?thesis using le r left_le[of cs] by (simp add: reserved_def t lh_len_def)
qed

lemma log_write_guards:
  assumes "log_write b s = Ok u t" and "0 \<le> sint (lh_n s)"
  shows "lh_len s < LOGSIZE" "int (lh_len s) < sint (l_size s - 1)" "1 \<le> sint (l_outstanding s)"
  using assms by (auto simp: log_write_def lh_len_def split: if_splits)

lemma reserved_Write:
  assumes "reserved (s, cs)" and "i < length cs" "cs ! i < MAXOPBLOCKS" and "log_write b s = Ok () t"
  shows "reserved (t, cs[i := Suc (cs ! i)])" "l_size t = l_size s"
proof -
  have r: "sint (l_outstanding s) = int (length cs)" "length cs \<le> 3" "0 \<le> sint (lh_n s)" "lh_len s + left cs \<le> LOGSIZE" "l_committing s = 0"
    using assms(1) by (auto simp: reserved_def)
  note g = log_write_guards[OF assms(4) r(3)] and e = log_write_eq[OF r(3) log_write_guards[OF assms(4) r(3)], of b]
  have "reserved (t, cs[i := Suc (cs ! i)]) \<and> l_size t = l_size s"
  proof (cases "b_blockno (bufs s b) \<in> set (homes s)")
    case True
    then show ?thesis using e(1) assms(4) r left_write[OF assms(2,3)] by (simp add: reserved_def)
  next
    case False
    let ?n = "b_blockno (bufs s b)"
    have t: "t = (bpin b s)\<lparr>lh_block := (lh_block s)(lh_len s := ?n), lh_n := lh_n s + 1\<rparr>" using e(2)[OF False] assms(4) by simp
    have h: "lh_len t = Suc (lh_len s)" "0 \<le> sint (lh_n t)" using homes_snoc[of t s ?n, OF _ _ r(3) g(1)] by (simp_all add: t)
    have "l_outstanding t = l_outstanding s" "l_committing t = l_committing s" "l_size t = l_size s" by (simp_all add: t bpin_def upd_buf_def)
    then show ?thesis using h r left_write[OF assms(2,3)] by (simp add: reserved_def)
  qed
  then show "reserved (t, cs[i := Suc (cs ! i)])" "l_size t = l_size s" by auto
qed

lemma end_op_fields:
  fixes s :: "'z logst_scheme"
  assumes "end_op s = Ok u t" and "0 \<le> sint (lh_n s)"
  shows "l_committing t = 0" "l_outstanding t = l_outstanding s - 1" "l_size t = l_size s"
    "lh_n t = (if l_outstanding s = 1 then 0 else lh_n s)"
proof -
  have w: "l_committing (wakeup c x) = l_committing x" "l_outstanding (wakeup c x) = l_outstanding x" "l_size (wakeup c x) = l_size x"
    "lh_n (wakeup c x) = lh_n x" for c and x :: "'z logst_scheme" using cmoves_log[OF wakeup_cmoves[of x c]] by auto
  let ?s = "s\<lparr>l_outstanding := l_outstanding s - 1\<rparr>"
  have "l_committing t = 0 \<and> l_outstanding t = l_outstanding s - 1 \<and> l_size t = l_size s \<and> lh_n t = (if l_outstanding s = 1 then 0 else lh_n s)"
  proof (cases "l_outstanding s = 1")
    case True
    then obtain v where v: "commit (?s\<lparr>l_committing := 1\<rparr>) = Ok () v" "t = wakeup (Some Ch_log) (v\<lparr>l_committing := 0\<rparr>)"
      using assms(1) by (auto simp: end_op_def Let_def bnd_Ok_iff split: if_splits)
    then show ?thesis using commit_fields[OF v(1)] assms(2) True by (simp add: w)
  next
    case False
    then have "t = wakeup (Some Ch_log) ?s" "l_committing s = 0" using assms(1) by (auto simp: end_op_def Let_def split: if_splits)
    then show ?thesis using False by (simp add: w)
  qed
  then show "l_committing t = 0" "l_outstanding t = l_outstanding s - 1" "l_size t = l_size s" "lh_n t = (if l_outstanding s = 1 then 0 else lh_n s)"
    by auto
qed

lemma reserved_End:
  assumes "reserved (s, cs)" and "i < length cs" and "end_op s = Ok () t"
  shows "reserved (t, take i cs @ drop (Suc i) cs)"
proof -
  have r: "sint (l_outstanding s) = int (length cs)" "length cs \<le> 3" "0 \<le> sint (lh_n s)" "lh_len s + left cs \<le> LOGSIZE"
    using assms(1) by (auto simp: reserved_def)
  note e = end_op_fields[OF assms(3) r(3)]
  have o: "sint (l_outstanding t) = int (length (take i cs @ drop (Suc i) cs))"
    using sint_dec[of "l_outstanding s"] r(1) assms(2) by (cases cs) (simp_all add: e(2) of_nat_diff)
  have "lh_len t \<le> lh_len s" "0 \<le> sint (lh_n t)" using r(3) by (auto simp: lh_len_def e(4))
  then show ?thesis using o r(2,4) assms(2) left_end[OF assms(2)] e(1) unfolding reserved_def by simp
qed

lemma reserved_step: "log_step c c' \<Longrightarrow> reserved c \<Longrightarrow> reserved c' \<and> l_size (fst c') = l_size (fst c)"
proof (induction rule: log_step.induct)
  case (Begin s t cs)
  then show ?case using reserved_Begin[OF Begin(2,1)] by (auto simp: begin_op_def sleep_def with_proc_def split: if_splits option.splits)
next
  case (Write i cs b s t)
  then show ?case using reserved_Write by auto
next
  case (End i cs s t)
  have "0 \<le> sint (lh_n s)" using End(3) by (simp add: reserved_def)
  then show ?case using reserved_End[OF End(3,1,2)] end_op_fields(3)[OF End(2)] by simp
next
  case (Cache s t cs)
  then show ?case using cmoves_log[OF Cache(1)] by (simp add: reserved_def)
qed

lemma reserved_reach: "log_step\<^sup>*\<^sup>* c c' \<Longrightarrow> reserved c \<Longrightarrow> reserved c' \<and> l_size (fst c') = l_size (fst c)"
  by (induction rule: rtranclp_induct) (auto dest: reserved_step)

text \<open>C2: The log never overflows, provided the log area has room for the header and LOGSIZE blocks (more than LOGSIZE blocks in all, one more than \<^verbatim>\<open>mkfs\<close> reserves; without that room it does overflow). From such a log, empty, however system calls that each write at most MAXOPBLOCKS blocks interleave their \<^verbatim>\<open>begin_op\<close>, \<^verbatim>\<open>log_write\<close> and \<^verbatim>\<open>end_op\<close>, a call that has not used up its blocks can always write: \<^verbatim>\<open>log_write\<close> returns, and what is logged plus what is set aside fits LOGSIZE.\<close>

theorem log_reservation:
  fixes s0 s :: "'z logst_scheme"
  assumes "log_step\<^sup>*\<^sup>* (s0, []) (s, cs)" and "l_committing s0 = 0" "l_outstanding s0 = 0" "lh_n s0 = 0" and "int LOGSIZE < sint (l_size s0)"
    and "i < length cs" and "cs ! i < MAXOPBLOCKS"
  shows "lh_len s + sum_list (map (\<lambda>c. MAXOPBLOCKS - c) cs) \<le> LOGSIZE \<and> (\<exists>t. log_write b s = Ok () t)"
proof -
  have "reserved (s0, [])" using assms(2-4) by (simp add: reserved_def lh_len_def)
  from reserved_reach[OF assms(1) this] have r: "reserved (s, cs)" "l_size s = l_size s0" by auto
  then have f: "sint (l_outstanding s) = int (length cs)" "0 \<le> sint (lh_n s)" "lh_len s + left cs \<le> LOGSIZE" by (auto simp: reserved_def)
  have "0 < left cs" using left_write[OF assms(6,7)] by simp
  then have l: "lh_len s < LOGSIZE" using f(3) by simp
  moreover have "int (lh_len s) < sint (l_size s - 1)" using l assms(5) sint_dec[of "l_size s0"] by (simp add: r(2))
  moreover have "1 \<le> sint (l_outstanding s)" using f(1) assms(6) by simp
  ultimately have "\<exists>t. log_write b s = Ok () t" using log_write_eq[OF f(2), of b] by blast
  then show ?thesis using f(3) by (simp add: left_def)
qed

theorem log_reservation_witness:
  "\<exists>s t. log_step\<^sup>*\<^sup>* ((demo_log (\<lambda>_. []))\<lparr>l_size := 31\<rparr>, []) (s, [0]) \<and> log_write 0 s = Ok () t"
proof -
  let ?s = "(demo_log (\<lambda>_. []))\<lparr>l_size := 31\<rparr>" and ?t = "(demo_log (\<lambda>_. []))\<lparr>l_size := 31, l_outstanding := 1\<rparr>"
  have "begin_op ?s = Ok () ?t" by (simp add: begin_op_def demo_log_n)
  then have r: "log_step\<^sup>*\<^sup>* (?s, []) (?t, [0])" by (intro r_into_rtranclp log_step.Begin)
  then show ?thesis using log_reservation[OF r, of 0 0] by (auto simp: demo_log_n)
qed

section \<open>The size \<^verbatim>\<open>mkfs\<close> gives the log\<close>

text \<open>Logging buffer after buffer, each with a block of its own.\<close>

definition logging :: "nat \<Rightarrow> 'z logst_scheme \<Rightarrow> bool" where
  "logging k s \<longleftrightarrow> 0 \<le> sint (lh_n s) \<and> lh_len s = k \<and> (\<forall>i < k. lh_block s i = of_nat i) \<and> (\<forall>b. b_blockno (bufs s b) = of_nat b)
     \<and> l_size s = of_nat LOGSIZE \<and> sint (l_outstanding s) = 3"

lemma logging_step:
  fixes s :: "'z logst_scheme"
  assumes "logging k s" and "k < LOGSIZE - 1"
  shows "\<exists>t. log_write k s = Ok () t \<and> logging (Suc k) t"
proof -
  have l: "0 \<le> sint (lh_n s)" "lh_len s = k" "\<And>i. i < k \<Longrightarrow> lh_block s i = of_nat i" "\<And>b. b_blockno (bufs s b) = of_nat b"
    "l_size s = of_nat LOGSIZE" "sint (l_outstanding s) = 3" using assms(1) by (auto simp: logging_def)
  have "(of_nat i :: u32) \<noteq> of_nat k" if "i < k" for i using of_nat_u32_inj[of i k] assms(2) that by auto
  then have "of_nat k \<notin> set (homes s)" using l(2,3) homes_iff by metis
  then have w: "log_write k s = Ok () ((bpin k s)\<lparr>lh_block := (lh_block s)(k := of_nat k), lh_n := lh_n s + 1\<rparr>)" (is "_ = Ok () ?t")
    using log_write_eq(2)[OF l(1), of k] l(2,4-6) assms(2) by simp
  have "lh_len ?t = Suc k" "0 \<le> sint (lh_n ?t)" using homes_snoc[of ?t s "of_nat k", OF _ _ l(1)] assms(2) by (simp_all add: l(2))
  then have "logging (Suc k) ?t" using l(3-6) by (auto simp: logging_def bpin_def upd_buf_def less_Suc_eq)
  with w show ?thesis by blast
qed

lemma logging_run:
  fixes s :: "'z logst_scheme"
  assumes "logging k s" and "i < length cs" "cs ! i = 0" and "m \<le> MAXOPBLOCKS" and "k + m \<le> LOGSIZE - 1"
  shows "\<exists>t. log_step\<^sup>*\<^sup>* (s, cs) (t, cs[i := m]) \<and> logging (k + m) t"
  using assms(4,5)
proof (induction m)
  case 0
  then show ?case using assms(1,3) by (metis add_0_right list_update_id rtranclp.rtrancl_refl)
next
  case (Suc m)
  then obtain t where t: "log_step\<^sup>*\<^sup>* (s, cs) (t, cs[i := m])" "logging (k + m) t" by auto
  obtain u where u: "log_write (k + m) t = Ok () u" "logging (Suc (k + m)) u" using logging_step[OF t(2)] Suc.prems by auto
  have "log_step (t, cs[i := m]) (u, cs[i := m, i := Suc (cs[i := m] ! i)])" using Suc.prems assms(2) u(1) by (intro log_step.Write) auto
  then have "log_step (t, cs[i := m]) (u, cs[i := Suc m])" using assms(2) by simp
  then show ?case using t(1) u(2) by (metis add_Suc_right rtranclp.rtrancl_into_rtrancl)
qed

text \<open>C28: The size \<^verbatim>\<open>mkfs\<close> gives the log is one block short. \<^verbatim>\<open>mkfs\<close> makes \<^verbatim>\<open>nlog\<close> = LOGSIZE blocks, the header included, while \<^verbatim>\<open>begin_op\<close> sets LOGSIZE blocks aside: from every empty log of that size, over a cache whose buffers hold distinct blocks, three admitted calls reach a state where one of them has written fewer than MAXOPBLOCKS blocks and its next \<^verbatim>\<open>log_write\<close> panics.\<close>

theorem log_size_one_short:
  fixes s0 :: "'z logst_scheme"
  assumes "l_committing s0 = 0" "l_outstanding s0 = 0" "lh_n s0 = 0" "l_size s0 = of_nat LOGSIZE" "\<forall>b. b_blockno (bufs s0 b) = of_nat b"
  shows "\<exists>s cs i. log_step\<^sup>*\<^sup>* (s0, []) (s, cs) \<and> i < length cs \<and> cs ! i < MAXOPBLOCKS \<and> log_write b s = Panic ''too big a transaction''"
proof -
  let ?b = "\<lambda>n. s0\<lparr>l_outstanding := n\<rparr>"
  have "begin_op s0 = Ok () (?b 1)" "begin_op (?b 1) = Ok () (?b 2)" "begin_op (?b 2) = Ok () (?b 3)" using assms(1-3) by (simp_all add: begin_op_def)
  then have b: "log_step\<^sup>*\<^sup>* (s0, []) (?b 3, [0, 0, 0])"
    by (meson log_step.Begin converse_rtranclp_into_rtranclp rtranclp.rtrancl_refl)
  have "logging 0 (?b 3)" using assms by (simp add: logging_def lh_len_def)
  from logging_run[OF this, of 0 "[0, 0, 0]" 10] obtain s1 where s1: "log_step\<^sup>*\<^sup>* (?b 3, [0, 0, 0]) (s1, [10, 0, 0])" "logging 10 s1" by auto
  from logging_run[OF s1(2), of 1 "[10, 0, 0]" 10] obtain s2 where s2: "log_step\<^sup>*\<^sup>* (s1, [10, 0, 0]) (s2, [10, 10, 0])" "logging 20 s2" by auto
  from logging_run[OF s2(2), of 2 "[10, 10, 0]" 9] obtain s3 where s3: "log_step\<^sup>*\<^sup>* (s2, [10, 10, 0]) (s3, [10, 10, 9])" "logging 29 s3" by auto
  have "sint (lh_n s3) = 29" "l_size s3 = 30" using s3(2) by (auto simp: logging_def lh_len_def)
  then have "log_write b s3 = Panic ''too big a transaction''" by (simp add: log_write_def)
  moreover have "log_step\<^sup>*\<^sup>* (s0, []) (s3, [10, 10, 9])" using b s1(1) s2(1) s3(1) by (meson rtranclp_trans)
  ultimately show ?thesis by (intro exI[of _ s3] exI[of _ "[10, 10, 9]"] exI[of _ 2]) simp
qed

theorem log_size_one_short_witness:
  "\<exists>s cs i. log_step\<^sup>*\<^sup>* ((demo_log (\<lambda>_. []))\<lparr>bufs := (\<lambda>b. demo_buf\<lparr>b_blockno := of_nat b\<rparr>)\<rparr>, []) (s, cs) \<and> i < length cs \<and> cs ! i < MAXOPBLOCKS
    \<and> log_write 29 s = Panic ''too big a transaction''"
  by (rule log_size_one_short) (simp_all add: demo_log_n demo_log_cache)

end
