(* ===== verification/Fs.thy ===== *)
theory Fs
  imports Log
begin

text \<open>
  The file system below the system calls, \<^verbatim>\<open>kernel/fs.c\<close> without its directories (those are in \<open>Dir\<close>): the block allocator,
  the inode table and the contents of files. On-disk structures are the bytes of their blocks, read and written at the
  offsets of the C structures; a \<^verbatim>\<open>struct inode *\<close> is an index of the table, \<open>None\<close> the null pointer. A call that finds a lock
  taken ends in \<open>Sleep\<close>: what it does after it was woken is followed only where a loop says so.
\<close>

abbreviation (input) FSMAGIC :: u32 where "FSMAGIC \<equiv> 0x10203040"
abbreviation (input) ROOTINO :: u32 where "ROOTINO \<equiv> 1"
abbreviation (input) ROOTDEV :: u32 where "ROOTDEV \<equiv> 1"
abbreviation (input) NDIRECT :: nat where "NDIRECT \<equiv> 12"
abbreviation (input) NINDIRECT :: nat where "NINDIRECT \<equiv> 256"
abbreviation (input) MAXFILE :: nat where "MAXFILE \<equiv> 268"
abbreviation (input) IPB :: nat where "IPB \<equiv> 16"
abbreviation (input) BPB :: nat where "BPB \<equiv> 8192"
abbreviation (input) NINODE :: nat where "NINODE \<equiv> 50"
abbreviation (input) T_DIR :: u16 where "T_DIR \<equiv> 1"
abbreviation (input) T_FILE :: u16 where "T_FILE \<equiv> 2"
abbreviation (input) T_DEVICE :: u16 where "T_DEVICE \<equiv> 3"

record superblock =
  sb_magic :: u32
  sb_size :: u32
  sb_nblocks :: u32
  sb_ninodes :: u32
  sb_nlog :: u32
  sb_logstart :: u32
  sb_inodestart :: u32
  sb_bmapstart :: u32

record inode =
  i_dev :: u32
  i_inum :: u32
  i_ref :: cint
  i_lock :: sleeplock
  i_valid :: cint
  i_type :: u16
  i_major :: u16
  i_minor :: u16
  i_nlink :: u16
  i_size :: u32
  i_addrs :: "nat \<Rightarrow> u32"

record stat =
  st_dev :: cint
  st_ino :: u32
  st_type :: u16
  st_nlink :: u16
  st_size :: u64

record fsst = logst +
  sb :: superblock
  inodes :: "nat \<Rightarrow> inode"

definition IBLOCK :: "u32 \<Rightarrow> 'z fsst_scheme \<Rightarrow> u32" where
  "IBLOCK i s = i div of_nat IPB + sb_inodestart (sb s)"

definition BBLOCK :: "u32 \<Rightarrow> 'z fsst_scheme \<Rightarrow> u32" where
  "BBLOCK b s = b div of_nat BPB + sb_bmapstart (sb s)"

definition upd_inode :: "nat \<Rightarrow> (inode \<Rightarrow> inode) \<Rightarrow> 'z fsst_scheme \<Rightarrow> 'z fsst_scheme" where
  "upd_inode ip f s = s\<lparr>inodes := (inodes s)(ip := f (inodes s ip))\<rparr>"

definition inode_lock :: "nat \<Rightarrow> 'z fsst_scheme \<Rightarrow> sleeplock" where
  "inode_lock ip s = i_lock (inodes s ip)"

definition upd_inode_lock :: "nat \<Rightarrow> (sleeplock \<Rightarrow> sleeplock) \<Rightarrow> 'z fsst_scheme \<Rightarrow> 'z fsst_scheme" where
  "upd_inode_lock ip f s = upd_inode ip (\<lambda>x. x\<lparr>i_lock := f (i_lock x)\<rparr>) s"

definition upd_data :: "nat \<Rightarrow> (u8 list \<Rightarrow> u8 list) \<Rightarrow> 'z bcache_scheme \<Rightarrow> 'z bcache_scheme" where
  "upd_data b f s = upd_buf b (\<lambda>x. x\<lparr>b_data := f (b_data x)\<rparr>) s"

section \<open>The superblock\<close>

definition decode_sb :: "u8 list \<Rightarrow> superblock" where
  "decode_sb d = \<lparr>sb_magic = get32 0 d, sb_size = get32 4 d, sb_nblocks = get32 8 d, sb_ninodes = get32 12 d, sb_nlog = get32 16 d,
     sb_logstart = get32 20 d, sb_inodestart = get32 24 d, sb_bmapstart = get32 28 d\<rparr>"

definition readsb :: "u32 \<Rightarrow> 'z fsst_scheme \<Rightarrow> ('z fsst_scheme, unit) res" where
  "readsb dev s = bnd (bread dev 1 s) (\<lambda>bp s. brelse bp (s\<lparr>sb := decode_sb (b_data (bufs s bp))\<rparr>))"

definition fsinit :: "u32 \<Rightarrow> 'z fsst_scheme \<Rightarrow> ('z fsst_scheme, unit) res" where
  "fsinit dev s =
     bnd (readsb dev s) (\<lambda>_ s.
       if sb_magic (sb s) \<noteq> FSMAGIC then Panic ''invalid file system''
       else initlog dev (sb_logstart (sb s)) (sb_nlog (sb s)) s)"

section \<open>Blocks\<close>

definition bzero :: "u32 \<Rightarrow> u32 \<Rightarrow> 'z fsst_scheme \<Rightarrow> ('z fsst_scheme, unit) res" where
  "bzero dev bno s =
     bnd (bread dev bno s) (\<lambda>bp s.
     bnd (log_write bp (upd_data bp (\<lambda>_. replicate BSIZE 0) s)) (\<lambda>_ s.
     brelse bp s))"

definition bit_mask :: "nat \<Rightarrow> u8" where
  "bit_mask bi = push_bit (bi mod 8) 1"

definition set_bmap :: "nat \<Rightarrow> u8 list \<Rightarrow> u8 list" where
  "set_bmap bi d = d[bi div 8 := d ! (bi div 8) OR bit_mask bi]"

definition clear_bmap :: "nat \<Rightarrow> u8 list \<Rightarrow> u8 list" where
  "clear_bmap bi d = d[bi div 8 := d ! (bi div 8) AND NOT (bit_mask bi)]"

definition block_free :: "u8 list \<Rightarrow> nat \<Rightarrow> bool" where
  "block_free d bi \<longleftrightarrow> d ! (bi div 8) AND bit_mask bi = 0"

text \<open>The outer loop of \<^verbatim>\<open>balloc\<close>, over the first block numbers \<open>b\<close> of the bitmap blocks.\<close>

fun balloc_loop :: "u32 \<Rightarrow> nat list \<Rightarrow> 'z fsst_scheme \<Rightarrow> ('z fsst_scheme, u32) res" where
  "balloc_loop dev [] s = bnd (printf (bstr ''balloc: out of blocks'' @ [10]) [] s) (\<lambda>_ s. Ok 0 s)"
| "balloc_loop dev (b # bs) s =
     bnd (bread dev (BBLOCK (of_nat b) s) s) (\<lambda>bp s.
       case first_index (\<lambda>bi. b + bi < unat (sb_size (sb s)) \<and> block_free (b_data (bufs s bp)) bi) BPB of
         Some bi \<Rightarrow>
           bnd (log_write bp (upd_data bp (set_bmap bi) s)) (\<lambda>_ s.
           bnd (brelse bp s) (\<lambda>_ s.
           bnd (bzero dev (of_nat (b + bi)) s) (\<lambda>_ s.
           Ok (of_nat (b + bi)) s)))
       | None \<Rightarrow> bnd (brelse bp s) (\<lambda>_ s. balloc_loop dev bs s))"

definition balloc :: "u32 \<Rightarrow> 'z fsst_scheme \<Rightarrow> ('z fsst_scheme, u32) res" where
  "balloc dev s = balloc_loop dev (map (\<lambda>k. k * BPB) [0..<(unat (sb_size (sb s)) + BPB - 1) div BPB]) s"

definition bfree :: "u32 \<Rightarrow> u32 \<Rightarrow> 'z fsst_scheme \<Rightarrow> ('z fsst_scheme, unit) res" where
  "bfree dev b s =
     bnd (bread dev (BBLOCK b s) s) (\<lambda>bp s.
       let bi = unat b mod BPB in
       if block_free (b_data (bufs s bp)) bi then Panic ''freeing free block''
       else
         bnd (log_write bp (upd_data bp (clear_bmap bi) s)) (\<lambda>_ s.
         brelse bp s))"

section \<open>Inodes\<close>

definition iinit :: "'z fsst_scheme \<Rightarrow> 'z fsst_scheme" where
  "iinit s = fold (\<lambda>i s. upd_inode_lock i (\<lambda>_. initsleeplock ''inode'') s) [0..<NINODE] s"

definition iget :: "u32 \<Rightarrow> u32 \<Rightarrow> 'z fsst_scheme \<Rightarrow> ('z fsst_scheme, nat) res" where
  "iget dev inum s =
     (case first_index (\<lambda>ip. 0 < sint (i_ref (inodes s ip)) \<and> i_dev (inodes s ip) = dev \<and> i_inum (inodes s ip) = inum) NINODE of
        Some ip \<Rightarrow> Ok ip (upd_inode ip (\<lambda>x. x\<lparr>i_ref := i_ref x + 1\<rparr>) s)
      | None \<Rightarrow>
         (case first_index (\<lambda>ip. i_ref (inodes s ip) = 0) NINODE of
            None \<Rightarrow> Panic ''iget: no inodes''
          | Some ip \<Rightarrow> Ok ip (upd_inode ip (\<lambda>x. x\<lparr>i_dev := dev, i_inum := inum, i_ref := 1, i_valid := 0\<rparr>) s)))"

text \<open>The offset in its block, and the 64 bytes, of an on-disk inode.\<close>

definition dinode_off :: "u32 \<Rightarrow> nat" where
  "dinode_off inum = 64 * (unat inum mod IPB)"

definition put_dinode :: "inode \<Rightarrow> nat \<Rightarrow> u8 list \<Rightarrow> u8 list" where
  "put_dinode x off d =
     (let d = put_bytes off (bytes16 (i_type x)) d;
          d = put_bytes (off + 2) (bytes16 (i_major x)) d;
          d = put_bytes (off + 4) (bytes16 (i_minor x)) d;
          d = put_bytes (off + 6) (bytes16 (i_nlink x)) d;
          d = put_bytes (off + 8) (bytes32 (i_size x)) d in
      put_bytes (off + 12) (concat (map (\<lambda>k. bytes32 (i_addrs x k)) [0..<Suc NDIRECT])) d)"

definition get_dinode :: "nat \<Rightarrow> u8 list \<Rightarrow> inode \<Rightarrow> inode" where
  "get_dinode off d x = x\<lparr>i_type := get16 off d, i_major := get16 (off + 2) d, i_minor := get16 (off + 4) d, i_nlink := get16 (off + 6) d,
     i_size := get32 (off + 8) d, i_addrs := (\<lambda>k. if k \<le> NDIRECT then get32 (off + 12 + 4 * k) d else i_addrs x k)\<rparr>"

fun ialloc_loop :: "u32 \<Rightarrow> u16 \<Rightarrow> nat list \<Rightarrow> 'z fsst_scheme \<Rightarrow> ('z fsst_scheme, nat option) res" where
  "ialloc_loop dev type [] s = bnd (printf (bstr ''ialloc: no inodes'' @ [10]) [] s) (\<lambda>_ s. Ok None s)"
| "ialloc_loop dev type (inum # is) s =
     bnd (bread dev (IBLOCK (of_nat inum) s) s) (\<lambda>bp s.
       let off = dinode_off (of_nat inum) in
       if get16 off (b_data (bufs s bp)) = 0 then
         let s = upd_data bp (\<lambda>d. put_bytes off (bytes16 type) (put_bytes off (replicate 64 0) d)) s in
         bnd (log_write bp s) (\<lambda>_ s.
         bnd (brelse bp s) (\<lambda>_ s.
         bnd (iget dev (of_nat inum) s) (\<lambda>ip s. Ok (Some ip) s)))
       else bnd (brelse bp s) (\<lambda>_ s. ialloc_loop dev type is s))"

definition ialloc :: "u32 \<Rightarrow> u16 \<Rightarrow> 'z fsst_scheme \<Rightarrow> ('z fsst_scheme, nat option) res" where
  "ialloc dev type s = ialloc_loop dev type [1..<unat (sb_ninodes (sb s))] s"

definition iupdate :: "nat \<Rightarrow> 'z fsst_scheme \<Rightarrow> ('z fsst_scheme, unit) res" where
  "iupdate ip s =
     bnd (bread (i_dev (inodes s ip)) (IBLOCK (i_inum (inodes s ip)) s) s) (\<lambda>bp s.
     bnd (log_write bp (upd_data bp (put_dinode (inodes s ip) (dinode_off (i_inum (inodes s ip)))) s)) (\<lambda>_ s.
     brelse bp s))"

definition idup :: "nat \<Rightarrow> 'z fsst_scheme \<Rightarrow> nat \<times> 'z fsst_scheme" where
  "idup ip s = (ip, upd_inode ip (\<lambda>x. x\<lparr>i_ref := i_ref x + 1\<rparr>) s)"

definition ilock :: "nat option \<Rightarrow> 'z fsst_scheme \<Rightarrow> ('z fsst_scheme, unit) res" where
  "ilock ip0 s =
     (case ip0 of
        None \<Rightarrow> Panic ''ilock''
      | Some ip \<Rightarrow>
         (if sint (i_ref (inodes s ip)) < 1 then Panic ''ilock''
          else bnd (acquiresleep (Ch_inodelock ip) (inode_lock ip) (upd_inode_lock ip) s) (\<lambda>_ s.
            if i_valid (inodes s ip) = 0 then
              bnd (bread (i_dev (inodes s ip)) (IBLOCK (i_inum (inodes s ip)) s) s) (\<lambda>bp s.
              let s = upd_inode ip (get_dinode (dinode_off (i_inum (inodes s ip))) (b_data (bufs s bp))) s in
              bnd (brelse bp s) (\<lambda>_ s.
              let s = upd_inode ip (\<lambda>x. x\<lparr>i_valid := 1\<rparr>) s in
              if i_type (inodes s ip) = 0 then Panic ''ilock: no type'' else Ok () s))
            else Ok () s)))"

definition iunlock :: "nat option \<Rightarrow> 'z fsst_scheme \<Rightarrow> ('z fsst_scheme, unit) res" where
  "iunlock ip0 s =
     (case ip0 of
        None \<Rightarrow> Panic ''iunlock''
      | Some ip \<Rightarrow>
          bnd (holdingsleep (inode_lock ip) s) (\<lambda>h s.
            if \<not> h \<or> sint (i_ref (inodes s ip)) < 1 then Panic ''iunlock''
            else Ok () (releasesleep (Ch_inodelock ip) (upd_inode_lock ip) s)))"

section \<open>The contents of a file\<close>

definition bmap :: "nat \<Rightarrow> u32 \<Rightarrow> 'z fsst_scheme \<Rightarrow> ('z fsst_scheme, u32) res" where
  "bmap ip bn s =
     (if unat bn < NDIRECT then
        let addr = i_addrs (inodes s ip) (unat bn) in
        if addr = 0 then
          bnd (balloc (i_dev (inodes s ip)) s) (\<lambda>addr s.
            if addr = 0 then Ok 0 s
            else Ok addr (upd_inode ip (\<lambda>x. x\<lparr>i_addrs := (i_addrs x)(unat bn := addr)\<rparr>) s))
        else Ok addr s
      else
        let bn = bn - of_nat NDIRECT in
        if unat bn < NINDIRECT then
          bnd (let addr = i_addrs (inodes s ip) NDIRECT in
               if addr = 0 then
                 bnd (balloc (i_dev (inodes s ip)) s) (\<lambda>addr s.
                   if addr = 0 then Ok 0 s
                   else Ok addr (upd_inode ip (\<lambda>x. x\<lparr>i_addrs := (i_addrs x)(NDIRECT := addr)\<rparr>) s))
               else Ok addr s) (\<lambda>addr s.
          if addr = 0 then Ok 0 s
          else
            bnd (bread (i_dev (inodes s ip)) addr s) (\<lambda>bp s.
            let addr = get32 (4 * unat bn) (b_data (bufs s bp)) in
            if addr = 0 then
              bnd (balloc (i_dev (inodes s ip)) s) (\<lambda>addr s.
              bnd (if addr \<noteq> 0 then log_write bp (upd_data bp (put_bytes (4 * unat bn) (bytes32 addr)) s) else Ok () s) (\<lambda>_ s.
              bnd (brelse bp s) (\<lambda>_ s. Ok addr s)))
            else bnd (brelse bp s) (\<lambda>_ s. Ok addr s)))
        else Panic ''bmap: out of range'')"

definition itrunc :: "nat \<Rightarrow> 'z fsst_scheme \<Rightarrow> ('z fsst_scheme, unit) res" where
  "itrunc ip s =
     bnd (loop (\<lambda>i s.
       if i_addrs (inodes s ip) i \<noteq> 0 then
         bnd (bfree (i_dev (inodes s ip)) (i_addrs (inodes s ip) i) s) (\<lambda>_ s.
         Ok () (upd_inode ip (\<lambda>x. x\<lparr>i_addrs := (i_addrs x)(i := 0)\<rparr>) s))
       else Ok () s) [0..<NDIRECT] s) (\<lambda>_ s.
     bnd (if i_addrs (inodes s ip) NDIRECT \<noteq> 0 then
         bnd (bread (i_dev (inodes s ip)) (i_addrs (inodes s ip) NDIRECT) s) (\<lambda>bp s.
         bnd (loop (\<lambda>j s.
           let a = get32 (4 * j) (b_data (bufs s bp)) in
           if a \<noteq> 0 then bfree (i_dev (inodes s ip)) a s else Ok () s) [0..<NINDIRECT] s) (\<lambda>_ s.
         bnd (brelse bp s) (\<lambda>_ s.
         bnd (bfree (i_dev (inodes s ip)) (i_addrs (inodes s ip) NDIRECT) s) (\<lambda>_ s.
         Ok () (upd_inode ip (\<lambda>x. x\<lparr>i_addrs := (i_addrs x)(NDIRECT := 0)\<rparr>) s)))))
       else Ok () s) (\<lambda>_ s.
     iupdate ip (upd_inode ip (\<lambda>x. x\<lparr>i_size := 0\<rparr>) s)))"

definition iput :: "nat \<Rightarrow> 'z fsst_scheme \<Rightarrow> ('z fsst_scheme, unit) res" where
  "iput ip s =
     bnd (if i_ref (inodes s ip) = 1 \<and> i_valid (inodes s ip) \<noteq> 0 \<and> i_nlink (inodes s ip) = 0 then
         bnd (acquiresleep (Ch_inodelock ip) (inode_lock ip) (upd_inode_lock ip) s) (\<lambda>_ s.
         bnd (itrunc ip s) (\<lambda>_ s.
         bnd (iupdate ip (upd_inode ip (\<lambda>x. x\<lparr>i_type := 0\<rparr>) s)) (\<lambda>_ s.
         let s = upd_inode ip (\<lambda>x. x\<lparr>i_valid := 0\<rparr>) s in
         Ok () (releasesleep (Ch_inodelock ip) (upd_inode_lock ip) s))))
       else Ok () s) (\<lambda>_ s.
     Ok () (upd_inode ip (\<lambda>x. x\<lparr>i_ref := i_ref x - 1\<rparr>) s))"

definition iunlockput :: "nat \<Rightarrow> 'z fsst_scheme \<Rightarrow> ('z fsst_scheme, unit) res" where
  "iunlockput ip s = bnd (iunlock (Some ip) s) (\<lambda>_ s. iput ip s)"

definition stati :: "nat \<Rightarrow> 'z fsst_scheme \<Rightarrow> stat" where
  "stati ip s = (let x = inodes s ip in
     \<lparr>st_dev = i_dev x, st_ino = i_inum x, st_type = i_type x, st_nlink = i_nlink x, st_size = ucast (i_size x)\<rparr>)"

text \<open>The bytes of a block that a read or write at \<open>off\<close> with \<open>left\<close> bytes to go touches.\<close>

definition chunk :: "u32 \<Rightarrow> u32 \<Rightarrow> u32" where
  "chunk off left = min left (of_nat BSIZE - off mod of_nat BSIZE)"

lemma chunk_pos: "left \<noteq> 0 \<Longrightarrow> chunk off left \<noteq> 0"
proof -
  assume "left \<noteq> 0"
  have "unat (off mod 1024) < 1024" by (simp add: unat_mod)
  then have "off mod 1024 < 1024" by (simp add: word_less_nat_alt)
  then have "1024 - off mod 1024 \<noteq> 0" by auto
  with \<open>left \<noteq> 0\<close> show ?thesis by (simp add: chunk_def min_def)
qed

lemma chunk_le: "chunk off left \<le> left"
  by (simp add: chunk_def)

lemma chunk_less:
  assumes "tot < n"
  shows "unat (n - (tot + chunk off (n - tot))) < unat (n - tot)"
proof -
  let ?m = "chunk off (n - tot)"
  have "n - tot \<noteq> 0" using assms by auto
  then have m: "?m \<noteq> 0" "?m \<le> n - tot" using chunk_pos chunk_le by auto
  have "n - (tot + ?m) = (n - tot) - ?m" by simp
  then have "unat (n - (tot + ?m)) = unat (n - tot) - unat ?m" using unat_sub[OF m(2)] by (simp only:)
  moreover have "0 < unat ?m" using m(1) by (simp add: unat_gt_0)
  moreover have "unat ?m \<le> unat (n - tot)" using m(2) by (simp add: word_le_nat_alt)
  ultimately show ?thesis by linarith
qed

text \<open>The loop of \<^verbatim>\<open>readi\<close>: the count, and the bytes read, for a caller that reads into a variable of its own.\<close>

function readi_loop :: "nat \<Rightarrow> dst \<Rightarrow> u32 \<Rightarrow> u32 \<Rightarrow> u32 \<Rightarrow> u8 list \<Rightarrow> 'z fsst_scheme \<Rightarrow> ('z fsst_scheme, u32 \<times> u8 list) res" where
  "readi_loop ip d off n tot acc s =
     (if tot < n then
        bnd (bmap ip (off div of_nat BSIZE) s) (\<lambda>addr s.
          if addr = 0 then Ok (tot, acc) s
          else
            bnd (bread (i_dev (inodes s ip)) addr s) (\<lambda>bp s.
            let m = chunk off (n - tot);
                bs = get_bytes (unat (off mod of_nat BSIZE)) (unat m) (b_data (bufs s bp)) in
            bnd (either_copyout d bs s) (\<lambda>r s.
            if r = - 1 then bnd (brelse bp s) (\<lambda>_ s. Ok (- 1, acc) s)
            else bnd (brelse bp s) (\<lambda>_ s. readi_loop ip (dst_add d (unat m)) (off + m) n (tot + m) (acc @ bs) s))))
      else Ok (tot, acc) s)"
  by auto
termination
  by (relation "measure (\<lambda>(ip, d, off, n, tot, acc, s). unat (n - tot))") (auto simp: chunk_less)

definition readi :: "nat \<Rightarrow> dst \<Rightarrow> u32 \<Rightarrow> u32 \<Rightarrow> 'z fsst_scheme \<Rightarrow> ('z fsst_scheme, u32 \<times> u8 list) res" where
  "readi ip d off n s =
     (if i_size (inodes s ip) < off \<or> off + n < off then Ok (0, []) s
      else
        let n = (if i_size (inodes s ip) < off + n then i_size (inodes s ip) - off else n) in
        readi_loop ip d off n 0 [] s)"

function writei_loop :: "nat \<Rightarrow> src \<Rightarrow> u32 \<Rightarrow> u32 \<Rightarrow> u32 \<Rightarrow> 'z fsst_scheme \<Rightarrow> ('z fsst_scheme, u32 \<times> u32) res" where
  "writei_loop ip a off n tot s =
     (if tot < n then
        bnd (bmap ip (off div of_nat BSIZE) s) (\<lambda>addr s.
          if addr = 0 then Ok (tot, off) s
          else
            bnd (bread (i_dev (inodes s ip)) addr s) (\<lambda>bp s.
            let m = chunk off (n - tot) in
            bnd (either_copyin a (unat m) s) (\<lambda>(r, bs) s.
            let s = upd_data bp (put_bytes (unat (off mod of_nat BSIZE)) bs) s in
            if r = - 1 then bnd (brelse bp s) (\<lambda>_ s. Ok (tot, off) s)
            else
              bnd (log_write bp s) (\<lambda>_ s.
              bnd (brelse bp s) (\<lambda>_ s.
              writei_loop ip (src_add a (unat m)) (off + m) n (tot + m) s)))))
      else Ok (tot, off) s)"
  by auto
termination
  by (relation "measure (\<lambda>(ip, a, off, n, tot, s). unat (n - tot))") (auto simp: chunk_less)

declare readi_loop.simps [simp del] writei_loop.simps [simp del]

definition writei :: "nat \<Rightarrow> src \<Rightarrow> u32 \<Rightarrow> u32 \<Rightarrow> 'z fsst_scheme \<Rightarrow> ('z fsst_scheme, cint) res" where
  "writei ip a off n s =
     (if i_size (inodes s ip) < off \<or> off + n < off then Ok (- 1) s
      else if of_nat (MAXFILE * BSIZE) < off + n then Ok (- 1) s
      else
        bnd (writei_loop ip a off n 0 s) (\<lambda>(tot, off) s.
        let s = (if i_size (inodes s ip) < off then upd_inode ip (\<lambda>x. x\<lparr>i_size := off\<rparr>) s else s) in
        bnd (iupdate ip s) (\<lambda>_ s. Ok tot s)))"

end
