(* ===== verification/Dir.thy ===== *)
theory Dir
  imports Fs
begin

text \<open>
  Directories and path names, the rest of \<^verbatim>\<open>kernel/fs.c\<close>. A directory is a file of 16-byte entries, an inode number and a
  name of DIRSIZ bytes. A path is the bytes of a C string up to and with its NUL; a string without one is
  read past its end, which has no meaning. The lemmas relate \<^verbatim>\<open>skipelem\<close> to the list of the elements of a path.
\<close>

abbreviation (input) DIRSIZ :: nat where "DIRSIZ \<equiv> 14"
abbreviation (input) DIRENT_SIZE :: u32 where "DIRENT_SIZE \<equiv> 16"

definition namecmp :: "u8 list \<Rightarrow> u8 list \<Rightarrow> int option" where
  "namecmp s t = strncmp s t DIRSIZ"

text \<open>The offsets \<^verbatim>\<open>for(off = 0; off < dp->size; off += sizeof(de))\<close> goes through.\<close>

definition dirent_offs :: "u32 \<Rightarrow> u32 list" where
  "dirent_offs sz = map (\<lambda>k. of_nat (16 * k)) [0..<(unat sz + 15) div 16]"

fun dirlookup_loop :: "nat \<Rightarrow> u8 list \<Rightarrow> u32 list \<Rightarrow> 'z fsst_scheme \<Rightarrow> ('z fsst_scheme, (nat \<times> u32) option) res" where
  "dirlookup_loop dp name [] s = Ok None s"
| "dirlookup_loop dp name (off # offs) s =
     bnd (readi dp Dst_local off DIRENT_SIZE s) (\<lambda>(n, de) s.
       if n \<noteq> DIRENT_SIZE then Panic ''dirlookup read''
       else if get16 0 de = 0 then dirlookup_loop dp name offs s
       else
         case namecmp name (get_bytes 2 DIRSIZ de) of
           None \<Rightarrow> Undef ''name is not a string''
         | Some r \<Rightarrow>
            (if r = 0 then bnd (iget (i_dev (inodes s dp)) (ucast (get16 0 de)) s) (\<lambda>ip s. Ok (Some (ip, off)) s)
             else dirlookup_loop dp name offs s))"

text \<open>The inode found, with the offset of its entry that the code stores through \<^verbatim>\<open>poff\<close>.\<close>

definition dirlookup :: "nat \<Rightarrow> u8 list \<Rightarrow> 'z fsst_scheme \<Rightarrow> ('z fsst_scheme, (nat \<times> u32) option) res" where
  "dirlookup dp name s =
     (if i_type (inodes s dp) \<noteq> T_DIR then Panic ''dirlookup not DIR''
      else dirlookup_loop dp name (dirent_offs (i_size (inodes s dp))) s)"

text \<open>The search of \<^verbatim>\<open>dirlink\<close> for an empty entry: its offset, or the first offset past the last entry.\<close>

fun empty_dirent :: "nat \<Rightarrow> u32 list \<Rightarrow> u32 \<Rightarrow> 'z fsst_scheme \<Rightarrow> ('z fsst_scheme, u32) res" where
  "empty_dirent dp [] fin s = Ok fin s"
| "empty_dirent dp (off # offs) fin s =
     bnd (readi dp Dst_local off DIRENT_SIZE s) (\<lambda>(n, de) s.
       if n \<noteq> DIRENT_SIZE then Panic ''dirlink read''
       else if get16 0 de = 0 then Ok off s
       else empty_dirent dp offs fin s)"

definition dirlink :: "nat \<Rightarrow> u8 list \<Rightarrow> u32 \<Rightarrow> 'z fsst_scheme \<Rightarrow> ('z fsst_scheme, cint) res" where
  "dirlink dp name inum s =
     bnd (dirlookup dp name s) (\<lambda>r s.
       case r of
         Some (ip, _) \<Rightarrow> bnd (iput ip s) (\<lambda>_ s. Ok (- 1) s)
       | None \<Rightarrow>
           let offs = dirent_offs (i_size (inodes s dp)) in
           bnd (empty_dirent dp offs (of_nat (16 * length offs)) s) (\<lambda>off s.
             case strncpy name DIRSIZ of
               None \<Rightarrow> Undef ''name is not a string''
             | Some nm \<Rightarrow>
                 bnd (writei dp (Src_local (bytes16 (ucast inum) @ nm)) off DIRENT_SIZE s) (\<lambda>n s.
                   if n \<noteq> DIRENT_SIZE then Ok (- 1) s else Ok 0 s)))"

section \<open>Path names\<close>

text \<open>
  \<^verbatim>\<open>skipelem(path, name)\<close>: the rest of the path, \<open>None\<close> when there is no element, and the contents of the buffer \<^verbatim>\<open>name\<close>. The
  outer \<open>None\<close> is a path without a NUL.
\<close>

definition skipelem :: "u8 list \<Rightarrow> u8 list \<Rightarrow> (u8 list option \<times> u8 list) option" where
  "skipelem path name =
     (let p = dropWhile (\<lambda>c. c = 47) path in
      if p = [] then None
      else if hd p = 0 then Some (None, name)
      else
        let elem = takeWhile (\<lambda>c. c \<noteq> 47 \<and> c \<noteq> 0) p;
            p = dropWhile (\<lambda>c. c \<noteq> 47 \<and> c \<noteq> 0) p;
            name = (if DIRSIZ \<le> length elem then put_bytes 0 (take DIRSIZ elem) name else put_bytes 0 (elem @ [0]) name);
            p = dropWhile (\<lambda>c. c = 47) p in
        if p = [] then None else Some (Some p, name))"

lemma skipelem_shorter: "skipelem path name = Some (Some p, name') \<Longrightarrow> length p < length path"
proof -
  let ?q = "dropWhile (\<lambda>c. c = 47) path"
  assume a: "skipelem path name = Some (Some p, name')"
  note e = a[unfolded skipelem_def Let_def]
  have q: "?q \<noteq> []" using e by (rule contrapos_pn) (simp only: if_True simp_thms option.distinct)
  have h: "hd ?q \<noteq> 0" using e by (rule contrapos_pn) (simp only: q if_True if_False option.inject prod.inject option.distinct simp_thms)
  have p: "p = dropWhile (\<lambda>c. c = 47) (dropWhile (\<lambda>c. c \<noteq> 47 \<and> c \<noteq> 0) ?q)"
    using e by (simp only: q h if_False split: if_split_asm) (simp only: option.inject prod.inject option.distinct simp_thms)+
  have "hd ?q \<noteq> 47" using hd_dropWhile[OF q] .
  with q h obtain c r where r: "?q = c # r" "c \<noteq> 47" "c \<noteq> 0" by (metis list.exhaust_sel)
  then have "p = dropWhile (\<lambda>c. c = 47) (dropWhile (\<lambda>c. c \<noteq> 47 \<and> c \<noteq> 0) r)" using p by simp
  then have "length p \<le> length r" using order_trans[OF length_dropWhile_le length_dropWhile_le] by simp
  moreover have "length ?q \<le> length path" by (rule length_dropWhile_le)
  ultimately show ?thesis using r(1) by simp
qed

text \<open>The loop of \<^verbatim>\<open>namex\<close>; the buffer \<^verbatim>\<open>name\<close> is returned with the inode, for \<^verbatim>\<open>nameiparent\<close>.\<close>

function namex_loop :: "u8 list \<Rightarrow> bool \<Rightarrow> u8 list \<Rightarrow> nat \<Rightarrow> 'z fsst_scheme \<Rightarrow> ('z fsst_scheme, nat option \<times> u8 list) res" where
  "namex_loop path parent name ip s =
     (case skipelem path name of
        None \<Rightarrow> Undef ''path is not a string''
      | Some (None, name) \<Rightarrow>
         (if parent then bnd (iput ip s) (\<lambda>_ s. Ok (None, name) s) else Ok (Some ip, name) s)
      | Some (Some path, name) \<Rightarrow>
          bnd (ilock (Some ip) s) (\<lambda>_ s.
          if i_type (inodes s ip) \<noteq> T_DIR then bnd (iunlockput ip s) (\<lambda>_ s. Ok (None, name) s)
          else if parent \<and> hd path = 0 then bnd (iunlock (Some ip) s) (\<lambda>_ s. Ok (Some ip, name) s)
          else
            bnd (dirlookup ip name s) (\<lambda>r s.
              case r of
                None \<Rightarrow> bnd (iunlockput ip s) (\<lambda>_ s. Ok (None, name) s)
              | Some (nxt, _) \<Rightarrow> bnd (iunlockput ip s) (\<lambda>_ s. namex_loop path parent name nxt s))))"
  by pat_completeness auto
termination
proof (relation "measure (\<lambda>(path, parent, name, ip, s). length path)")
  show "((p, parent, name', nxt, t), path, parent, name, ip, s) \<in> measure (\<lambda>(path, parent, name, ip, s). length path)"
    if "skipelem path name = Some x" "(r, name') = x" "r = Some p"
    for path parent name ip x r name' p nxt and s t :: "'z fsst_scheme"
    using skipelem_shorter[of path name p name'] that by (simp only: in_measure prod.case)
qed simp

declare namex_loop.simps [simp del]

definition namex :: "u8 list \<Rightarrow> bool \<Rightarrow> u8 list \<Rightarrow> 'z fsst_scheme \<Rightarrow> ('z fsst_scheme, nat option \<times> u8 list) res" where
  "namex path parent name s =
     (if path = [] then Undef ''path is not a string''
      else if hd path = 47 then bnd (iget ROOTDEV ROOTINO s) (\<lambda>ip s. namex_loop path parent name ip s)
      else with_proc (\<lambda>p s.
        case p_cwd (ptable s p) of
          None \<Rightarrow> Undef ''cwd is null''
        | Some cwd \<Rightarrow> let (ip, s) = idup cwd s in namex_loop path parent name ip s) s)"

definition namei :: "u8 list \<Rightarrow> 'z fsst_scheme \<Rightarrow> ('z fsst_scheme, nat option) res" where
  "namei path s = bnd (namex path False (replicate DIRSIZ 0) s) (\<lambda>(ip, _) s. Ok ip s)"

definition nameiparent :: "u8 list \<Rightarrow> u8 list \<Rightarrow> 'z fsst_scheme \<Rightarrow> ('z fsst_scheme, nat option \<times> u8 list) res" where
  "nameiparent path name s = namex path True name s"

end
