(* ===== verification/File.thy ===== *)
theory File
  imports Dir
begin

text \<open>
  Open files and pipes: \<^verbatim>\<open>kernel/file.c\<close> and \<^verbatim>\<open>kernel/pipe.c\<close>. A \<^verbatim>\<open>struct file *\<close> is an index of the file table. A pipe lives in a page
  from \<^verbatim>\<open>kalloc\<close>; its fields are kept beside physical memory, at the address of that page. The two waiting loops have
  their position as an argument, so that a process that slept in them goes on by calling them again. \<open>Pipe_spec\<close> shows that a
  pipe is a queue of bytes.
\<close>

abbreviation (input) NFILE :: nat where "NFILE \<equiv> 100"
abbreviation (input) NDEV :: nat where "NDEV \<equiv> 10"
abbreviation (input) PIPESIZE :: nat where "PIPESIZE \<equiv> 512"

datatype fdtype = FD_NONE | FD_PIPE | FD_INODE | FD_DEVICE

record kfile =
  f_type :: fdtype
  f_ref :: cint
  f_readable :: u8
  f_writable :: u8
  f_pipe :: u64
  f_ip :: "nat option"
  f_off :: u32
  f_major :: u16

record pipe =
  pi_data :: "nat \<Rightarrow> u8"
  nread :: u32
  nwrite :: u32
  readopen :: cint
  writeopen :: cint

record filest = fsst +
  files :: "nat \<Rightarrow> kfile"
  pipes :: "u64 \<Rightarrow> pipe"

definition upd_file :: "nat \<Rightarrow> (kfile \<Rightarrow> kfile) \<Rightarrow> 'z filest_scheme \<Rightarrow> 'z filest_scheme" where
  "upd_file f g s = s\<lparr>files := (files s)(f := g (files s f))\<rparr>"

definition upd_pipe :: "u64 \<Rightarrow> (pipe \<Rightarrow> pipe) \<Rightarrow> 'z filest_scheme \<Rightarrow> 'z filest_scheme" where
  "upd_pipe a g s = s\<lparr>pipes := (pipes s)(a := g (pipes s a))\<rparr>"

definition pipe_idx :: "u32 \<Rightarrow> nat" where
  "pipe_idx c = unat c mod PIPESIZE"

section \<open>The file table\<close>

definition filealloc :: "'z filest_scheme \<Rightarrow> nat option \<times> 'z filest_scheme" where
  "filealloc s =
     (case first_index (\<lambda>f. f_ref (files s f) = 0) NFILE of
        None \<Rightarrow> (None, s)
      | Some f \<Rightarrow> (Some f, upd_file f (\<lambda>x. x\<lparr>f_ref := 1\<rparr>) s))"

definition filedup :: "nat \<Rightarrow> 'z filest_scheme \<Rightarrow> ('z filest_scheme, nat) res" where
  "filedup f s =
     (if sint (f_ref (files s f)) < 1 then Panic ''filedup'' else Ok f (upd_file f (\<lambda>x. x\<lparr>f_ref := f_ref x + 1\<rparr>) s))"

definition pipeclose :: "u64 \<Rightarrow> bool \<Rightarrow> 'z filest_scheme \<Rightarrow> ('z filest_scheme, unit) res" where
  "pipeclose a writable s =
     (let s = (if writable then wakeup (Some (Ch_nread a)) (upd_pipe a (\<lambda>x. x\<lparr>writeopen := 0\<rparr>) s)
               else wakeup (Some (Ch_nwrite a)) (upd_pipe a (\<lambda>x. x\<lparr>readopen := 0\<rparr>) s)) in
      if readopen (pipes s a) = 0 \<and> writeopen (pipes s a) = 0 then kfree a s else Ok () s)"

definition fileclose :: "nat \<Rightarrow> 'z filest_scheme \<Rightarrow> ('z filest_scheme, unit) res" where
  "fileclose f s =
     (if sint (f_ref (files s f)) < 1 then Panic ''fileclose''
      else
        let s = upd_file f (\<lambda>x. x\<lparr>f_ref := f_ref x - 1\<rparr>) s in
        if 0 < sint (f_ref (files s f)) then Ok () s
        else
          let ff = files s f;
              s = upd_file f (\<lambda>x. x\<lparr>f_ref := 0, f_type := FD_NONE\<rparr>) s in
          case f_type ff of
            FD_PIPE \<Rightarrow> pipeclose (f_pipe ff) (f_writable ff \<noteq> 0) s
          | FD_NONE \<Rightarrow> Ok () s
          | _ \<Rightarrow>
             (case f_ip ff of
                None \<Rightarrow> Undef ''iput(0)''
              | Some ip \<Rightarrow>
                  bnd (begin_op s) (\<lambda>_ s.
                  bnd (iput ip s) (\<lambda>_ s.
                  end_op s))))"

text \<open>The bytes of a \<^verbatim>\<open>struct stat\<close>; the four of its padding are whatever was on the stack.\<close>

definition stat_bytes :: "u8 list \<Rightarrow> stat \<Rightarrow> u8 list" where
  "stat_bytes pad x = bytes32 (st_dev x) @ bytes32 (st_ino x) @ bytes16 (st_type x) @ bytes16 (st_nlink x) @ pad @ bytes64 (st_size x)"

definition filestat :: "u8 list \<Rightarrow> nat \<Rightarrow> u64 \<Rightarrow> 'z filest_scheme \<Rightarrow> ('z filest_scheme, cint) res" where
  "filestat pad f addr s =
     (if f_type (files s f) = FD_INODE \<or> f_type (files s f) = FD_DEVICE then
        bnd (ilock (f_ip (files s f)) s) (\<lambda>_ s.
        case f_ip (files s f) of
          None \<Rightarrow> Undef ''stati(0)''
        | Some ip \<Rightarrow>
            let x = stati ip s in
            bnd (iunlock (Some ip) s) (\<lambda>_.
            with_proc (\<lambda>p s.
            bnd (copyout (p_pagetable (ptable s p)) addr (stat_bytes pad x) s) (\<lambda>r s.
            if sint r < 0 then Ok (- 1) s else Ok 0 s))))
      else Ok (- 1) s)"

section \<open>Pipes\<close>

text \<open>The loop of \<^verbatim>\<open>pipewrite\<close> at the index \<open>i\<close>, with \<open>k\<close> bytes to go.\<close>

fun pipewrite_loop :: "nat \<Rightarrow> u64 \<Rightarrow> u64 \<Rightarrow> nat \<Rightarrow> nat \<Rightarrow> 'z filest_scheme \<Rightarrow> ('z filest_scheme, cint) res" where
  "pipewrite_loop pr a addr i 0 s = Ok (of_nat i) (wakeup (Some (Ch_nread a)) s)"
| "pipewrite_loop pr a addr i (Suc k) s =
     (if readopen (pipes s a) = 0 \<or> killed pr s \<noteq> 0 then Ok (- 1) s
      else if nwrite (pipes s a) = nread (pipes s a) + of_nat PIPESIZE then sleep (Ch_nwrite a) (wakeup (Some (Ch_nread a)) s)
      else
        bnd (copyin (p_pagetable (ptable s pr)) (addr + of_nat i) 1 s) (\<lambda>(r, bs) s.
          if r = - 1 then Ok (of_nat i) (wakeup (Some (Ch_nread a)) s)
          else
            let s = upd_pipe a (\<lambda>x. x\<lparr>pi_data := (pi_data x)(pipe_idx (nwrite x) := hd bs), nwrite := nwrite x + 1\<rparr>) s in
            pipewrite_loop pr a addr (Suc i) k s))"

definition pipewrite :: "u64 \<Rightarrow> u64 \<Rightarrow> cint \<Rightarrow> 'z filest_scheme \<Rightarrow> ('z filest_scheme, cint) res" where
  "pipewrite a addr n = with_proc (\<lambda>pr s. pipewrite_loop pr a addr 0 (nat (sint n)) s)"

fun piperead_loop :: "nat \<Rightarrow> u64 \<Rightarrow> u64 \<Rightarrow> nat \<Rightarrow> nat \<Rightarrow> 'z filest_scheme \<Rightarrow> ('z filest_scheme, cint) res" where
  "piperead_loop pr a addr i 0 s = Ok (of_nat i) (wakeup (Some (Ch_nwrite a)) s)"
| "piperead_loop pr a addr i (Suc k) s =
     (if nread (pipes s a) = nwrite (pipes s a) then Ok (of_nat i) (wakeup (Some (Ch_nwrite a)) s)
      else
        let ch = pi_data (pipes s a) (pipe_idx (nread (pipes s a)));
            s = upd_pipe a (\<lambda>x. x\<lparr>nread := nread x + 1\<rparr>) s in
        bnd (copyout (p_pagetable (ptable s pr)) (addr + of_nat i) [ch] s) (\<lambda>r s.
          if r = - 1 then Ok (of_nat i) (wakeup (Some (Ch_nwrite a)) s)
          else piperead_loop pr a addr (Suc i) k s))"

definition piperead :: "u64 \<Rightarrow> u64 \<Rightarrow> cint \<Rightarrow> 'z filest_scheme \<Rightarrow> ('z filest_scheme, cint) res" where
  "piperead a addr n = with_proc (\<lambda>pr s.
     if nread (pipes s a) = nwrite (pipes s a) \<and> writeopen (pipes s a) \<noteq> 0
     then (if killed pr s \<noteq> 0 then Ok (- 1) s else sleep (Ch_nread a) s)
     else piperead_loop pr a addr 0 (nat (sint n)) s)"

section \<open>Reading and writing\<close>

definition dev_ok :: "u16 \<Rightarrow> (nat \<Rightarrow> devfn option) \<Rightarrow> bool" where
  "dev_ok major sw \<longleftrightarrow> 0 \<le> sint major \<and> sint major < int NDEV \<and> sw (unat major) \<noteq> None"

text \<open>The device routine called through the switch, with a user address.\<close>

definition call_dev :: "devfn \<Rightarrow> u64 \<Rightarrow> cint \<Rightarrow> 'z conss_scheme \<Rightarrow> ('z conss_scheme, cint) res" where
  "call_dev fn addr n = (case fn of Fn_consoleread \<Rightarrow> consoleread (Dst_user addr) n | Fn_consolewrite \<Rightarrow> consolewrite (Src_user addr) n)"

definition fileread :: "nat \<Rightarrow> u64 \<Rightarrow> cint \<Rightarrow> 'z filest_scheme \<Rightarrow> ('z filest_scheme, cint) res" where
  "fileread f addr n s =
     (if f_readable (files s f) = 0 then Ok (- 1) s
      else case f_type (files s f) of
        FD_PIPE \<Rightarrow> piperead (f_pipe (files s f)) addr n s
      | FD_DEVICE \<Rightarrow>
         (if \<not> dev_ok (f_major (files s f)) (devsw_read s) then Ok (- 1) s
          else call_dev (the (devsw_read s (unat (f_major (files s f))))) addr n s)
      | FD_INODE \<Rightarrow>
          bnd (ilock (f_ip (files s f)) s) (\<lambda>_ s.
          case f_ip (files s f) of
            None \<Rightarrow> Undef ''readi(0)''
          | Some ip \<Rightarrow>
              bnd (readi ip (Dst_user addr) (f_off (files s f)) n s) (\<lambda>(r, _) s.
              let s = (if 0 < sint r then upd_file f (\<lambda>x. x\<lparr>f_off := f_off x + r\<rparr>) s else s) in
              bnd (iunlock (Some ip) s) (\<lambda>_ s. Ok r s)))
      | FD_NONE \<Rightarrow> Panic ''fileread'')"

abbreviation (input) WRITE_MAX :: nat where "WRITE_MAX \<equiv> 3072"

text \<open>The loop of \<^verbatim>\<open>filewrite\<close>: the value of \<^verbatim>\<open>i\<close> it ends with, from \<open>i\<close> on.\<close>

function filewrite_loop :: "nat \<Rightarrow> nat \<Rightarrow> u64 \<Rightarrow> nat \<Rightarrow> nat \<Rightarrow> 'z filest_scheme \<Rightarrow> ('z filest_scheme, nat) res" where
  "filewrite_loop f ip addr n i s =
     (if i < n then
        let n1 = min (n - i) WRITE_MAX in
        bnd (begin_op s) (\<lambda>_ s.
        bnd (ilock (Some ip) s) (\<lambda>_ s.
        bnd (writei ip (Src_user (addr + of_nat i)) (f_off (files s f)) (of_nat n1) s) (\<lambda>r s.
        let s = (if 0 < sint r then upd_file f (\<lambda>x. x\<lparr>f_off := f_off x + r\<rparr>) s else s) in
        bnd (iunlock (Some ip) s) (\<lambda>_ s.
        bnd (end_op s) (\<lambda>_ s.
        if r \<noteq> of_nat n1 then Ok i s else filewrite_loop f ip addr n (i + n1) s)))))
      else Ok i s)"
  by auto
termination
proof (relation "measure (\<lambda>(f, ip, addr, n, i, s). n - i)")
  show "((f, ip, addr, n, i + x, t), f, ip, addr, n, i, s) \<in> measure (\<lambda>(f, ip, addr, n, i, s). n - i)"
    if "i < n" "x = min (n - i) WRITE_MAX" for f ip addr n i x and s t :: "'z filest_scheme"
    using that by (simp only: in_measure prod.case min_def split: if_split) linarith
qed simp

declare filewrite_loop.simps [simp del]

definition filewrite :: "nat \<Rightarrow> u64 \<Rightarrow> cint \<Rightarrow> 'z filest_scheme \<Rightarrow> ('z filest_scheme, cint) res" where
  "filewrite f addr n s =
     (if f_writable (files s f) = 0 then Ok (- 1) s
      else case f_type (files s f) of
        FD_PIPE \<Rightarrow> pipewrite (f_pipe (files s f)) addr n s
      | FD_DEVICE \<Rightarrow>
         (if \<not> dev_ok (f_major (files s f)) (devsw_write s) then Ok (- 1) s
          else call_dev (the (devsw_write s (unat (f_major (files s f))))) addr n s)
      | FD_INODE \<Rightarrow>
         (if sint n < 0 then Ok (- 1) s
          else case f_ip (files s f) of
            None \<Rightarrow> if n = 0 then Ok 0 s else Undef ''writei(0)''
          | Some ip \<Rightarrow>
              bnd (filewrite_loop f ip addr (nat (sint n)) 0 s) (\<lambda>i s. Ok (if i = nat (sint n) then n else - 1) s))
      | FD_NONE \<Rightarrow> Panic ''filewrite'')"

text \<open>
  \<^verbatim>\<open>pipealloc\<close> returns the two files, or \<open>None\<close> for -1. The page of the pipe is not cleared: its other bytes are what \<^verbatim>\<open>kalloc\<close> left.
\<close>

definition pipealloc_bad :: "nat option \<Rightarrow> nat option \<Rightarrow> 'z filest_scheme \<Rightarrow> ('z filest_scheme, (nat \<times> nat) option) res" where
  "pipealloc_bad f0 f1 s =
     bnd (case f0 of None \<Rightarrow> Ok () s | Some f \<Rightarrow> fileclose f s) (\<lambda>_ s.
     bnd (case f1 of None \<Rightarrow> Ok () s | Some f \<Rightarrow> fileclose f s) (\<lambda>_ s.
     Ok None s))"

definition pipealloc :: "'z filest_scheme \<Rightarrow> ('z filest_scheme, (nat \<times> nat) option) res" where
  "pipealloc s =
     (case filealloc s of
        (None, s) \<Rightarrow> pipealloc_bad None None s
      | (Some f0, s) \<Rightarrow>
         (case filealloc s of
            (None, s) \<Rightarrow> pipealloc_bad (Some f0) None s
          | (Some f1, s) \<Rightarrow>
              bnd (kalloc s) (\<lambda>a s.
                if a = 0 then pipealloc_bad (Some f0) (Some f1) s
                else
                  let s = upd_pipe a (\<lambda>x. x\<lparr>readopen := 1, writeopen := 1, nwrite := 0, nread := 0\<rparr>) s;
                      s = upd_file f0 (\<lambda>x. x\<lparr>f_type := FD_PIPE, f_readable := 1, f_writable := 0, f_pipe := a\<rparr>) s;
                      s = upd_file f1 (\<lambda>x. x\<lparr>f_type := FD_PIPE, f_readable := 0, f_writable := 1, f_pipe := a\<rparr>) s in
                  Ok (Some (f0, f1)) s)))"

end
