(* ===== verification/Float32.thy ===== *)
theory Float32
  imports Prelude
begin

text \<open>
  The single-precision arithmetic the schedulers use: conversions from integers, division, multiplication,
  comparison and the conversion to \<^verbatim>\<open>int\<close>, as rational numbers rounded to 24 significant bits, ties to even. The
  values that occur are far inside the exponent range, so there are no subnormal numbers and no overflow; a
  division by zero gives an infinity or NaN. Rounding is monotone and keeps the powers of two.
\<close>

datatype flt = NaN | Inf bool | Fin rat

fun nbits :: "nat \<Rightarrow> nat" where
  "nbits n = (if n = 0 then 0 else Suc (nbits (n div 2)))"

declare nbits.simps [simp del]

definition pow2 :: "int \<Rightarrow> rat" where
  "pow2 k = (if 0 \<le> k then 2 ^ nat k else 1 / 2 ^ nat (- k))"

text \<open>The exponent of a positive number: \<open>pow2 (fexp x) \<le> x < pow2 (fexp x + 1)\<close>.\<close>

definition fexp :: "rat \<Rightarrow> int" where
  "fexp x = (if 1 \<le> x then int (nbits (nat \<lfloor>x\<rfloor>)) - 1 else - int (nbits (nat \<lceil>1 / x\<rceil> - 1)))"

definition round_even :: "rat \<Rightarrow> int" where
  "round_even x =
     (let f = \<lfloor>x\<rfloor>; d = x - of_int f in
      if d < 1 / 2 then f else if d > 1 / 2 then f + 1 else if even f then f else f + 1)"

definition rnd_pos :: "rat \<Rightarrow> rat" where
  "rnd_pos x = (let e = fexp x - 23 in of_int (round_even (x / pow2 e)) * pow2 e)"

definition rnd :: "rat \<Rightarrow> rat" where
  "rnd x = (if x = 0 then 0 else if x < 0 then - rnd_pos (- x) else rnd_pos x)"

definition flt_of_uint :: "u32 \<Rightarrow> flt" where
  "flt_of_uint w = Fin (rnd (of_nat (unat w)))"

definition flt_of_int :: "cint \<Rightarrow> flt" where
  "flt_of_int w = Fin (rnd (of_int (sint w)))"

fun fdiv :: "flt \<Rightarrow> flt \<Rightarrow> flt" where
  "fdiv (Fin a) (Fin b) = (if b = 0 then if a = 0 then NaN else Inf (a < 0) else Fin (rnd (a / b)))"
| "fdiv (Inf s) (Fin b) = Inf (s \<noteq> (b < 0))"
| "fdiv (Fin a) (Inf s) = Fin 0"
| "fdiv _ _ = NaN"

fun fmul :: "flt \<Rightarrow> flt \<Rightarrow> flt" where
  "fmul (Fin a) (Fin b) = Fin (rnd (a * b))"
| "fmul (Inf s) (Fin b) = (if b = 0 then NaN else Inf (s \<noteq> (b < 0)))"
| "fmul (Fin a) (Inf s) = (if a = 0 then NaN else Inf (s \<noteq> (a < 0)))"
| "fmul (Inf s) (Inf t) = Inf (s \<noteq> t)"
| "fmul _ _ = NaN"

fun flt_less :: "flt \<Rightarrow> flt \<Rightarrow> bool" where
  "flt_less (Fin a) (Fin b) = (a < b)"
| "flt_less (Inf s) (Fin b) = s"
| "flt_less (Fin a) (Inf s) = (\<not> s)"
| "flt_less (Inf s) (Inf t) = (s \<and> \<not> t)"
| "flt_less _ _ = False"

text \<open>The conversion to \<^verbatim>\<open>int\<close> drops the fraction; it has no meaning for values an \<^verbatim>\<open>int\<close> cannot hold.\<close>

fun int_of_flt :: "flt \<Rightarrow> cint option" where
  "int_of_flt (Fin a) =
     (let i = (if 0 \<le> a then \<lfloor>a\<rfloor> else \<lceil>a\<rceil>) in if - (2 ^ 31) \<le> i \<and> i < 2 ^ 31 then Some (of_int i) else None)"
| "int_of_flt _ = None"

section \<open>Rounding\<close>

lemma nbits_Suc: "0 < n \<Longrightarrow> nbits n = Suc (nbits (n div 2))"
  by (subst nbits.simps) simp

lemma nbits_bounds: "0 < n \<Longrightarrow> 2 ^ (nbits n - 1) \<le> n \<and> n < 2 ^ nbits n"
proof (induction n rule: less_induct)
  case (less n)
  note s = nbits_Suc[OF less.prems]
  show ?case
  proof (cases "n div 2 = 0")
    case True
    then have "n = 1" using less.prems by linarith
    then show ?thesis using s True by (simp add: nbits.simps[of 0])
  next
    case False
    then have p: "0 < n div 2" by simp
    have h: "2 ^ (nbits (n div 2) - 1) \<le> n div 2" "n div 2 < 2 ^ nbits (n div 2)" using less.IH[of "n div 2"] less.prems p by auto
    have "(2 :: nat) ^ nbits (n div 2) = 2 * 2 ^ (nbits (n div 2) - 1)" using nbits_Suc[OF p] by simp
    with h show ?thesis unfolding s by simp linarith
  qed
qed

lemma nbits_0 [simp]: "nbits 0 = 0"
  by (simp add: nbits.simps)

lemma pow2_pos [simp]: "0 < pow2 k"
  by (simp add: pow2_def)

lemma pow2_add: "pow2 (j + k) = pow2 j * pow2 k"
proof -
  have e: "pow2 k = 2 powi k" for k
    unfolding pow2_def power_int_def by (simp only: inverse_eq_divide power_one_over)
  show ?thesis unfolding e by (rule power_int_add) simp
qed

lemma pow2_mono: "j \<le> k \<Longrightarrow> pow2 j \<le> pow2 k"
proof -
  assume a: "j \<le> k"
  have "pow2 k = pow2 j * pow2 (k - j)" using pow2_add[of j "k - j"] by simp
  moreover have "1 \<le> pow2 (k - j)" using a by (simp add: pow2_def)
  ultimately show ?thesis using pow2_pos[of j] by simp
qed

lemma pow2_nat [simp]: "pow2 (int n) = 2 ^ n"
  by (simp add: pow2_def)

lemma pow2_neg: "pow2 (- int n) = 1 / 2 ^ n"
  by (simp add: pow2_def)

lemma fexp_bounds:
  assumes x: "0 < x"
  shows "pow2 (fexp x) \<le> x" and "x < pow2 (fexp x + 1)"
proof -
  have "pow2 (fexp x) \<le> x \<and> x < pow2 (fexp x + 1)"
  proof (cases "1 \<le> x")
    case True
    let ?n = "nat \<lfloor>x\<rfloor>"
    have n: "0 < ?n" "of_nat ?n \<le> x" "x < of_nat ?n + 1" using True by linarith+
    note b = nbits_bounds[OF n(1)]
    have e: "fexp x = int (nbits ?n - 1)" "fexp x + 1 = int (nbits ?n)"
      using True n(1) by (auto simp: fexp_def nbits_Suc)
    have "(2 :: rat) ^ (nbits ?n - 1) \<le> of_nat ?n" using b by (metis of_nat_le_iff of_nat_numeral of_nat_power)
    moreover have "of_nat (?n + 1) \<le> (2 :: rat) ^ nbits ?n" using b by (metis Suc_eq_plus1 Suc_leI of_nat_le_iff of_nat_numeral of_nat_power)
    moreover have "pow2 (fexp x) = 2 ^ (nbits ?n - 1)" unfolding e(1) by simp
    moreover have "pow2 (fexp x + 1) = 2 ^ nbits ?n" unfolding e(2) by simp
    ultimately show ?thesis using n(2,3) unfolding of_nat_add of_nat_1 by linarith
  next
    case False
    let ?n = "nat \<lceil>1 / x\<rceil> - 1"
    have y: "1 < 1 / x" using False x by simp
    then have n: "0 < ?n" "of_nat ?n < 1 / x" "1 / x \<le> of_nat ?n + 1" by linarith+
    note b = nbits_bounds[OF n(1)]
    have e: "fexp x = - int (nbits ?n)" "fexp x + 1 = - int (nbits ?n - 1)"
      using False n(1) by (auto simp: fexp_def nbits_Suc)
    have "(2 :: rat) ^ (nbits ?n - 1) \<le> of_nat ?n" using b by (metis of_nat_le_iff of_nat_numeral of_nat_power)
    then have lo: "(2 :: rat) ^ (nbits ?n - 1) < 1 / x" using n(2) by linarith
    have "of_nat (?n + 1) \<le> (2 :: rat) ^ nbits ?n" using b by (metis Suc_eq_plus1 Suc_leI of_nat_le_iff of_nat_numeral of_nat_power)
    then have hi: "1 / x \<le> (2 :: rat) ^ nbits ?n" using n(3) unfolding of_nat_add of_nat_1 by linarith
    have "pow2 (fexp x) = 1 / 2 ^ nbits ?n" unfolding e(1) by (rule pow2_neg)
    moreover have "pow2 (fexp x + 1) = 1 / 2 ^ (nbits ?n - 1)" unfolding e(2) by (rule pow2_neg)
    moreover have "1 / y \<le> x" if "1 / x \<le> y" "0 < y" for y :: rat using that x by (simp add: field_simps)
    moreover have "x < 1 / y" if "y < 1 / x" "0 < y" for y :: rat using that x by (simp add: field_simps)
    ultimately show ?thesis using lo hi by simp
  qed
  then show "pow2 (fexp x) \<le> x" "x < pow2 (fexp x + 1)" by auto
qed

lemma fexp_mono:
  assumes "0 < x" and "x \<le> y"
  shows "fexp x \<le> fexp y"
proof (rule ccontr)
  assume "\<not> fexp x \<le> fexp y"
  then have "pow2 (fexp y + 1) \<le> pow2 (fexp x)" by (intro pow2_mono) simp
  moreover have "y < pow2 (fexp y + 1)" "pow2 (fexp x) \<le> x" using fexp_bounds assms by simp_all
  ultimately show False using assms by simp
qed

lemma round_even_int [simp]: "round_even (of_int n) = n"
  by (simp add: round_even_def)

lemma round_even_mono: "x \<le> y \<Longrightarrow> round_even x \<le> round_even y"
proof -
  assume a: "x \<le> y"
  then have f: "\<lfloor>x\<rfloor> \<le> \<lfloor>y\<rfloor>" by (rule floor_mono)
  have r: "\<lfloor>z\<rfloor> \<le> round_even z" "round_even z \<le> \<lfloor>z\<rfloor> + 1" for z by (simp_all add: round_even_def Let_def)
  show ?thesis
  proof (cases "\<lfloor>x\<rfloor> = \<lfloor>y\<rfloor>")
    case True
    then show ?thesis using a by (auto simp: round_even_def Let_def)
  next
    case False
    with f have "\<lfloor>x\<rfloor> + 1 \<le> \<lfloor>y\<rfloor>" by simp
    with r[of x] r[of y] show ?thesis by linarith
  qed
qed

lemma rnd_pos_bounds:
  assumes "0 < x"
  shows "pow2 (fexp x) \<le> rnd_pos x" and "rnd_pos x \<le> pow2 (fexp x + 1)"
proof -
  let ?e = "fexp x - 23"
  have p: "pow2 (fexp x) = 2 ^ 23 * pow2 ?e" "pow2 (fexp x + 1) = 2 ^ 24 * pow2 ?e"
    using pow2_add[of 23 ?e] pow2_add[of 24 ?e] by (simp_all add: pow2_def[of 23] pow2_def[of 24] add.commute)
  have "of_int (2 ^ 23) \<le> x / pow2 ?e" "x / pow2 ?e \<le> of_int (2 ^ 24)"
    using fexp_bounds[OF assms] p by (simp_all add: field_simps)
  then have "2 ^ 23 \<le> round_even (x / pow2 ?e)" "round_even (x / pow2 ?e) \<le> 2 ^ 24"
    using round_even_mono by (metis round_even_int)+
  then have "of_int (2 ^ 23) \<le> (of_int (round_even (x / pow2 ?e)) :: rat)" "(of_int (round_even (x / pow2 ?e)) :: rat) \<le> of_int (2 ^ 24)"
    by (simp_all only: of_int_le_iff)
  then show "pow2 (fexp x) \<le> rnd_pos x" "rnd_pos x \<le> pow2 (fexp x + 1)"
    unfolding p rnd_pos_def Let_def by (simp_all add: mult_right_mono)
qed

lemma rnd_mono:
  assumes "0 \<le> x" and "x \<le> y"
  shows "rnd x \<le> rnd y"
proof (cases "x = 0")
  case True
  have "0 < rnd_pos y" if "0 < y" using rnd_pos_bounds(1)[OF that] pow2_pos[of "fexp y"] by linarith
  with True assms show ?thesis by (auto simp: rnd_def order_le_less)
next
  case False
  with assms have x: "0 < x" and y: "0 < y" by auto
  have "rnd_pos x \<le> rnd_pos y"
  proof (cases "fexp x = fexp y")
    case True
    have "x / pow2 (fexp y - 23) \<le> y / pow2 (fexp y - 23)" using assms by (simp add: divide_right_mono less_imp_le)
    then show ?thesis unfolding rnd_pos_def True Let_def
      by (intro mult_right_mono) (auto intro!: round_even_mono simp: less_imp_le)
  next
    case False
    then have "fexp x + 1 \<le> fexp y" using fexp_mono[OF x assms(2)] by simp
    then have "pow2 (fexp x + 1) \<le> pow2 (fexp y)" by (rule pow2_mono)
    with rnd_pos_bounds[OF x] rnd_pos_bounds[OF y] show ?thesis by linarith
  qed
  with x y show ?thesis by (simp add: rnd_def)
qed

lemma rnd_nonneg: "0 \<le> x \<Longrightarrow> 0 \<le> rnd x"
  using rnd_mono[of 0 x] by (simp add: rnd_def)

lemma rnd_pos': "0 < x \<Longrightarrow> 0 < rnd x"
  using rnd_pos_bounds(1)[of x] less_le_trans[OF pow2_pos, of "fexp x"] by (simp add: rnd_def)

lemma fexp_1: "fexp 1 = 0"
  by (simp add: fexp_def nbits.simps)

lemma rnd_1 [simp]: "rnd 1 = 1"
proof -
  have "(1 :: rat) / pow2 (- 23) = of_int (2 ^ 23)" by (simp add: pow2_def)
  then have "round_even (1 / pow2 (- 23)) = 2 ^ 23" by (simp only: round_even_int)
  then show ?thesis by (simp add: rnd_def rnd_pos_def fexp_1 Let_def) (simp add: pow2_def)
qed

lemma rnd_le_1: "0 \<le> x \<Longrightarrow> x \<le> 1 \<Longrightarrow> rnd x \<le> 1"
  using rnd_mono[of x 1] by simp

end
