(* ===== verification/Sched.thy ===== *)
theory Sched
  imports Proc Float32
begin

text \<open>
  The schedulers of \<^verbatim>\<open>kernel/proc.c\<close>. \<^verbatim>\<open>scheduler\<close> never returns, so each policy is given by one turn of its loop:
  the choice of a process and the state in which the CPU is switched to it (\<open>switch_to\<close>), and what the loop does when the
  process comes back (\<open>switch_back\<close>). The scans of the FCFS and priority schedulers also carry the list of process locks the
  CPU holds, since these loops keep the lock of the best process so far while they look at the others.
\<close>

definition switch_to :: "nat \<Rightarrow> 'z procs_scheme \<Rightarrow> 'z procs_scheme" where
  "switch_to p s = upd_cpu (\<lambda>c. c\<lparr>cpu_proc := Some p\<rparr>) (upd_proc p (\<lambda>q. q\<lparr>p_state := RUNNING\<rparr>) s)"

definition switch_back :: "'z procs_scheme \<Rightarrow> 'z procs_scheme" where
  "switch_back s = upd_cpu (\<lambda>c. c\<lparr>cpu_proc := None\<rparr>) s"

section \<open>Round robin\<close>

text \<open>The loop at the slot \<open>p\<close>: the process it runs, if any, and the slot it looks at next.\<close>

definition rr_turn :: "nat \<Rightarrow> 'z procs_scheme \<Rightarrow> nat option \<times> nat \<times> 'z procs_scheme" where
  "rr_turn p s =
     (let n = (if Suc p < NPROC then Suc p else 0) in
      if p_state (ptable s p) = RUNNABLE then (Some p, n, switch_to p s) else (None, n, s))"

section \<open>First come, first served\<close>

record fcfs_scan =
  min_creation_time :: cint
  first_come_process :: "nat option"
  fcfs_locked :: "nat list"

definition fcfs_body :: "'z procs_scheme \<Rightarrow> nat \<Rightarrow> fcfs_scan \<Rightarrow> fcfs_scan" where
  "fcfs_body s p v =
     (let v = v\<lparr>fcfs_locked := p # fcfs_locked v\<rparr>;
          q = ptable s p;
          unlocked = v\<lparr>fcfs_locked := remove1 p (fcfs_locked v)\<rparr> in
      if p_state q = RUNNABLE then
        (case first_come_process v of
           None \<Rightarrow> v\<lparr>min_creation_time := ctime q, first_come_process := Some p\<rparr>
         | Some f \<Rightarrow>
             if min_creation_time v > ctime q
             then v\<lparr>min_creation_time := ctime q, fcfs_locked := remove1 f (fcfs_locked v), first_come_process := Some p\<rparr>
             else unlocked)
      else unlocked)"

definition fcfs_choose :: "'z procs_scheme \<Rightarrow> fcfs_scan" where
  "fcfs_choose s = fold (fcfs_body s) [0..<NPROC] \<lparr>min_creation_time = 0, first_come_process = None, fcfs_locked = []\<rparr>"

definition fcfs_turn :: "'z procs_scheme \<Rightarrow> nat option \<times> 'z procs_scheme" where
  "fcfs_turn s =
     (case first_come_process (fcfs_choose s) of None \<Rightarrow> (None, s) | Some p \<Rightarrow> (Some p, switch_to p s))"

section \<open>Priorities\<close>

text \<open>
  The priority of a process; \<open>None\<close> when the conversion of the quotient to \<^verbatim>\<open>int\<close> has no meaning or the signed arithmetic
  overflows (\<^verbatim>\<open>set_priority\<close> accepts any \<^verbatim>\<open>int\<close>).
\<close>

definition niceness :: "proc \<Rightarrow> cint option" where
  "niceness q = Option.bind (int_of_flt (fdiv (flt_of_uint (sleep_time q)) (flt_of_uint (sleep_time q + rtime q)))) (\<lambda>n.
     int_fits (sint n * 10))"

definition dynamic_priority :: "proc \<Rightarrow> cint option" where
  "dynamic_priority q =
     Option.bind (niceness q) (\<lambda>n.
     Option.bind (int_fits (sint (static_priority q) - sint n)) (\<lambda>d.
     Option.bind (int_fits (sint d + 5)) (\<lambda>d.
     Some (if sint d < 0 then 0 else if sint d > 100 then 100 else d))))"

record pbs_scan =
  min_dynamic_priority :: cint
  most_priority_process :: "nat option"
  pbs_locked :: "nat list"

definition pbs_body :: "'z procs_scheme \<Rightarrow> nat \<Rightarrow> pbs_scan \<Rightarrow> pbs_scan option" where
  "pbs_body s p v =
     (let v = v\<lparr>pbs_locked := p # pbs_locked v\<rparr>;
          q = ptable s p;
          unlocked = v\<lparr>pbs_locked := remove1 p (pbs_locked v)\<rparr> in
      if p_state q = RUNNABLE then
        (case dynamic_priority q of
           None \<Rightarrow> None
         | Some d \<Rightarrow>
             if sint (min_dynamic_priority v) > sint d
             then Some (v\<lparr>min_dynamic_priority := d, most_priority_process := Some p,
               pbs_locked := (case most_priority_process v of None \<Rightarrow> pbs_locked v | Some f \<Rightarrow> remove1 f (pbs_locked v))\<rparr>)
             else Some unlocked)
      else Some unlocked)"

fun pbs_loop :: "'z procs_scheme \<Rightarrow> nat list \<Rightarrow> pbs_scan \<Rightarrow> pbs_scan option" where
  "pbs_loop s [] v = Some v"
| "pbs_loop s (p # ps) v = (case pbs_body s p v of None \<Rightarrow> None | Some v \<Rightarrow> pbs_loop s ps v)"

definition pbs_choose :: "'z procs_scheme \<Rightarrow> pbs_scan option" where
  "pbs_choose s = pbs_loop s [0..<NPROC] \<lparr>min_dynamic_priority = 500, most_priority_process = None, pbs_locked = []\<rparr>"

definition pbs_turn :: "'z procs_scheme \<Rightarrow> ('z procs_scheme, nat option) res" where
  "pbs_turn s =
     (case pbs_choose s of
        None \<Rightarrow> Undef ''arithmetic of the PBS priority''
      | Some v \<Rightarrow> (case most_priority_process v of None \<Rightarrow> Ok None s | Some p \<Rightarrow> Ok (Some p) (switch_to p s)))"

section \<open>Lottery\<close>

definition custom_random :: "u64 \<Rightarrow> cint \<times> u64" where
  "custom_random ctx =
     (let x = ctx mod 0x7ffffffe + 1;
          hi = x div 127773;
          lo = x mod 127773;
          x = 16807 * lo - 2836 * hi;
          x = (if sint x < 0 then x + 0x7fffffff else x);
          x = x - 1 in
      (ucast x, x))"

definition is_the_process_lucky :: "flt \<Rightarrow> u32 \<Rightarrow> bool" where
  "is_the_process_lucky probability now =
     (let seed = ucast (now mod (2147483647 - 2));
          (r, seed) = custom_random seed;
          scaled_prob = fmul probability (flt_of_int (2147483647 - 2)) in
      flt_less (flt_of_int r) scaled_prob)"

definition total_tickets :: "'z procs_scheme \<Rightarrow> cint" where
  "total_tickets s = fold (\<lambda>t total. if p_state (ptable s t) = RUNNABLE then total + tickets (ptable s t) else total) [0..<NPROC] 0"

definition lbs_turn :: "nat \<Rightarrow> 'z procs_scheme \<Rightarrow> ('z procs_scheme, nat option \<times> nat) res" where
  "lbs_turn p s =
     (let n = (if Suc p < NPROC then Suc p else 0) in
      if p_state (ptable s p) = RUNNABLE then
        let success_probability = fdiv (flt_of_uint (tickets (ptable s p))) (flt_of_int (total_tickets s)) in
        if flt_less success_probability (Fin 0) \<or> flt_less (Fin 1) success_probability
        then Panic ''LBS: success probability out of bounds''
        else if is_the_process_lucky success_probability (ticks s) then Ok (Some p, n) (switch_to p s)
        else Ok (None, n) s
      else Ok (None, n) s)"

section \<open>Giving up the CPU\<close>

text \<open>
  \<^verbatim>\<open>sched\<close> up to its \<^verbatim>\<open>swtch\<close>, with the \<^verbatim>\<open>intena\<close> it saves, and what it does when the process is switched to again; \<open>lk\<close> is
  the address of the lock of the current process.
\<close>

definition sched :: "u64 \<Rightarrow> 'z procs_scheme \<Rightarrow> ('z procs_scheme, cint) res" where
  "sched lk = with_proc (\<lambda>p s.
     if \<not> holding lk s then Panic ''sched p->lock''
     else if noff (mycpu s) \<noteq> 1 then Panic ''sched locks''
     else if p_state (ptable s p) = RUNNING then Panic ''sched running''
     else if intr_get s then Panic ''sched interruptible''
     else Ok (intena (mycpu s)) s)"

definition sched_return :: "cint \<Rightarrow> 'z procs_scheme \<Rightarrow> 'z procs_scheme" where
  "sched_return i s = upd_cpu (\<lambda>c. c\<lparr>intena := i\<rparr>) s"

text \<open>\<^verbatim>\<open>yield\<close> up to \<^verbatim>\<open>sched\<close>: the process may be chosen again at once.\<close>

definition yield :: "'z procs_scheme \<Rightarrow> ('z procs_scheme, unit) res" where
  "yield = with_proc (\<lambda>p s. Ok () (upd_proc p (\<lambda>q. q\<lparr>p_state := RUNNABLE\<rparr>) s))"

section \<open>What the policies choose\<close>

definition runnable :: "'z procs_scheme \<Rightarrow> nat \<Rightarrow> bool" where
  "runnable s p \<longleftrightarrow> p < NPROC \<and> p_state (ptable s p) = RUNNABLE"

text \<open>\<open>best key n s f\<close>: among the first \<open>n\<close> slots, the runnable process with the least key, the first of them.\<close>

definition best :: "(proc \<Rightarrow> 'k :: linorder) \<Rightarrow> nat \<Rightarrow> 'z procs_scheme \<Rightarrow> nat option \<Rightarrow> bool" where
  "best key n s f \<longleftrightarrow>
     (case f of
        None \<Rightarrow> (\<forall>p < n. p_state (ptable s p) \<noteq> RUNNABLE)
      | Some f \<Rightarrow> f < n \<and> p_state (ptable s f) = RUNNABLE
          \<and> (\<forall>p < n. p_state (ptable s p) = RUNNABLE \<longrightarrow> key (ptable s f) \<le> key (ptable s p)
               \<and> (p < f \<longrightarrow> key (ptable s f) < key (ptable s p))))"

lemma best_skip:
  assumes "best key n s f" and "p_state (ptable s n) \<noteq> RUNNABLE
     \<or> (\<exists>g. f = Some g \<and> key (ptable s g) \<le> key (ptable s n))"
  shows "best key (Suc n) s f"
  using assms by (auto simp: best_def less_Suc_eq split: option.splits)

lemma best_take:
  assumes "best key n s f" and "p_state (ptable s n) = RUNNABLE"
    and "f = None \<or> (\<exists>g. f = Some g \<and> key (ptable s n) < key (ptable s g))"
  shows "best key (Suc n) s (Some n)"
proof -
  have "key (ptable s n) < key (ptable s p)" if "p < n" "p_state (ptable s p) = RUNNABLE" for p
    using assms that by (fastforce simp: best_def split: option.splits)
  then show ?thesis using assms(2) by (auto simp: best_def less_Suc_eq less_imp_le)
qed

definition fcfs_inv :: "'z procs_scheme \<Rightarrow> nat \<Rightarrow> fcfs_scan \<Rightarrow> bool" where
  "fcfs_inv s n v \<longleftrightarrow> best ctime n s (first_come_process v)
     \<and> (case first_come_process v of None \<Rightarrow> fcfs_locked v = []
        | Some f \<Rightarrow> fcfs_locked v = [f] \<and> min_creation_time v = ctime (ptable s f))"

lemma fcfs_inv_step:
  assumes "fcfs_inv s n v"
  shows "fcfs_inv s (Suc n) (fcfs_body s n v)"
proof (cases "p_state (ptable s n) = RUNNABLE")
  case False
  then show ?thesis using assms best_skip[of ctime n s "first_come_process v"]
    by (auto simp: fcfs_inv_def fcfs_body_def Let_def split: option.splits)
next
  case r: True
  show ?thesis
  proof (cases "first_come_process v")
    case None
    then show ?thesis using assms r best_take[of ctime n s None] by (simp add: fcfs_inv_def fcfs_body_def Let_def)
  next
    case (Some f)
    have "f \<noteq> n" using assms Some by (auto simp: fcfs_inv_def best_def)
    then show ?thesis using assms r Some best_take[of ctime n s "Some f"] best_skip[of ctime n s "Some f"]
      by (auto simp: fcfs_inv_def fcfs_body_def Let_def not_less)
  qed
qed

lemma fcfs_choose_inv: "fcfs_inv s NPROC (fcfs_choose s)"
proof -
  have "fcfs_inv s n (fold (fcfs_body s) [0..<n] \<lparr>min_creation_time = 0, first_come_process = None, fcfs_locked = []\<rparr>)" for n
    by (induction n) (simp_all add: fcfs_inv_step, simp add: fcfs_inv_def best_def)
  then show ?thesis by (simp only: fcfs_choose_def)
qed

definition prio :: "proc \<Rightarrow> int" where
  "prio q = sint (the (dynamic_priority q))"

lemma dynamic_priority_range: "dynamic_priority q = Some d \<Longrightarrow> 0 \<le> sint d \<and> sint d \<le> 100"
  by (auto simp: dynamic_priority_def bind_eq_Some_conv split: if_splits)

definition pbs_inv :: "'z procs_scheme \<Rightarrow> nat \<Rightarrow> pbs_scan \<Rightarrow> bool" where
  "pbs_inv s n v \<longleftrightarrow> best prio n s (most_priority_process v)
     \<and> (case most_priority_process v of None \<Rightarrow> pbs_locked v = [] \<and> min_dynamic_priority v = 500
        | Some f \<Rightarrow> pbs_locked v = [f] \<and> dynamic_priority (ptable s f) = Some (min_dynamic_priority v))"

lemma pbs_inv_step:
  assumes inv: "pbs_inv s n v" and d: "p_state (ptable s n) = RUNNABLE \<Longrightarrow> dynamic_priority (ptable s n) \<noteq> None"
  shows "\<exists>w. pbs_body s n v = Some w \<and> pbs_inv s (Suc n) w"
proof (cases "p_state (ptable s n) = RUNNABLE")
  case False
  then show ?thesis using inv best_skip[of prio n s "most_priority_process v"]
    by (auto simp: pbs_inv_def pbs_body_def Let_def split: option.splits)
next
  case r: True
  with d obtain k where k: "dynamic_priority (ptable s n) = Some k" by auto
  have pn: "prio (ptable s n) = sint k" "sint k \<le> 100" using k dynamic_priority_range[OF k] by (auto simp: prio_def)
  show ?thesis
  proof (cases "most_priority_process v")
    case None
    then show ?thesis using inv r k pn best_take[of prio n s None] by (simp add: pbs_inv_def pbs_body_def Let_def)
  next
    case (Some f)
    have "f \<noteq> n" "prio (ptable s f) = sint (min_dynamic_priority v)" using inv Some by (auto simp: pbs_inv_def best_def prio_def)
    then show ?thesis using inv r k pn Some best_take[of prio n s "Some f"] best_skip[of prio n s "Some f"]
      by (auto simp: pbs_inv_def pbs_body_def Let_def not_less)
  qed
qed

lemma pbs_loop_append: "pbs_loop s (xs @ ys) v = (case pbs_loop s xs v of None \<Rightarrow> None | Some v \<Rightarrow> pbs_loop s ys v)"
  by (induction xs arbitrary: v) (auto split: option.splits)

lemma pbs_choose_inv:
  assumes "\<And>p. runnable s p \<Longrightarrow> dynamic_priority (ptable s p) \<noteq> None"
  shows "\<exists>v. pbs_choose s = Some v \<and> pbs_inv s NPROC v"
proof -
  have "\<exists>v. pbs_loop s [0..<n] \<lparr>min_dynamic_priority = 500, most_priority_process = None, pbs_locked = []\<rparr> = Some v \<and> pbs_inv s n v"
    if "n \<le> NPROC" for n
    using that
  proof (induction n)
    case 0
    then show ?case by (simp add: pbs_inv_def best_def)
  next
    case (Suc n)
    then obtain v where v: "pbs_loop s [0..<n] \<lparr>min_dynamic_priority = 500, most_priority_process = None, pbs_locked = []\<rparr> = Some v"
      "pbs_inv s n v" by auto
    have "p_state (ptable s n) = RUNNABLE \<Longrightarrow> dynamic_priority (ptable s n) \<noteq> None"
      using assms[of n] Suc.prems by (simp add: runnable_def)
    from pbs_inv_step[OF v(2) this] v(1) show ?case by (auto simp: pbs_loop_append)
  qed
  from this[of NPROC] show ?thesis by (simp only: pbs_choose_def order_refl)
qed

section \<open>The lottery's random numbers and probabilities\<close>

text \<open>The generator computes \<open>16807 * x mod (2^31 - 1)\<close> by Schrage's method, which never leaves 31 bits.\<close>

lemma schrage:
  fixes x :: int
  assumes "1 \<le> x" and "x < 2147483647"
  defines "y \<equiv> 16807 * (x mod 127773) - 2836 * (x div 127773)"
  shows "(if y < 0 then y + 2147483647 else y) = 16807 * x mod 2147483647" and "- 2147483647 < y" "y < 2147483647"
    and "16807 * x mod 2147483647 \<noteq> 0"
proof -
  have d: "0 \<le> x div 127773" "x div 127773 \<le> 16807" "0 \<le> x mod 127773" "x mod 127773 < 127773"
    using assms(1,2) zdiv_mono1[of x 2147483647 127773] by (simp_all add: pos_imp_zdiv_nonneg_iff)
  then show b: "- 2147483647 < y" "y < 2147483647" unfolding y_def by linarith+
  have "x = 127773 * (x div 127773) + x mod 127773" by simp
  then have "16807 * x = y + 2147483647 * (x div 127773)" unfolding y_def by linarith
  then have m: "16807 * x mod 2147483647 = y mod 2147483647" by simp
  show "(if y < 0 then y + 2147483647 else y) = 16807 * x mod 2147483647"
    unfolding m using b mod_pos_pos_trivial[of y 2147483647] mod_pos_pos_trivial[of "y + 2147483647" 2147483647] by auto
  show "16807 * x mod 2147483647 \<noteq> 0"
  proof
    assume "16807 * x mod 2147483647 = 0"
    then have "2147483647 dvd 16807 * x" by (simp add: dvd_eq_mod_eq_0)
    moreover have "coprime 2147483647 (16807 :: int)" by code_simp
    ultimately have "2147483647 dvd x" by (simp add: coprime_dvd_mult_right_iff)
    then show False using assms(1,2) by (auto dest: zdvd_imp_le)
  qed
qed

lemma sint_small_u64: "- (2 ^ 63) \<le> k \<Longrightarrow> k < 2 ^ 63 \<Longrightarrow> sint (word_of_int k :: u64) = k"
  by (simp add: sint_sbintrunc' signed_take_bit_int_eq_self)

lemma sint_small_cint: "n < 2 ^ 31 \<Longrightarrow> sint (of_nat n :: cint) = int n"
  by (simp add: sint_sbintrunc' signed_take_bit_int_eq_self signed_of_nat)

lemma custom_random_value:
  fixes seed :: u64
  defines "x \<equiv> int (unat seed mod 0x7ffffffe) + 1"
  shows "sint (fst (custom_random seed)) = 16807 * x mod 0x7fffffff - 1"
    and "uint (snd (custom_random seed)) = 16807 * x mod 0x7fffffff - 1"
    and "0 \<le> 16807 * x mod 0x7fffffff - 1" and "16807 * x mod 0x7fffffff - 1 \<le> 0x7ffffffd"
proof -
  have x: "1 \<le> x" "x < 2147483647" by (simp_all add: x_def) 
  let ?X = "seed mod 0x7ffffffe + 1"
  have ux: "uint ?X = x"
    using x by (simp add: x_def uint_word_ariths uint_mod of_nat_mod)
  let ?y = "16807 * (x mod 127773) - 2836 * (x div 127773)" and ?w = "16807 * (?X mod 127773) - 2836 * (?X div 127773)"
  note sc = schrage[OF x]
  have "uint (?X mod 127773) = x mod 127773" "uint (?X div 127773) = x div 127773"
    unfolding uint_mod_distrib uint_div_distrib ux by simp_all
  then have "?X mod 127773 = word_of_int (x mod 127773)" "?X div 127773 = word_of_int (x div 127773)"
    by (metis word_of_int_uint)+
  then have w: "?w = word_of_int ?y" by (simp only: wi_hom_syms word_numeral_alt[symmetric])
  let ?R = "16807 * x mod 2147483647"
  have R: "0 \<le> ?R" "?R < 2147483647" "?R \<noteq> 0" using sc(4) by simp_all
  have "sint ?w = ?y" unfolding w using sc(2,3) by (intro sint_small_u64) simp_all
  then have "snd (custom_random seed) = word_of_int (if ?y < 0 then ?y + 2147483647 else ?y) - 1"
    unfolding custom_random_def Let_def using w by simp
  then have z: "snd (custom_random seed) = word_of_int (?R - 1)" unfolding sc(1) by simp
  have c: "fst (custom_random seed) = ucast (snd (custom_random seed))" by (simp add: custom_random_def Let_def)
  show u: "uint (snd (custom_random seed)) = 16807 * x mod 0x7fffffff - 1"
    unfolding z unsigned_of_int using R take_bit_int_eq_self[of "?R - 1" 64] by simp
  have "uint (ucast (snd (custom_random seed)) :: cint) = ?R - 1"
    using u R by (simp add: unsigned_ucast_eq take_bit_int_eq_self)
  then show "sint (fst (custom_random seed)) = 16807 * x mod 0x7fffffff - 1"
    unfolding c using R by (simp add: sint_uint signed_take_bit_int_eq_self)
  show "0 \<le> 16807 * x mod 0x7fffffff - 1" "16807 * x mod 0x7fffffff - 1 \<le> 0x7ffffffd" using R by simp_all
qed

lemma total_tickets_sum:
  "total_tickets s = of_nat (\<Sum>p < NPROC. if p_state (ptable s p) = RUNNABLE then unat (tickets (ptable s p)) else 0)"
proof -
  have "fold (\<lambda>t total. if p_state (ptable s t) = RUNNABLE then total + tickets (ptable s t) else total) [0..<n] 0
      = of_nat (\<Sum>p < n. if p_state (ptable s p) = RUNNABLE then unat (tickets (ptable s p)) else 0)" for n
    by (induction n) simp_all
  then show ?thesis by (simp only: total_tickets_def)
qed

lemma lbs_no_panic:
  assumes sum: "(\<Sum>p < NPROC. if p_state (ptable s p) = RUNNABLE then unat (tickets (ptable s p)) else 0) < 2 ^ 31" and p: "runnable s p"
  defines "f \<equiv> fdiv (flt_of_uint (tickets (ptable s p))) (flt_of_int (total_tickets s))"
  shows "\<not> flt_less f (Fin 0)" and "\<not> flt_less (Fin 1) f"
proof -
  let ?S = "\<Sum>p < NPROC. if p_state (ptable s p) = RUNNABLE then unat (tickets (ptable s p)) else 0" and ?t = "unat (tickets (ptable s p))"
  have le: "?t \<le> ?S" using p member_le_sum[of p "{..<NPROC}" "\<lambda>p. if p_state (ptable s p) = RUNNABLE then unat (tickets (ptable s p)) else 0"]
    by (simp add: runnable_def)
  define S T where "S = ?S" and "T = ?t"
  have "sint (total_tickets s) = int S" unfolding S_def total_tickets_sum
    using sum by (rule sint_small_cint)
  then have f: "f = fdiv (Fin (rnd (of_nat T))) (Fin (rnd (of_nat S)))"
    by (simp add: f_def flt_of_uint_def flt_of_int_def T_def)
  have "\<not> flt_less f (Fin 0) \<and> \<not> flt_less (Fin 1) f"
  proof (cases "S = 0")
    case True
    then have "T = 0" using le unfolding S_def T_def by linarith
    then show ?thesis using True by (simp add: f rnd_def)
  next
    case False
    then have "0 < rnd (of_nat S)" by (intro rnd_pos') simp
    moreover have "rnd (of_nat T) \<le> rnd (of_nat S)" "0 \<le> rnd (of_nat T)" using le by (auto intro: rnd_mono rnd_nonneg simp: S_def[symmetric] T_def[symmetric])
    ultimately have q: "0 \<le> rnd (of_nat T) / rnd (of_nat S)" "rnd (of_nat T) / rnd (of_nat S) \<le> 1" "rnd (of_nat S) \<noteq> 0"
      by (simp_all add: divide_le_eq_1)
    then show ?thesis unfolding f using rnd_nonneg[OF q(1)] rnd_le_1[OF q(1,2)] by simp
  qed
  then show "\<not> flt_less f (Fin 0)" "\<not> flt_less (Fin 1) f" by auto
qed

lemma niceness_cases:
  assumes nz: "unat (sleep_time q) + unat (rtime q) < 2 ^ 32" "sleep_time q + rtime q \<noteq> 0"
  shows "niceness q = Some 0 \<or> niceness q = Some 10"
proof -
  have u: "unat (sleep_time q + rtime q) = unat (sleep_time q) + unat (rtime q)" using nz(1) by (simp add: unat_word_ariths)
  define a b where "a = unat (sleep_time q)" and "b = unat (sleep_time q + rtime q)"
  have le: "a \<le> b" "0 < b" using u nz(2) by (auto simp: a_def b_def unat_gt_0)
  have f: "fdiv (flt_of_uint (sleep_time q)) (flt_of_uint (sleep_time q + rtime q)) = fdiv (Fin (rnd (of_nat a))) (Fin (rnd (of_nat b)))"
    by (simp add: flt_of_uint_def a_def b_def)
  have "0 < rnd (of_nat b)" using le by (intro rnd_pos') simp
  moreover have "rnd (of_nat a) \<le> rnd (of_nat b)" "0 \<le> rnd (of_nat a)" using le by (auto intro: rnd_mono rnd_nonneg)
  ultimately have x: "0 \<le> rnd (of_nat a) / rnd (of_nat b)" "rnd (of_nat a) / rnd (of_nat b) \<le> 1" "rnd (of_nat b) \<noteq> 0"
    by (simp_all add: divide_le_eq_1)
  define c where "c = rnd (rnd (of_nat a) / rnd (of_nat b))"
  have c: "0 \<le> c" "c \<le> 1" using rnd_nonneg[OF x(1)] rnd_le_1[OF x(1,2)] by (simp_all add: c_def)
  then have "\<lfloor>c\<rfloor> = 0 \<or> \<lfloor>c\<rfloor> = 1" by linarith
  then show ?thesis using c x(3) by (auto simp: niceness_def f c_def[symmetric] int_fits_def)
qed

lemma dynamic_priority_eq:
  assumes "niceness q = Some 0 \<or> niceness q = Some 10" and "10 - 2 ^ 31 \<le> sint (static_priority q)" and "sint (static_priority q) < 2 ^ 31 - 5"
  shows "dynamic_priority q \<noteq> None" and "prio q = max 0 (min (sint (static_priority q) - sint (the (niceness q)) + 5) 100)"
proof -
  obtain n where n: "niceness q = Some n" "sint n = 0 \<or> sint n = 10" using assms(1) by auto
  let ?i = "sint (static_priority q) - sint n"
  obtain d where d: "int_fits ?i = Some d" "sint d = ?i" using assms(2,3) n(2) int_fits_None[of ?i] int_fits_Some[of ?i] by fastforce
  obtain e where e: "int_fits (?i + 5) = Some e" "sint e = ?i + 5" using assms(2,3) n(2) int_fits_None[of "?i + 5"] int_fits_Some[of "?i + 5"] by fastforce
  have "dynamic_priority q = Some (if sint e < 0 then 0 else if sint e > 100 then 100 else e)" by (simp add: dynamic_priority_def n(1) d e(1))
  then show "dynamic_priority q \<noteq> None" "prio q = max 0 (min (sint (static_priority q) - sint (the (niceness q)) + 5) 100)"
    using e(2) by (auto simp: prio_def n(1))
qed

lemma pbs_loop_undef:
  assumes "p \<in> set ps" and "p_state (ptable s p) = RUNNABLE" and "dynamic_priority (ptable s p) = None"
  shows "pbs_loop s ps v = None"
  using assms(1)
proof (induction ps arbitrary: v)
  case (Cons a ps)
  have "pbs_body s p w = None" for w using assms(2,3) by (simp add: pbs_body_def Let_def)
  with Cons show ?case by (auto split: option.splits)
qed simp

section \<open>Properties of the schedulers\<close>

text \<open>C16: a turn of the FCFS scheduler switches to the runnable process that was created first (the first of
  the table among equals), and idles only when no process is runnable. When it switches, the lock it holds is
  that of the chosen process alone, though it took every lock on the way.\<close>

theorem fcfs_serves_first_come:
  "case fcfs_turn s of
     (None, t) \<Rightarrow> t = s \<and> (\<forall>p. \<not> runnable s p) \<and> fcfs_locked (fcfs_choose s) = []
   | (Some f, t) \<Rightarrow> runnable s f \<and> t = switch_to f s \<and> fcfs_locked (fcfs_choose s) = [f]
       \<and> (\<forall>p. runnable s p \<longrightarrow> ctime (ptable s f) \<le> ctime (ptable s p) \<and> (p < f \<longrightarrow> ctime (ptable s f) < ctime (ptable s p)))"
  using fcfs_choose_inv[of s] by (auto simp: fcfs_turn_def fcfs_inv_def best_def runnable_def split: option.splits)

definition demo_sched :: procs where
  "demo_sched = demo_procs ((\<lambda>_. demo_proc)(1 := demo_proc\<lparr>p_state := RUNNABLE, ctime := 30, rtime := 4, sleep_time := 4\<rparr>,
     2 := demo_proc\<lparr>p_state := RUNNABLE, ctime := 20, rtime := 7, static_priority := 40\<rparr>))"

lemma demo_sched_runnable: "runnable demo_sched p \<longleftrightarrow> p = 1 \<or> p = 2"
  by (simp add: runnable_def demo_sched_def)

theorem fcfs_serves_first_come_witness: "fst (fcfs_turn demo_sched) = Some 2"
proof -
  have r: "runnable demo_sched 1" "runnable demo_sched 2" by (simp_all add: demo_sched_runnable)
  have c: "ctime (ptable demo_sched 1) = 30" "ctime (ptable demo_sched 2) = 20" by (simp_all add: demo_sched_def)
  show ?thesis
  proof (cases "fst (fcfs_turn demo_sched)")
    case None
    then show ?thesis using fcfs_serves_first_come[of demo_sched] r by (auto split: prod.splits)
  next
    case (Some f)
    then have f: "runnable demo_sched f" "ctime (ptable demo_sched f) \<le> ctime (ptable demo_sched 2)"
      using fcfs_serves_first_come[of demo_sched] r by (auto split: prod.splits)
    then have "f \<noteq> 1" using c by auto
    with f(1) Some show ?thesis by (simp add: demo_sched_runnable)
  qed
qed

text \<open>C17: under round robin every process that stays runnable gets the CPU within one pass of the
  table, whatever the other processes and interrupts do to the state between the turns.\<close>

theorem rr_no_starvation:
  fixes \<sigma> :: "nat \<Rightarrow> 'z procs_scheme"
  assumes turn: "\<forall>k. \<exists>t. rr_turn (pos k) (\<sigma> k) = (run k, pos (Suc k), t)" and start: "pos 0 < NPROC"
    and p: "p < NPROC" "\<forall>k < NPROC. p_state (ptable (\<sigma> k) p) = RUNNABLE"
  shows "\<exists>k < NPROC. run k = Some p"
proof -
  have "pos (Suc k) = (if Suc (pos k) < NPROC then Suc (pos k) else 0)" for k
    using turn[rule_format, of k] by (auto simp: rr_turn_def Let_def split: if_splits)
  then have s: "pos k < NPROC \<Longrightarrow> pos (Suc k) = Suc (pos k) mod NPROC" for k by (auto simp: mod_if)
  have pos: "pos k = (pos 0 + k) mod NPROC" for k
  proof (induction k)
    case (Suc k)
    then have "pos k < NPROC" by simp
    from s[OF this] Suc show ?case by (simp add: mod_Suc_eq)
  qed (use start in simp)
  define k where "k = (if pos 0 \<le> p then p - pos 0 else p + NPROC - pos 0)"
  have k: "k < NPROC" "(pos 0 + k) mod NPROC = p" using start p(1) by (auto simp: k_def)
  then have "run k = Some p" using turn[rule_format, of k] p(2) pos[of k] by (auto simp: rr_turn_def Let_def)
  with k(1) show ?thesis by blast
qed

theorem rr_no_starvation_witness:
  "\<exists>k < NPROC. fst (rr_turn (k mod NPROC) demo_sched) = Some 2"
proof -
  let ?pos = "\<lambda>k. k mod NPROC" and ?run = "\<lambda>k. fst (rr_turn (k mod NPROC) demo_sched)"
  have "\<exists>t. rr_turn (?pos k) demo_sched = (?run k, ?pos (Suc k), t)" for k
    by (auto simp: rr_turn_def Let_def mod_Suc)
  then have t: "\<forall>k. \<exists>t. rr_turn (?pos k) demo_sched = (?run k, ?pos (Suc k), t)" by blast
  have "?pos 0 < NPROC" "2 < NPROC" by simp_all
  moreover have "\<forall>k < NPROC. p_state (ptable demo_sched 2) = RUNNABLE" by (simp add: demo_sched_def)
  ultimately show ?thesis by (rule rr_no_starvation[of ?pos "\<lambda>_. demo_sched", OF t])
qed

text \<open>C18: a turn of the priority scheduler switches to the runnable process of least dynamic priority (the
  first of the table among equals), holding the lock of that process alone, and idles only when no process is
  runnable. The priority of every runnable process is its static priority less its niceness, 0 or 10, plus 5, held within
  0 and 100. All this provided that every runnable process has run or slept for at least a tick, in all less than
  \<open>2 ^ 32\<close>, and that its static priority is not within 10 of the ends of the range of \<^verbatim>\<open>int\<close>; otherwise the arithmetic of the
  scheduler may have no meaning.\<close>

theorem pbs_serves_best_priority:
  assumes "\<forall>p. runnable s p \<longrightarrow> unat (sleep_time (ptable s p)) + unat (rtime (ptable s p)) < 2 ^ 32
     \<and> sleep_time (ptable s p) + rtime (ptable s p) \<noteq> 0
     \<and> 10 - 2 ^ 31 \<le> sint (static_priority (ptable s p)) \<and> sint (static_priority (ptable s p)) < 2 ^ 31 - 10"
  shows "\<exists>v. pbs_choose s = Some v
     \<and> (\<forall>p. runnable s p \<longrightarrow> niceness (ptable s p) \<in> {Some 0, Some 10}
          \<and> prio (ptable s p) = max 0 (min (sint (static_priority (ptable s p)) - sint (the (niceness (ptable s p))) + 5) 100))
     \<and> (case most_priority_process v of
          None \<Rightarrow> pbs_turn s = Ok None s \<and> (\<forall>p. \<not> runnable s p) \<and> pbs_locked v = []
        | Some f \<Rightarrow> pbs_turn s = Ok (Some f) (switch_to f s) \<and> runnable s f \<and> pbs_locked v = [f]
            \<and> 0 \<le> prio (ptable s f) \<and> prio (ptable s f) \<le> 100
            \<and> (\<forall>p. runnable s p \<longrightarrow> prio (ptable s f) \<le> prio (ptable s p) \<and> (p < f \<longrightarrow> prio (ptable s f) < prio (ptable s p))))"
proof -
  have n: "niceness (ptable s p) = Some 0 \<or> niceness (ptable s p) = Some 10" if "runnable s p" for p
    using niceness_cases[of "ptable s p"] assms[rule_format, OF that] by blast
  have d: "dynamic_priority (ptable s p) \<noteq> None"
    "prio (ptable s p) = max 0 (min (sint (static_priority (ptable s p)) - sint (the (niceness (ptable s p))) + 5) 100)" if "runnable s p" for p
    using dynamic_priority_eq[OF n[OF that]] assms[rule_format, OF that] by simp_all
  from n d(2) have r: "\<forall>p. runnable s p \<longrightarrow> niceness (ptable s p) \<in> {Some 0, Some 10}
      \<and> prio (ptable s p) = max 0 (min (sint (static_priority (ptable s p)) - sint (the (niceness (ptable s p))) + 5) 100)" by blast
  from pbs_choose_inv[OF d(1)] obtain v where v: "pbs_choose s = Some v" "pbs_inv s NPROC v" by blast
  show ?thesis
  proof (cases "most_priority_process v")
    case None
    then show ?thesis using v r by (intro exI[of _ v]) (auto simp: pbs_turn_def pbs_inv_def best_def runnable_def)
  next
    case (Some f)
    then have "dynamic_priority (ptable s f) = Some (min_dynamic_priority v)" using v(2) by (simp add: pbs_inv_def)
    from dynamic_priority_range[OF this] this have "0 \<le> prio (ptable s f)" "prio (ptable s f) \<le> 100" by (simp_all add: prio_def)
    then show ?thesis using v Some r by (intro exI[of _ v]) (auto simp: pbs_turn_def pbs_inv_def best_def runnable_def)
  qed
qed

theorem pbs_serves_best_priority_witness:
  "\<exists>v. pbs_choose demo_sched = Some v \<and> most_priority_process v \<noteq> None"
proof -
  have "\<forall>p. runnable demo_sched p \<longrightarrow> unat (sleep_time (ptable demo_sched p)) + unat (rtime (ptable demo_sched p)) < 2 ^ 32
     \<and> sleep_time (ptable demo_sched p) + rtime (ptable demo_sched p) \<noteq> 0
     \<and> 10 - 2 ^ 31 \<le> sint (static_priority (ptable demo_sched p)) \<and> sint (static_priority (ptable demo_sched p)) < 2 ^ 31 - 10"
    unfolding demo_sched_runnable by (auto simp: demo_sched_def demo_proc_def)
  from pbs_serves_best_priority[OF this] show ?thesis
    using demo_sched_runnable[of 1] by (auto split: option.splits)
qed

text \<open>C19: the priority scheduler has no defined behaviour as long as a runnable process has neither run nor
  slept: its niceness converts the quotient 0/0 to an integer. Every new process is in this state.\<close>

theorem pbs_undefined_for_new_process:
  assumes "runnable s p" and "sleep_time (ptable s p) = 0" and "rtime (ptable s p) = 0"
  shows "pbs_turn s = Undef ''arithmetic of the PBS priority''"
proof -
  have "dynamic_priority (ptable s p) = None"
    using assms(2,3) by (simp add: dynamic_priority_def niceness_def flt_of_uint_def rnd_def)
  then have "pbs_choose s = None" unfolding pbs_choose_def
    using assms(1) by (intro pbs_loop_undef[of p]) (simp_all add: runnable_def)
  then show ?thesis by (simp add: pbs_turn_def)
qed

theorem pbs_undefined_for_new_process_witness:
  "pbs_turn (demo_procs ((\<lambda>_. demo_proc)(0 := demo_proc\<lparr>p_state := RUNNABLE\<rparr>))) = Undef ''arithmetic of the PBS priority''"
  by (rule pbs_undefined_for_new_process[of _ 0]) (simp_all add: runnable_def)

text \<open>C20: the random numbers of the lottery are those of the minimal standard generator,
  \<open>16807 * x mod (2^31 - 1) - 1\<close> with \<open>x\<close> the seed brought to 1 .. 2^31 - 2, and lie between 0 and 2^31 - 3, for every
  seed: Schrage's decomposition never overflows.\<close>

theorem custom_random_is_minimal_standard:
  "sint (fst (custom_random seed)) = 16807 * (int (unat seed mod 0x7ffffffe) + 1) mod 0x7fffffff - 1
     \<and> uint (snd (custom_random seed)) = 16807 * (int (unat seed mod 0x7ffffffe) + 1) mod 0x7fffffff - 1
     \<and> 0 \<le> sint (fst (custom_random seed)) \<and> sint (fst (custom_random seed)) \<le> 0x7ffffffd"
  using custom_random_value[of seed] by simp

text \<open>C21: the lottery scheduler never panics on its probability check while the tickets of the runnable
  processes add up to less than 2^31, for all roundings of the single-precision quotient; it switches only to a
  runnable process, the one of the slot it is at.\<close>

theorem lottery_never_panics:
  assumes "(\<Sum>p < NPROC. if p_state (ptable s p) = RUNNABLE then unat (tickets (ptable s p)) else 0) < 2 ^ 31" and "p < NPROC"
  shows "\<exists>r n t. lbs_turn p s = Ok (r, n) t \<and> n < NPROC \<and> (r = None \<and> t = s \<or> r = Some p \<and> runnable s p \<and> t = switch_to p s)"
  using assms lbs_no_panic[OF assms(1), of p] by (auto simp: lbs_turn_def runnable_def Let_def)

theorem lottery_never_panics_witness: "\<exists>r n t. lbs_turn 1 demo_sched = Ok (r, n) t \<and> n < NPROC"
proof -
  have "(\<Sum>p < NPROC. if p_state (ptable demo_sched p) = RUNNABLE then unat (tickets (ptable demo_sched p)) else 0) < 2 ^ 31"
    by (simp add: demo_sched_def lessThan_nat_numeral lessThan_Suc)
  from lottery_never_panics[OF this, of 1] show ?thesis by auto
qed

end
