(* ===== verification/Fork.thy ===== *)
theory Fork
  imports File Sched
begin

text \<open>
  The part of \<^verbatim>\<open>kernel/proc.c\<close> that touches files: the first process, \<^verbatim>\<open>fork\<close> and \<^verbatim>\<open>exit\<close>. \<^verbatim>\<open>exit\<close> does not return; its outcome \<open>Ok\<close>
  is the state in which the process gives up the CPU for good.
\<close>

definition initcode :: "u8 list" where
  "initcode = [
     0x17, 0x05, 0x00, 0x00, 0x13, 0x05, 0x45, 0x02,
     0x97, 0x05, 0x00, 0x00, 0x93, 0x85, 0x35, 0x02,
     0x93, 0x08, 0x70, 0x00, 0x73, 0x00, 0x00, 0x00,
     0x93, 0x08, 0x20, 0x00, 0x73, 0x00, 0x00, 0x00,
     0xef, 0xf0, 0x9f, 0xff, 0x2f, 0x69, 0x6e, 0x69,
     0x74, 0x00, 0x00, 0x24, 0x00, 0x00, 0x00, 0x00,
     0x00, 0x00, 0x00, 0x00]"

text \<open>\<^verbatim>\<open>safestrcpy(p->name, t, sizeof(p->name))\<close>.\<close>

definition set_name :: "nat \<Rightarrow> u8 list \<Rightarrow> 'z procs_scheme \<Rightarrow> ('z procs_scheme, unit) res" where
  "set_name p t s =
     (case safestrcpy t 16 of
        None \<Rightarrow> Undef ''name is not a string''
      | Some bs \<Rightarrow> Ok () (upd_proc p (\<lambda>q. q\<lparr>p_name := put_bytes 0 bs (p_name q)\<rparr>) s))"

definition userinit :: "'z filest_scheme \<Rightarrow> ('z filest_scheme, unit) res" where
  "userinit s =
     bnd (allocproc s) (\<lambda>r s.
     let s = s\<lparr>initproc := r\<rparr> in
     case r of
       None \<Rightarrow> Undef ''p is null''
     | Some p \<Rightarrow>
         bnd (uvmfirst (p_pagetable (ptable s p)) initcode s) (\<lambda>_ s.
         let s = upd_proc p (\<lambda>q. q\<lparr>p_sz := PGSIZE\<rparr>) s;
             s = tf_set p TF_epc 0 s;
             s = tf_set p TF_sp PGSIZE s in
         bnd (set_name p (bstr ''initcode'' @ [0]) s) (\<lambda>_ s.
         bnd (namei [47, 0] s) (\<lambda>ip s.
         Ok () (upd_proc p (\<lambda>q. q\<lparr>p_cwd := ip, p_state := RUNNABLE\<rparr>) s)))))"

definition fork :: "'z filest_scheme \<Rightarrow> ('z filest_scheme, cint) res" where
  "fork = with_proc (\<lambda>p s.
     bnd (allocproc s) (\<lambda>r s.
     case r of
       None \<Rightarrow> Ok (- 1) s
     | Some np \<Rightarrow>
         bnd (uvmcopy (p_pagetable (ptable s p)) (p_pagetable (ptable s np)) (p_sz (ptable s p)) s) (\<lambda>r s.
         if sint r < 0 then bnd (freeproc np s) (\<lambda>_ s. Ok (- 1) s)
         else
           let s = upd_proc np (\<lambda>q. q\<lparr>p_sz := p_sz (ptable s p)\<rparr>) s;
               s = s\<lparr>mem := memmove (mem s) (p_trapframe (ptable s np)) (p_trapframe (ptable s p)) TRAPFRAME_SIZE\<rparr>;
               s = upd_proc np (\<lambda>q. q\<lparr>tickets := 1\<rparr>) s;
               s = tf_set np TF_a0 0 s in
           bnd (loop (\<lambda>i s.
             case p_ofile (ptable s p) i of
               None \<Rightarrow> Ok () s
             | Some f \<Rightarrow> bnd (filedup f s) (\<lambda>f s. Ok () (upd_proc np (\<lambda>q. q\<lparr>p_ofile := (p_ofile q)(i := Some f)\<rparr>) s))) [0..<NOFILE] s) (\<lambda>_ s.
           case p_cwd (ptable s p) of
             None \<Rightarrow> Undef ''idup(0)''
           | Some cwd \<Rightarrow>
               let (ip, s) = idup cwd s;
                   s = upd_proc np (\<lambda>q. q\<lparr>p_cwd := Some ip\<rparr>) s in
               bnd (set_name np (p_name (ptable s p)) s) (\<lambda>_ s.
               let pid = p_pid (ptable s np);
                   s = upd_proc np (\<lambda>q. q\<lparr>trace_mask := trace_mask (ptable s p)\<rparr>) s;
                   s = upd_proc np (\<lambda>q. q\<lparr>p_parent := Some p\<rparr>) s;
                   s = upd_proc np (\<lambda>q. q\<lparr>p_state := RUNNABLE\<rparr>) s in
               Ok pid s)))))"

definition exit :: "cint \<Rightarrow> 'z filest_scheme \<Rightarrow> ('z filest_scheme, unit) res" where
  "exit status = with_proc (\<lambda>p s.
     if initproc s = Some p then Panic ''init exiting''
     else
       bnd (loop (\<lambda>fd s.
         case p_ofile (ptable s p) fd of
           None \<Rightarrow> Ok () s
         | Some f \<Rightarrow> bnd (fileclose f s) (\<lambda>_ s. Ok () (upd_proc p (\<lambda>q. q\<lparr>p_ofile := (p_ofile q)(fd := None)\<rparr>) s))) [0..<NOFILE] s) (\<lambda>_ s.
       bnd (begin_op s) (\<lambda>_ s.
       case p_cwd (ptable s p) of
         None \<Rightarrow> Undef ''iput(0)''
       | Some cwd \<Rightarrow>
           bnd (iput cwd s) (\<lambda>_ s.
           bnd (end_op s) (\<lambda>_ s.
           let s = upd_proc p (\<lambda>q. q\<lparr>p_cwd := None\<rparr>) s;
               s = reparent p s;
               s = wakeup (map_option Ch_proc (p_parent (ptable s p))) s in
           Ok () (upd_proc p (\<lambda>q. q\<lparr>p_xstate := status, p_state := ZOMBIE, etime := ticks s\<rparr>) s))))))"

end
