(* ===== verification/Exec.thy ===== *)
theory Exec
  imports Fork
begin

text \<open>
  Replacing a process's program, \<^verbatim>\<open>kernel/exec.c\<close>. The ELF headers are read at the offsets of the C structures of \<^verbatim>\<open>kernel/elf.h\<close>.
  The argument strings are the buffers \<^verbatim>\<open>argv\<close> points to, as lists of bytes. Each part of \<open>exec\<close> that can go to the label
  \<^verbatim>\<open>bad\<close> says so in its result.
\<close>

abbreviation (input) MAXARG :: nat where "MAXARG \<equiv> 32"
abbreviation (input) ELF_MAGIC :: u32 where "ELF_MAGIC \<equiv> 0x464C457F"
abbreviation (input) ELF_PROG_LOAD :: u32 where "ELF_PROG_LOAD \<equiv> 1"

record elfhdr =
  elf_magic :: u32
  elf_entry :: u64
  elf_phoff :: u64
  elf_phnum :: u16

record proghdr =
  ph_type :: u32
  ph_flags :: u32
  ph_off :: u64
  ph_vaddr :: u64
  ph_filesz :: u64
  ph_memsz :: u64

definition decode_elf :: "u8 list \<Rightarrow> elfhdr" where
  "decode_elf d = \<lparr>elf_magic = get32 0 d, elf_entry = get64 24 d, elf_phoff = get64 32 d, elf_phnum = get16 56 d\<rparr>"

definition decode_ph :: "u8 list \<Rightarrow> proghdr" where
  "decode_ph d = \<lparr>ph_type = get32 0 d, ph_flags = get32 4 d, ph_off = get64 8 d, ph_vaddr = get64 16 d, ph_filesz = get64 32 d, ph_memsz = get64 40 d\<rparr>"

definition flags2perm :: "u32 \<Rightarrow> u64" where
  "flags2perm flags = (if flags AND 1 \<noteq> 0 then PTE_X else 0) OR (if flags AND 2 \<noteq> 0 then PTE_W else 0)"

text \<open>The loop of \<^verbatim>\<open>loadseg\<close> over the page offsets of the segment.\<close>

fun loadseg_loop :: "u64 \<Rightarrow> u64 \<Rightarrow> nat \<Rightarrow> u32 \<Rightarrow> u32 \<Rightarrow> nat list \<Rightarrow> 'z fsst_scheme \<Rightarrow> ('z fsst_scheme, cint) res" where
  "loadseg_loop pagetable va ip offset sz [] s = Ok 0 s"
| "loadseg_loop pagetable va ip offset sz (i # is) s =
     bnd (walkaddr pagetable (va + of_nat i) s) (\<lambda>pa s.
       if pa = 0 then Panic ''loadseg: address should exist''
       else
         let n = (if sz - of_nat i < of_nat PGSIZE_nat then sz - of_nat i else of_nat PGSIZE_nat) in
         bnd (readi ip (Dst_mem pa) (offset + of_nat i) n s) (\<lambda>(r, _) s.
           if r \<noteq> n then Ok (- 1) s else loadseg_loop pagetable va ip offset sz is s))"

definition loadseg :: "u64 \<Rightarrow> u64 \<Rightarrow> nat \<Rightarrow> u32 \<Rightarrow> u32 \<Rightarrow> 'z fsst_scheme \<Rightarrow> ('z fsst_scheme, cint) res" where
  "loadseg pagetable va ip offset sz s =
     loadseg_loop pagetable va ip offset sz (map (\<lambda>k. k * PGSIZE_nat) [0..<(unat sz + PGSIZE_nat - 1) div PGSIZE_nat]) s"

text \<open>The loop that loads the program, with \<open>k\<close> headers to go: whether it went well, and \<^verbatim>\<open>sz\<close> in either case.\<close>

fun exec_load :: "nat \<Rightarrow> u32 \<Rightarrow> nat \<Rightarrow> u64 \<Rightarrow> u64 \<Rightarrow> 'z fsst_scheme \<Rightarrow> ('z fsst_scheme, bool \<times> u64) res" where
  "exec_load 0 off ip pagetable sz s = Ok (True, sz) s"
| "exec_load (Suc k) off ip pagetable sz s =
     bnd (readi ip Dst_local off 56 s) (\<lambda>(r, d) s.
       let ph = decode_ph d in
       if r \<noteq> 56 then Ok (False, sz) s
       else if ph_type ph \<noteq> ELF_PROG_LOAD then exec_load k (off + 56) ip pagetable sz s
       else if ph_memsz ph < ph_filesz ph then Ok (False, sz) s
       else if ph_vaddr ph + ph_memsz ph < ph_vaddr ph then Ok (False, sz) s
       else if ph_vaddr ph mod PGSIZE \<noteq> 0 then Ok (False, sz) s
       else
         bnd (uvmalloc pagetable sz (ph_vaddr ph + ph_memsz ph) (flags2perm (ph_flags ph)) s) (\<lambda>sz1 s.
           if sz1 = 0 then Ok (False, sz) s
           else
             bnd (loadseg pagetable (ph_vaddr ph) ip (ucast (ph_off ph)) (ucast (ph_filesz ph)) s) (\<lambda>r s.
               if sint r < 0 then Ok (False, sz1) s else exec_load k (off + 56) ip pagetable sz1 s)))"

text \<open>The loop that pushes the argument strings: the stack pointer and \<^verbatim>\<open>ustack\<close>, or \<open>None\<close> for \<^verbatim>\<open>bad\<close>.\<close>

fun exec_args :: "u8 list list \<Rightarrow> u64 \<Rightarrow> u64 \<Rightarrow> u64 \<Rightarrow> u64 list \<Rightarrow> 'z kmem_scheme \<Rightarrow> ('z kmem_scheme, (u64 \<times> u64 list) option) res" where
  "exec_args [] pagetable stackbase sp ustack s = Ok (Some (sp, ustack)) s"
| "exec_args (arg # argv) pagetable stackbase sp ustack s =
     (if MAXARG \<le> length ustack then Ok None s
      else case strlen arg of
        None \<Rightarrow> Undef ''argv is not a string''
      | Some n \<Rightarrow>
          let sp = sp - of_nat (n + 1);
              sp = sp - sp mod 16 in
          if sp < stackbase then Ok None s
          else
            bnd (copyout pagetable sp (take (n + 1) arg) s) (\<lambda>r s.
              if sint r < 0 then Ok None s else exec_args argv pagetable stackbase sp (ustack @ [sp]) s))"

text \<open>The label \<^verbatim>\<open>bad\<close>.\<close>

definition exec_bad :: "u64 \<Rightarrow> u64 \<Rightarrow> nat option \<Rightarrow> 'z filest_scheme \<Rightarrow> ('z filest_scheme, cint) res" where
  "exec_bad pagetable sz ip s =
     bnd (if pagetable \<noteq> 0 then proc_freepagetable pagetable sz s else Ok () s) (\<lambda>_ s.
     bnd (case ip of None \<Rightarrow> Ok () s | Some ip \<Rightarrow> bnd (iunlockput ip s) (\<lambda>_ s. end_op s)) (\<lambda>_ s.
     Ok (- 1) s))"

text \<open>The last element of a path, for the name of the process.\<close>

fun last_elem :: "u8 list \<Rightarrow> u8 list \<Rightarrow> u8 list" where
  "last_elem l [] = l"
| "last_elem l (c # cs) = (if c = 0 then l else if c = 47 then last_elem cs cs else last_elem l cs)"

text \<open>\<^verbatim>\<open>exec\<close> once the program is loaded and its inode released: the stack, and the switch to the new image.\<close>

definition exec_stack :: "u8 list \<Rightarrow> u8 list list \<Rightarrow> u64 \<Rightarrow> u64 \<Rightarrow> u64 \<Rightarrow> 'z filest_scheme \<Rightarrow> ('z filest_scheme, cint) res" where
  "exec_stack path argv pagetable sz entry = with_proc (\<lambda>p s.
     let oldsz = p_sz (ptable s p);
         sz = PGROUNDUP sz in
     bnd (uvmalloc pagetable sz (sz + 2 * PGSIZE) PTE_W s) (\<lambda>sz1 s.
     if sz1 = 0 then exec_bad pagetable sz None s
     else
       let sz = sz1 in
       bnd (uvmclear pagetable (sz - 2 * PGSIZE) s) (\<lambda>_ s.
       let stackbase = sz - PGSIZE in
       bnd (exec_args argv pagetable stackbase sz [] s) (\<lambda>r s.
       case r of
         None \<Rightarrow> exec_bad pagetable sz None s
       | Some (sp, ustack) \<Rightarrow>
           if MAXARG \<le> length ustack then Undef ''ustack''
           else
             let argc = length ustack;
                 sp = sp - of_nat ((argc + 1) * 8);
                 sp = sp - sp mod 16 in
             if sp < stackbase then exec_bad pagetable sz None s
             else
               bnd (copyout pagetable sp (concat (map bytes64 (ustack @ [0]))) s) (\<lambda>r s.
               if sint r < 0 then exec_bad pagetable sz None s
               else
                 let s = tf_set p TF_a1 sp s in
                 bnd (set_name p (last_elem path path) s) (\<lambda>_ s.
                 let oldpagetable = p_pagetable (ptable s p);
                     s = upd_proc p (\<lambda>q. q\<lparr>p_pagetable := pagetable, p_sz := sz\<rparr>) s;
                     s = tf_set p TF_epc entry s;
                     s = tf_set p TF_sp sp s in
                 bnd (proc_freepagetable oldpagetable oldsz s) (\<lambda>_ s. Ok (of_nat argc) s)))))))"

definition exec :: "u8 list \<Rightarrow> u8 list list \<Rightarrow> 'z filest_scheme \<Rightarrow> ('z filest_scheme, cint) res" where
  "exec path argv = with_proc (\<lambda>p s.
     bnd (begin_op s) (\<lambda>_ s.
     bnd (namei path s) (\<lambda>r s.
     case r of
       None \<Rightarrow> bnd (end_op s) (\<lambda>_ s. Ok (- 1) s)
     | Some ip \<Rightarrow>
         bnd (ilock (Some ip) s) (\<lambda>_ s.
         bnd (readi ip Dst_local 0 64 s) (\<lambda>(n, d) s.
         let elf = decode_elf d in
         if n \<noteq> 64 then exec_bad 0 0 (Some ip) s
         else if elf_magic elf \<noteq> ELF_MAGIC then exec_bad 0 0 (Some ip) s
         else
           bnd (proc_pagetable p s) (\<lambda>pagetable s.
           if pagetable = 0 then exec_bad 0 0 (Some ip) s
           else
             bnd (exec_load (unat (elf_phnum elf)) (ucast (elf_phoff elf)) ip pagetable 0 s) (\<lambda>(ok, sz) s.
             if \<not> ok then exec_bad pagetable sz (Some ip) s
             else
               bnd (iunlockput ip s) (\<lambda>_ s.
               bnd (end_op s) (\<lambda>_ s.
               exec_stack path argv pagetable sz (elf_entry elf) s)))))))))"

end
