(* ===== verification/Sysfile.thy ===== *)
theory Sysfile
  imports Exec
begin

text \<open>
  The system calls on files: the arguments of a system call (the first part of \<^verbatim>\<open>kernel/syscall.c\<close>) and \<^verbatim>\<open>kernel/sysfile.c\<close>. A
  C \<^verbatim>\<open>int\<close> result becomes the \<^verbatim>\<open>uint64\<close> of the same sign. A fixed array on the kernel stack is the list of the bytes stored in it.
\<close>

abbreviation (input) MAXPATH :: nat where "MAXPATH \<equiv> 128"
abbreviation (input) O_RDONLY :: cint where "O_RDONLY \<equiv> 0"
abbreviation (input) O_WRONLY :: cint where "O_WRONLY \<equiv> 1"
abbreviation (input) O_RDWR :: cint where "O_RDWR \<equiv> 2"
abbreviation (input) O_CREATE :: cint where "O_CREATE \<equiv> 0x200"
abbreviation (input) O_TRUNC :: cint where "O_TRUNC \<equiv> 0x400"

section \<open>Arguments\<close>

definition fetchaddr :: "u64 \<Rightarrow> 'z procs_scheme \<Rightarrow> ('z procs_scheme, u64 option) res" where
  "fetchaddr addr = with_proc (\<lambda>p s.
     let sz = p_sz (ptable s p) in
     if sz \<le> addr \<or> sz < addr + 8 then Ok None s
     else bnd (copyin (p_pagetable (ptable s p)) addr 8 s) (\<lambda>(r, bs) s.
       if r \<noteq> 0 then Ok None s else Ok (Some (get64 0 bs)) s))"

definition fetchstr :: "u64 \<Rightarrow> nat \<Rightarrow> 'z procs_scheme \<Rightarrow> ('z procs_scheme, cint \<times> u8 list) res" where
  "fetchstr addr mx = with_proc (\<lambda>p s.
     bnd (copyinstr (p_pagetable (ptable s p)) addr mx s) (\<lambda>(r, buf) s.
       if sint r < 0 then Ok (- 1, buf) s
       else case strlen buf of None \<Rightarrow> Undef ''buf is not a string'' | Some n \<Rightarrow> Ok (of_nat n, buf) s))"

definition argraw :: "nat \<Rightarrow> 'z procs_scheme \<Rightarrow> ('z procs_scheme, u64) res" where
  "argraw n = with_proc (\<lambda>p s.
     if n = 0 then Ok (tf_get p TF_a0 s) s
     else if n = 1 then Ok (tf_get p TF_a1 s) s
     else if n = 2 then Ok (tf_get p TF_a2 s) s
     else if n = 3 then Ok (tf_get p TF_a3 s) s
     else if n = 4 then Ok (tf_get p TF_a4 s) s
     else if n = 5 then Ok (tf_get p TF_a5 s) s
     else Panic ''argraw'')"

definition argint :: "nat \<Rightarrow> 'z procs_scheme \<Rightarrow> ('z procs_scheme, cint) res" where
  "argint n s = bnd (argraw n s) (\<lambda>x s. Ok (ucast x) s)"

definition argaddr :: "nat \<Rightarrow> 'z procs_scheme \<Rightarrow> ('z procs_scheme, u64) res" where
  "argaddr n s = argraw n s"

definition argstr :: "nat \<Rightarrow> nat \<Rightarrow> 'z procs_scheme \<Rightarrow> ('z procs_scheme, cint \<times> u8 list) res" where
  "argstr n mx s = bnd (argaddr n s) (\<lambda>addr s. fetchstr addr mx s)"

text \<open>\<^verbatim>\<open>argfd\<close>: the descriptor and the file, or \<open>None\<close> for -1.\<close>

definition argfd :: "nat \<Rightarrow> 'z procs_scheme \<Rightarrow> ('z procs_scheme, (nat \<times> nat) option) res" where
  "argfd n s =
     bnd (argint n s) (\<lambda>fd. with_proc (\<lambda>p s.
       if sint fd < 0 \<or> int NOFILE \<le> sint fd then Ok None s
       else case p_ofile (ptable s p) (unat fd) of None \<Rightarrow> Ok None s | Some f \<Rightarrow> Ok (Some (unat fd, f)) s))"

definition set_ofile :: "nat \<Rightarrow> nat \<Rightarrow> nat option \<Rightarrow> 'z procs_scheme \<Rightarrow> 'z procs_scheme" where
  "set_ofile p fd f s = upd_proc p (\<lambda>q. q\<lparr>p_ofile := (p_ofile q)(fd := f)\<rparr>) s"

definition fdalloc :: "nat \<Rightarrow> 'z procs_scheme \<Rightarrow> ('z procs_scheme, nat option) res" where
  "fdalloc f = with_proc (\<lambda>p s.
     case first_index (\<lambda>fd. p_ofile (ptable s p) fd = None) NOFILE of
       None \<Rightarrow> Ok None s
     | Some fd \<Rightarrow> Ok (Some fd) (set_ofile p fd (Some f) s))"

section \<open>Descriptors\<close>

definition sys_dup :: "'z filest_scheme \<Rightarrow> ('z filest_scheme, u64) res" where
  "sys_dup s =
     bnd (argfd 0 s) (\<lambda>r s.
       case r of
         None \<Rightarrow> Ok (- 1) s
       | Some (_, f) \<Rightarrow>
           bnd (fdalloc f s) (\<lambda>r s.
             case r of
               None \<Rightarrow> Ok (- 1) s
             | Some fd \<Rightarrow> bnd (filedup f s) (\<lambda>_ s. Ok (of_nat fd) s)))"

definition sys_read :: "'z filest_scheme \<Rightarrow> ('z filest_scheme, u64) res" where
  "sys_read s =
     bnd (argaddr 1 s) (\<lambda>p s.
     bnd (argint 2 s) (\<lambda>n s.
     bnd (argfd 0 s) (\<lambda>r s.
       case r of None \<Rightarrow> Ok (- 1) s | Some (_, f) \<Rightarrow> bnd (fileread f p n s) (\<lambda>r s. Ok (scast r) s))))"

definition sys_write :: "'z filest_scheme \<Rightarrow> ('z filest_scheme, u64) res" where
  "sys_write s =
     bnd (argaddr 1 s) (\<lambda>p s.
     bnd (argint 2 s) (\<lambda>n s.
     bnd (argfd 0 s) (\<lambda>r s.
       case r of None \<Rightarrow> Ok (- 1) s | Some (_, f) \<Rightarrow> bnd (filewrite f p n s) (\<lambda>r s. Ok (scast r) s))))"

definition sys_close :: "'z filest_scheme \<Rightarrow> ('z filest_scheme, u64) res" where
  "sys_close s =
     bnd (argfd 0 s) (\<lambda>r s.
       case r of
         None \<Rightarrow> Ok (- 1) s
       | Some (fd, f) \<Rightarrow> with_proc (\<lambda>p s. bnd (fileclose f (set_ofile p fd None s)) (\<lambda>_ s. Ok 0 s)) s)"

definition sys_fstat :: "u8 list \<Rightarrow> 'z filest_scheme \<Rightarrow> ('z filest_scheme, u64) res" where
  "sys_fstat pad s =
     bnd (argaddr 1 s) (\<lambda>a s.
     bnd (argfd 0 s) (\<lambda>r s.
       case r of None \<Rightarrow> Ok (- 1) s | Some (_, f) \<Rightarrow> bnd (filestat pad f a s) (\<lambda>r s. Ok (scast r) s)))"

section \<open>Directories\<close>

text \<open>\<^verbatim>\<open>end_op(); return -1;\<close>, and the same after \<^verbatim>\<open>iunlockput\<close>.\<close>

definition fail_op :: "'z logst_scheme \<Rightarrow> ('z logst_scheme, u64) res" where
  "fail_op s = bnd (end_op s) (\<lambda>_ s. Ok (- 1) s)"

definition fail_put :: "nat \<Rightarrow> 'z fsst_scheme \<Rightarrow> ('z fsst_scheme, u64) res" where
  "fail_put ip s = bnd (iunlockput ip s) (\<lambda>_ s. fail_op s)"

definition add_nlink :: "nat \<Rightarrow> u16 \<Rightarrow> 'z fsst_scheme \<Rightarrow> ('z fsst_scheme, unit) res" where
  "add_nlink ip d s = iupdate ip (upd_inode ip (\<lambda>x. x\<lparr>i_nlink := i_nlink x + d\<rparr>) s)"

definition link_bad :: "nat \<Rightarrow> 'z fsst_scheme \<Rightarrow> ('z fsst_scheme, u64) res" where
  "link_bad ip s =
     bnd (ilock (Some ip) s) (\<lambda>_ s.
     bnd (add_nlink ip (- 1) s) (\<lambda>_ s.
     fail_put ip s))"

definition link_new :: "nat \<Rightarrow> u8 list \<Rightarrow> 'z fsst_scheme \<Rightarrow> ('z fsst_scheme, u64) res" where
  "link_new ip path s =
     bnd (nameiparent path (replicate DIRSIZ 0) s) (\<lambda>(r, name) s.
       case r of
         None \<Rightarrow> link_bad ip s
       | Some dp \<Rightarrow>
           bnd (ilock (Some dp) s) (\<lambda>_ s.
           bnd (if i_dev (inodes s dp) \<noteq> i_dev (inodes s ip) then Ok (- 1) s else dirlink dp name (i_inum (inodes s ip)) s) (\<lambda>r s.
           if sint r < 0 then bnd (iunlockput dp s) (\<lambda>_ s. link_bad ip s)
           else
             bnd (iunlockput dp s) (\<lambda>_ s.
             bnd (iput ip s) (\<lambda>_ s.
             bnd (end_op s) (\<lambda>_ s. Ok 0 s))))))"

definition sys_link :: "'z fsst_scheme \<Rightarrow> ('z fsst_scheme, u64) res" where
  "sys_link s =
     bnd (argstr 0 MAXPATH s) (\<lambda>(r, old) s.
     if sint r < 0 then Ok (- 1) s
     else
       bnd (argstr 1 MAXPATH s) (\<lambda>(r, new) s.
       if sint r < 0 then Ok (- 1) s
       else
         bnd (begin_op s) (\<lambda>_ s.
         bnd (namei old s) (\<lambda>r s.
         case r of
           None \<Rightarrow> fail_op s
         | Some ip \<Rightarrow>
             bnd (ilock (Some ip) s) (\<lambda>_ s.
             if i_type (inodes s ip) = T_DIR then fail_put ip s
             else
               bnd (add_nlink ip 1 s) (\<lambda>_ s.
               bnd (iunlock (Some ip) s) (\<lambda>_ s.
               link_new ip new s)))))))"

fun isdirempty_loop :: "nat \<Rightarrow> u32 list \<Rightarrow> 'z fsst_scheme \<Rightarrow> ('z fsst_scheme, bool) res" where
  "isdirempty_loop dp [] s = Ok True s"
| "isdirempty_loop dp (off # offs) s =
     bnd (readi dp Dst_local off DIRENT_SIZE s) (\<lambda>(n, de) s.
       if n \<noteq> DIRENT_SIZE then Panic ''isdirempty: readi''
       else if get16 0 de \<noteq> 0 then Ok False s
       else isdirempty_loop dp offs s)"

definition isdirempty :: "nat \<Rightarrow> 'z fsst_scheme \<Rightarrow> ('z fsst_scheme, bool) res" where
  "isdirempty dp s = isdirempty_loop dp (drop 2 (dirent_offs (i_size (inodes s dp)))) s"

text \<open>\<^verbatim>\<open>namecmp(name, ".") == 0 || namecmp(name, "..") == 0\<close>, \<open>None\<close> when \<^verbatim>\<open>name\<close> is not a string.\<close>

definition dot_name :: "u8 list \<Rightarrow> bool option" where
  "dot_name name =
     (case namecmp name [46, 0] of
        None \<Rightarrow> None
      | Some r \<Rightarrow> if r = 0 then Some True else map_option (\<lambda>r. r = 0) (namecmp name [46, 46, 0]))"

text \<open>\<^verbatim>\<open>sys_unlink\<close> from the entry found at \<open>off\<close> on, both inodes locked.\<close>

definition unlink_entry :: "nat \<Rightarrow> nat \<Rightarrow> u32 \<Rightarrow> 'z fsst_scheme \<Rightarrow> ('z fsst_scheme, u64) res" where
  "unlink_entry dp ip off s =
     (if sint (i_nlink (inodes s ip)) < 1 then Panic ''unlink: nlink < 1''
      else
        bnd (if i_type (inodes s ip) = T_DIR then isdirempty ip s else Ok True s) (\<lambda>e s.
        if \<not> e then bnd (iunlockput ip s) (\<lambda>_ s. fail_put dp s)
        else
          bnd (writei dp (Src_local (replicate 16 0)) off DIRENT_SIZE s) (\<lambda>n s.
          if n \<noteq> DIRENT_SIZE then Panic ''unlink: writei''
          else
            bnd (if i_type (inodes s ip) = T_DIR then add_nlink dp (- 1) s else Ok () s) (\<lambda>_ s.
            bnd (iunlockput dp s) (\<lambda>_ s.
            bnd (add_nlink ip (- 1) s) (\<lambda>_ s.
            bnd (iunlockput ip s) (\<lambda>_ s.
            bnd (end_op s) (\<lambda>_ s. Ok 0 s))))))))"

definition sys_unlink :: "'z fsst_scheme \<Rightarrow> ('z fsst_scheme, u64) res" where
  "sys_unlink s =
     bnd (argstr 0 MAXPATH s) (\<lambda>(r, path) s.
     if sint r < 0 then Ok (- 1) s
     else
       bnd (begin_op s) (\<lambda>_ s.
       bnd (nameiparent path (replicate DIRSIZ 0) s) (\<lambda>(r, name) s.
       case r of
         None \<Rightarrow> fail_op s
       | Some dp \<Rightarrow>
           bnd (ilock (Some dp) s) (\<lambda>_ s.
           case dot_name name of
             None \<Rightarrow> Undef ''name is not a string''
           | Some True \<Rightarrow> fail_put dp s
           | Some False \<Rightarrow>
               bnd (dirlookup dp name s) (\<lambda>r s.
               case r of
                 None \<Rightarrow> fail_put dp s
               | Some (ip, off) \<Rightarrow> bnd (ilock (Some ip) s) (\<lambda>_ s. unlink_entry dp ip off s))))))"

text \<open>The label \<^verbatim>\<open>fail\<close> of \<^verbatim>\<open>create\<close>.\<close>

definition create_fail :: "nat \<Rightarrow> nat \<Rightarrow> 'z fsst_scheme \<Rightarrow> ('z fsst_scheme, nat option) res" where
  "create_fail ip dp s =
     bnd (iupdate ip (upd_inode ip (\<lambda>x. x\<lparr>i_nlink := 0\<rparr>) s)) (\<lambda>_ s.
     bnd (iunlockput ip s) (\<lambda>_ s.
     bnd (iunlockput dp s) (\<lambda>_ s. Ok None s)))"

definition create_new :: "nat \<Rightarrow> nat \<Rightarrow> u8 list \<Rightarrow> u16 \<Rightarrow> u16 \<Rightarrow> u16 \<Rightarrow> 'z fsst_scheme \<Rightarrow> ('z fsst_scheme, nat option) res" where
  "create_new ip dp name type major minor s =
     bnd (ilock (Some ip) s) (\<lambda>_ s.
     bnd (iupdate ip (upd_inode ip (\<lambda>x. x\<lparr>i_major := major, i_minor := minor, i_nlink := 1\<rparr>) s)) (\<lambda>_ s.
     bnd (if type = T_DIR then
            bnd (dirlink ip [46, 0] (i_inum (inodes s ip)) s) (\<lambda>r s.
            if sint r < 0 then Ok r s else dirlink ip [46, 46, 0] (i_inum (inodes s dp)) s)
          else Ok 0 s) (\<lambda>r s.
     if sint r < 0 then create_fail ip dp s
     else
       bnd (dirlink dp name (i_inum (inodes s ip)) s) (\<lambda>r s.
       if sint r < 0 then create_fail ip dp s
       else
         bnd (if type = T_DIR then add_nlink dp 1 s else Ok () s) (\<lambda>_ s.
         bnd (iunlockput dp s) (\<lambda>_ s. Ok (Some ip) s))))))"

definition create :: "u8 list \<Rightarrow> u16 \<Rightarrow> u16 \<Rightarrow> u16 \<Rightarrow> 'z fsst_scheme \<Rightarrow> ('z fsst_scheme, nat option) res" where
  "create path type major minor s =
     bnd (nameiparent path (replicate DIRSIZ 0) s) (\<lambda>(r, name) s.
       case r of
         None \<Rightarrow> Ok None s
       | Some dp \<Rightarrow>
           bnd (ilock (Some dp) s) (\<lambda>_ s.
           bnd (dirlookup dp name s) (\<lambda>r s.
           case r of
             Some (ip, _) \<Rightarrow>
               bnd (iunlockput dp s) (\<lambda>_ s.
               bnd (ilock (Some ip) s) (\<lambda>_ s.
               if type = T_FILE \<and> (i_type (inodes s ip) = T_FILE \<or> i_type (inodes s ip) = T_DEVICE) then Ok (Some ip) s
               else bnd (iunlockput ip s) (\<lambda>_ s. Ok None s)))
           | None \<Rightarrow>
               bnd (ialloc (i_dev (inodes s dp)) type s) (\<lambda>r s.
               case r of
                 None \<Rightarrow> bnd (iunlockput dp s) (\<lambda>_ s. Ok None s)
               | Some ip \<Rightarrow> create_new ip dp name type major minor s))))"

text \<open>\<^verbatim>\<open>sys_open\<close> from the locked inode on.\<close>

definition open_inode :: "nat \<Rightarrow> cint \<Rightarrow> 'z filest_scheme \<Rightarrow> ('z filest_scheme, u64) res" where
  "open_inode ip omode s =
     (let dev = (i_type (inodes s ip) = T_DEVICE) in
      if dev \<and> (sint (i_major (inodes s ip)) < 0 \<or> int NDEV \<le> sint (i_major (inodes s ip))) then fail_put ip s
      else case filealloc s of
        (None, s) \<Rightarrow> fail_put ip s
      | (Some f, s) \<Rightarrow>
          bnd (fdalloc f s) (\<lambda>r s.
          case r of
            None \<Rightarrow> bnd (fileclose f s) (\<lambda>_ s. fail_put ip s)
          | Some fd \<Rightarrow>
              let s = (if dev then upd_file f (\<lambda>x. x\<lparr>f_type := FD_DEVICE, f_major := i_major (inodes s ip)\<rparr>) s
                       else upd_file f (\<lambda>x. x\<lparr>f_type := FD_INODE, f_off := 0\<rparr>) s);
                  s = upd_file f (\<lambda>x. x\<lparr>f_ip := Some ip, f_readable := (if omode AND O_WRONLY = 0 then 1 else 0),
                        f_writable := (if omode AND O_WRONLY \<noteq> 0 \<or> omode AND O_RDWR \<noteq> 0 then 1 else 0)\<rparr>) s in
              bnd (if omode AND O_TRUNC \<noteq> 0 \<and> i_type (inodes s ip) = T_FILE then itrunc ip s else Ok () s) (\<lambda>_ s.
              bnd (iunlock (Some ip) s) (\<lambda>_ s.
              bnd (end_op s) (\<lambda>_ s. Ok (of_nat fd) s)))))"

definition sys_open :: "'z filest_scheme \<Rightarrow> ('z filest_scheme, u64) res" where
  "sys_open s =
     bnd (argint 1 s) (\<lambda>omode s.
     bnd (argstr 0 MAXPATH s) (\<lambda>(n, path) s.
     if sint n < 0 then Ok (- 1) s
     else
       bnd (begin_op s) (\<lambda>_ s.
       if omode AND O_CREATE \<noteq> 0 then
         bnd (create path T_FILE 0 0 s) (\<lambda>r s. case r of None \<Rightarrow> fail_op s | Some ip \<Rightarrow> open_inode ip omode s)
       else
         bnd (namei path s) (\<lambda>r s.
         case r of
           None \<Rightarrow> fail_op s
         | Some ip \<Rightarrow>
             bnd (ilock (Some ip) s) (\<lambda>_ s.
             if i_type (inodes s ip) = T_DIR \<and> omode \<noteq> O_RDONLY then fail_put ip s else open_inode ip omode s)))))"

text \<open>What \<^verbatim>\<open>sys_mkdir\<close> and \<^verbatim>\<open>sys_mknod\<close> share: create, then let go of the inode.\<close>

definition make_node :: "u16 \<Rightarrow> u16 \<Rightarrow> u16 \<Rightarrow> 'z fsst_scheme \<Rightarrow> ('z fsst_scheme, u64) res" where
  "make_node type major minor s =
     bnd (argstr 0 MAXPATH s) (\<lambda>(n, path) s.
     if sint n < 0 then fail_op s
     else
       bnd (create path type major minor s) (\<lambda>r s.
       case r of
         None \<Rightarrow> fail_op s
       | Some ip \<Rightarrow> bnd (iunlockput ip s) (\<lambda>_ s. bnd (end_op s) (\<lambda>_ s. Ok 0 s))))"

definition sys_mkdir :: "'z fsst_scheme \<Rightarrow> ('z fsst_scheme, u64) res" where
  "sys_mkdir s = bnd (begin_op s) (\<lambda>_ s. make_node T_DIR 0 0 s)"

definition sys_mknod :: "'z fsst_scheme \<Rightarrow> ('z fsst_scheme, u64) res" where
  "sys_mknod s =
     bnd (begin_op s) (\<lambda>_ s.
     bnd (argint 1 s) (\<lambda>major s.
     bnd (argint 2 s) (\<lambda>minor s.
     make_node T_DEVICE (ucast major) (ucast minor) s)))"

definition sys_chdir :: "'z fsst_scheme \<Rightarrow> ('z fsst_scheme, u64) res" where
  "sys_chdir = with_proc (\<lambda>p s.
     bnd (begin_op s) (\<lambda>_ s.
     bnd (argstr 0 MAXPATH s) (\<lambda>(n, path) s.
     if sint n < 0 then fail_op s
     else
       bnd (namei path s) (\<lambda>r s.
       case r of
         None \<Rightarrow> fail_op s
       | Some ip \<Rightarrow>
           bnd (ilock (Some ip) s) (\<lambda>_ s.
           if i_type (inodes s ip) \<noteq> T_DIR then fail_put ip s
           else
             bnd (iunlock (Some ip) s) (\<lambda>_ s.
             case p_cwd (ptable s p) of
               None \<Rightarrow> Undef ''iput(0)''
             | Some cwd \<Rightarrow>
                 bnd (iput cwd s) (\<lambda>_ s.
                 bnd (end_op s) (\<lambda>_ s.
                 Ok 0 (upd_proc p (\<lambda>q. q\<lparr>p_cwd := Some ip\<rparr>) s)))))))))"

section \<open>exec and pipe\<close>

text \<open>
  The loop of \<^verbatim>\<open>sys_exec\<close> that fetches the arguments, each into a page of its own: the pages so far, the strings in them, and whether
  all were fetched. \<open>k\<close> is the number of free places of \<^verbatim>\<open>argv\<close>.
\<close>

fun fetch_args :: "nat \<Rightarrow> u64 \<Rightarrow> u64 list \<Rightarrow> u8 list list \<Rightarrow> 'z procs_scheme \<Rightarrow> ('z procs_scheme, bool \<times> u64 list \<times> u8 list list) res" where
  "fetch_args 0 uargv pages argv s = Ok (False, pages, argv) s"
| "fetch_args (Suc k) uargv pages argv s =
     bnd (fetchaddr (uargv + of_nat (8 * length pages)) s) (\<lambda>r s.
       case r of
         None \<Rightarrow> Ok (False, pages, argv) s
       | Some uarg \<Rightarrow>
           if uarg = 0 then Ok (True, pages, argv) s
           else
             bnd (kalloc s) (\<lambda>pa s.
             if pa = 0 then Ok (False, pages, argv) s
             else
               bnd (fetchstr uarg PGSIZE_nat s) (\<lambda>(n, buf) s.
               let s = s\<lparr>mem := mwrite (mem s) pa buf\<rparr> in
               if sint n < 0 then Ok (False, pages @ [pa], argv @ [buf]) s
               else fetch_args k uargv (pages @ [pa]) (argv @ [buf]) s)))"

definition sys_exec :: "'z filest_scheme \<Rightarrow> ('z filest_scheme, u64) res" where
  "sys_exec s =
     bnd (argaddr 1 s) (\<lambda>uargv s.
     bnd (argstr 0 MAXPATH s) (\<lambda>(n, path) s.
     if sint n < 0 then Ok (- 1) s
     else
       bnd (fetch_args MAXARG uargv [] [] s) (\<lambda>(ok, pages, argv) s.
       if ok then
         bnd (exec path argv s) (\<lambda>ret s.
         bnd (loop kfree pages s) (\<lambda>_ s. Ok (scast ret) s))
       else bnd (loop kfree pages s) (\<lambda>_ s. Ok (- 1) s))))"

text \<open>The end of the two failing paths of \<^verbatim>\<open>sys_pipe\<close>.\<close>

definition pipe_fail :: "nat \<Rightarrow> nat \<Rightarrow> 'z filest_scheme \<Rightarrow> ('z filest_scheme, u64) res" where
  "pipe_fail fr fw s = bnd (fileclose fr s) (\<lambda>_ s. bnd (fileclose fw s) (\<lambda>_ s. Ok (- 1) s))"

definition sys_pipe :: "'z filest_scheme \<Rightarrow> ('z filest_scheme, u64) res" where
  "sys_pipe = with_proc (\<lambda>p s.
     bnd (argaddr 0 s) (\<lambda>fdarray s.
     bnd (pipealloc s) (\<lambda>r s.
     case r of
       None \<Rightarrow> Ok (- 1) s
     | Some (fr, fw) \<Rightarrow>
         bnd (fdalloc fr s) (\<lambda>r s.
         case r of
           None \<Rightarrow> pipe_fail fr fw s
         | Some fd0 \<Rightarrow>
             bnd (fdalloc fw s) (\<lambda>r s.
             case r of
               None \<Rightarrow> pipe_fail fr fw (set_ofile p fd0 None s)
             | Some fd1 \<Rightarrow>
                 bnd (copyout (p_pagetable (ptable s p)) fdarray (bytes32 (of_nat fd0)) s) (\<lambda>r s.
                 bnd (if sint r < 0 then Ok r s else copyout (p_pagetable (ptable s p)) (fdarray + 4) (bytes32 (of_nat fd1)) s) (\<lambda>r s.
                 if sint r < 0 then pipe_fail fr fw (set_ofile p fd1 None (set_ofile p fd0 None s))
                 else Ok 0 s)))))))"

end
