(* ===== verification/Syscall.thy ===== *)
theory Syscall
  imports Sysfile
begin

text \<open>
  The remaining system calls, \<^verbatim>\<open>kernel/sysproc.c\<close>, and their dispatch with tracing, the rest of \<^verbatim>\<open>kernel/syscall.c\<close>. A system call
  returns a value or ends the process. Bytes of the kernel stack that the code copies out without having set them (the
  padding of \<^verbatim>\<open>struct stat\<close>, the times of a failed \<^verbatim>\<open>waitx\<close>) are arguments.
\<close>

datatype sysret = Returns u64 | Exits

section \<open>Processes\<close>

definition sys_exit :: "'z filest_scheme \<Rightarrow> ('z filest_scheme, sysret) res" where
  "sys_exit s = bnd (argint 0 s) (\<lambda>n s. bnd (exit n s) (\<lambda>_ s. Ok Exits s))"

definition sys_getpid :: "'z procs_scheme \<Rightarrow> ('z procs_scheme, u64) res" where
  "sys_getpid = with_proc (\<lambda>p s. Ok (scast (p_pid (ptable s p))) s)"

definition sys_fork :: "'z filest_scheme \<Rightarrow> ('z filest_scheme, u64) res" where
  "sys_fork s = bnd (fork s) (\<lambda>r s. Ok (scast r) s)"

definition sys_wait :: "'z procs_scheme \<Rightarrow> ('z procs_scheme, u64) res" where
  "sys_wait s = bnd (argaddr 0 s) (\<lambda>a s. bnd (wait a s) (\<lambda>r s. Ok (scast r) s))"

definition sys_waitx :: "u32 \<times> u32 \<Rightarrow> 'z procs_scheme \<Rightarrow> ('z procs_scheme, u64) res" where
  "sys_waitx junk s =
     bnd (argaddr 0 s) (\<lambda>addr s.
     bnd (argaddr 1 s) (\<lambda>addr1 s.
     bnd (argaddr 2 s) (\<lambda>addr2 s.
     bnd (waitx addr s) (\<lambda>(ret, times). with_proc (\<lambda>p s.
     let (wtime, rtime) = (case times of Some t \<Rightarrow> t | None \<Rightarrow> junk) in
     bnd (copyout (p_pagetable (ptable s p)) addr1 (bytes32 wtime) s) (\<lambda>r s.
     if sint r < 0 then Ok (- 1) s
     else
       bnd (copyout (p_pagetable (ptable s p)) addr2 (bytes32 rtime) s) (\<lambda>r s.
       if sint r < 0 then Ok (- 1) s else Ok (scast ret) s)))))))"

definition sys_sbrk :: "'z procs_scheme \<Rightarrow> ('z procs_scheme, u64) res" where
  "sys_sbrk s =
     bnd (argint 0 s) (\<lambda>n. with_proc (\<lambda>p s.
     let addr = p_sz (ptable s p) in
     bnd (growproc n s) (\<lambda>r s. if sint r < 0 then Ok (- 1) s else Ok addr s)))"

text \<open>The loop of \<^verbatim>\<open>sys_sleep\<close>: a process that slept in it goes on here, with the \<^verbatim>\<open>ticks0\<close> it had read. The comparison is unsigned.\<close>

definition sys_sleep_loop :: "u32 \<Rightarrow> cint \<Rightarrow> 'z procs_scheme \<Rightarrow> ('z procs_scheme, u64) res" where
  "sys_sleep_loop ticks0 n s =
     (if ticks s - ticks0 < n then with_proc (\<lambda>p s. if killed p s \<noteq> 0 then Ok (- 1) s else sleep Ch_ticks s) s
      else Ok 0 s)"

definition sys_sleep :: "'z procs_scheme \<Rightarrow> ('z procs_scheme, u64) res" where
  "sys_sleep s = bnd (argint 0 s) (\<lambda>n s. sys_sleep_loop (ticks s) n s)"

definition sys_kill :: "'z procs_scheme \<Rightarrow> ('z procs_scheme, u64) res" where
  "sys_kill s = bnd (argint 0 s) (\<lambda>pid s. let (r, s) = kill pid s in Ok (scast r) s)"

definition sys_uptime :: "'z procs_scheme \<Rightarrow> ('z procs_scheme, u64) res" where
  "sys_uptime s = Ok (ucast (ticks s)) s"

definition sys_trace :: "'z procs_scheme \<Rightarrow> ('z procs_scheme, u64) res" where
  "sys_trace s = bnd (argint 0 s) (\<lambda>mask. with_proc (\<lambda>p s. Ok 0 (upd_proc p (\<lambda>q. q\<lparr>trace_mask := mask\<rparr>) s)))"

definition sys_set_priority :: "'z procs_scheme \<Rightarrow> ('z procs_scheme, u64) res" where
  "sys_set_priority s =
     bnd (argint 0 s) (\<lambda>priority s.
     bnd (argint 1 s) (\<lambda>pid s.
     let (old, s) = set_priority priority pid s in Ok (scast old) s))"

text \<open>The call passes \<^verbatim>\<open>pid\<close> first, where \<^verbatim>\<open>settickets\<close> takes the number of tickets.\<close>

definition sys_settickets :: "'z procs_scheme \<Rightarrow> ('z procs_scheme, u64) res" where
  "sys_settickets s =
     bnd (argint 0 s) (\<lambda>n s.
     bnd (argint 1 s) (\<lambda>pid s.
     bnd (settickets pid n s) (\<lambda>r s. Ok (scast r) s)))"

definition sys_sigalarm :: "'z procs_scheme \<Rightarrow> ('z procs_scheme, u64) res" where
  "sys_sigalarm s =
     bnd (argint 0 s) (\<lambda>n s.
     bnd (argaddr 1 s) (\<lambda>handler. with_proc (\<lambda>p s.
     Ok 0 (upd_proc p (\<lambda>q. q\<lparr>alarm_handler := handler, alarm_ticks := n, alarm_ticks_left := n, alarm_flag := 0\<rparr>) s))))"

definition sys_sigreturn :: "'z procs_scheme \<Rightarrow> ('z procs_scheme, u64) res" where
  "sys_sigreturn = with_proc (\<lambda>p s.
     let s = s\<lparr>mem := memmove (mem s) (p_trapframe (ptable s p)) (alarm_saved_tf (ptable s p)) TRAPFRAME_SIZE\<rparr> in
     bnd (kfree (alarm_saved_tf (ptable s p)) s) (\<lambda>_ s.
     let s = upd_proc p (\<lambda>q. q\<lparr>alarm_flag := 0\<rparr>) s in
     Ok (scast (ucast (tf_get p TF_a0 s) :: cint)) s))"

section \<open>Dispatch\<close>

definition returns_to :: "('s, u64) res \<Rightarrow> ('s, sysret) res" where
  "returns_to r = bnd r (\<lambda>v s. Ok (Returns v) s)"

text \<open>The table \<^verbatim>\<open>syscalls\<close>.\<close>

definition syscalls :: "u8 list \<Rightarrow> u32 \<times> u32 \<Rightarrow> nat \<Rightarrow> ('z filest_scheme \<Rightarrow> ('z filest_scheme, sysret) res) option" where
  "syscalls pad junk num =
     (if num = 1 then Some (returns_to \<circ> sys_fork)
      else if num = 2 then Some sys_exit
      else if num = 3 then Some (returns_to \<circ> sys_wait)
      else if num = 4 then Some (returns_to \<circ> sys_pipe)
      else if num = 5 then Some (returns_to \<circ> sys_read)
      else if num = 6 then Some (returns_to \<circ> sys_kill)
      else if num = 7 then Some (returns_to \<circ> sys_exec)
      else if num = 8 then Some (returns_to \<circ> sys_fstat pad)
      else if num = 9 then Some (returns_to \<circ> sys_chdir)
      else if num = 10 then Some (returns_to \<circ> sys_dup)
      else if num = 11 then Some (returns_to \<circ> sys_getpid)
      else if num = 12 then Some (returns_to \<circ> sys_sbrk)
      else if num = 13 then Some (returns_to \<circ> sys_sleep)
      else if num = 14 then Some (returns_to \<circ> sys_uptime)
      else if num = 15 then Some (returns_to \<circ> sys_open)
      else if num = 16 then Some (returns_to \<circ> sys_write)
      else if num = 17 then Some (returns_to \<circ> sys_mknod)
      else if num = 18 then Some (returns_to \<circ> sys_unlink)
      else if num = 19 then Some (returns_to \<circ> sys_link)
      else if num = 20 then Some (returns_to \<circ> sys_mkdir)
      else if num = 21 then Some (returns_to \<circ> sys_close)
      else if num = 22 then Some (returns_to \<circ> sys_waitx junk)
      else if num = 23 then Some (returns_to \<circ> sys_trace)
      else if num = 24 then Some (returns_to \<circ> sys_set_priority)
      else if num = 25 then Some (returns_to \<circ> sys_settickets)
      else if num = 26 then Some (returns_to \<circ> sys_sigalarm)
      else if num = 27 then Some (returns_to \<circ> sys_sigreturn)
      else None)"

text \<open>The table \<^verbatim>\<open>syscall_structs\<close>: the number of arguments and the name; an entry without initialiser is zero.\<close>

definition syscall_structs :: "nat \<Rightarrow> nat \<times> string option" where
  "syscall_structs num =
     (if num = 1 then (0, Some ''fork'')
      else if num = 2 then (1, Some ''exit'')
      else if num = 3 then (1, Some ''wait'')
      else if num = 4 then (1, Some ''pipe'')
      else if num = 5 then (3, Some ''read'')
      else if num = 6 then (1, Some ''kill'')
      else if num = 7 then (2, Some ''exec'')
      else if num = 8 then (2, Some ''fstat'')
      else if num = 9 then (1, Some ''chdir'')
      else if num = 10 then (1, Some ''dup'')
      else if num = 11 then (0, Some ''getpid'')
      else if num = 12 then (1, Some ''sbrk'')
      else if num = 13 then (1, Some ''sleep'')
      else if num = 14 then (0, Some ''uptime'')
      else if num = 15 then (2, Some ''open'')
      else if num = 16 then (3, Some ''write'')
      else if num = 17 then (3, Some ''mknod'')
      else if num = 18 then (1, Some ''unlink'')
      else if num = 19 then (2, Some ''link'')
      else if num = 20 then (1, Some ''mkdir'')
      else if num = 21 then (1, Some ''close'')
      else if num = 23 then (1, Some ''trace'')
      else if num = 24 then (1, Some ''trace'')
      else if num = 25 then (1, Some ''settickets'')
      else if num = 26 then (2, Some ''sigalarm'')
      else if num = 27 then (0, Some ''sigreturn'')
      else (0, None))"

definition print_trace :: "nat \<Rightarrow> nat \<Rightarrow> 'z procs_scheme \<Rightarrow> ('z procs_scheme, unit) res" where
  "print_trace p num s =
     (let (num_args, name) = syscall_structs num in
      bnd (printf (bstr ''%d: syscall %s ('') [P_int (p_pid (ptable s p)), P_str (map_option bstr name)] s) (\<lambda>_ s.
      bnd (loop (\<lambda>i s.
        bnd (argint i s) (\<lambda>a s.
        bnd (printf (bstr ''%d'') [P_int a] s) (\<lambda>_ s.
        if Suc i \<noteq> num_args then printf (bstr '' '') [] s else printf (bstr '')'') [] s))) [0..<num_args] s) (\<lambda>_ s.
      printf (bstr '' -> %d'' @ [10]) [P_int (ucast (tf_get p TF_a0 s))] s)))"

definition syscall :: "u8 list \<Rightarrow> u32 \<times> u32 \<Rightarrow> 'z filest_scheme \<Rightarrow> ('z filest_scheme, bool) res" where
  "syscall pad junk = with_proc (\<lambda>p s.
     let num = (ucast (tf_get p TF_a7 s) :: cint) in
     case (if 0 < sint num then syscalls pad junk (nat (sint num)) else None) of
       Some f \<Rightarrow>
         bnd (f s) (\<lambda>r s.
         case r of
           Exits \<Rightarrow> Ok False s
         | Returns v \<Rightarrow>
             let s = tf_set p TF_a0 v s in
             if trace_mask (ptable s p) AND push_bit (nat (sint num)) 1 \<noteq> 0
             then bnd (print_trace p (nat (sint num)) s) (\<lambda>_ s. Ok True s) else Ok True s)
     | None \<Rightarrow>
         bnd (printf (bstr ''%d %s: unknown sys call %d'' @ [10]) [P_int (p_pid (ptable s p)), P_str (Some (cstr (p_name (ptable s p)))), P_int num] s) (\<lambda>_ s.
         Ok True (tf_set p TF_a0 (- 1) s)))"

end
