(* ===== verification/Trap.thy ===== *)
theory Trap
  imports Syscall
begin

text \<open>
  Traps, \<^verbatim>\<open>kernel/trap.c\<close>, with the interrupt controller of \<^verbatim>\<open>kernel/plic.c\<close>, the \<^verbatim>\<open>forkret\<close> of \<^verbatim>\<open>kernel/proc.c\<close> and the boot sequence of
  \<^verbatim>\<open>kernel/main.c\<close>. A trap from user space ends on the way back to user space, in \<^verbatim>\<open>exit\<close>, or in \<^verbatim>\<open>yield\<close>; what follows a \<^verbatim>\<open>yield\<close> is
  \<open>usertrapret\<close>, once the process is scheduled again. A read of a register of the controller gives the value \<open>plic_reads\<close> has for
  its address.
\<close>

abbreviation (input) UART0_IRQ :: cint where "UART0_IRQ \<equiv> 10"
abbreviation (input) VIRTIO0_IRQ :: cint where "VIRTIO0_IRQ \<equiv> 1"

record kst = filest +
  plic_reads :: "u64 \<Rightarrow> u32"
  plic_writes :: "(u64 \<times> u32) list"
  forkret_first :: cint
  started :: cint

section \<open>The interrupt controller\<close>

definition PLIC_SENABLE :: "nat \<Rightarrow> u64" where
  "PLIC_SENABLE h = PLIC + 0x2080 + of_nat h * 0x100"

definition PLIC_SPRIORITY :: "nat \<Rightarrow> u64" where
  "PLIC_SPRIORITY h = PLIC + 0x201000 + of_nat h * 0x2000"

definition PLIC_SCLAIM :: "nat \<Rightarrow> u64" where
  "PLIC_SCLAIM h = PLIC + 0x201004 + of_nat h * 0x2000"

definition plic_write :: "u64 \<Rightarrow> u32 \<Rightarrow> 'z kst_scheme \<Rightarrow> 'z kst_scheme" where
  "plic_write a v s = s\<lparr>plic_writes := plic_writes s @ [(a, v)]\<rparr>"

definition plicinit :: "'z kst_scheme \<Rightarrow> 'z kst_scheme" where
  "plicinit s = plic_write (PLIC + ucast VIRTIO0_IRQ * 4) 1 (plic_write (PLIC + ucast UART0_IRQ * 4) 1 s)"

definition plicinithart :: "'z kst_scheme \<Rightarrow> 'z kst_scheme" where
  "plicinithart s = plic_write (PLIC_SPRIORITY (cpuid s)) 0 (plic_write (PLIC_SENABLE (cpuid s)) (push_bit 10 1 OR push_bit 1 1) s)"

definition plic_claim :: "'z kst_scheme \<Rightarrow> cint" where
  "plic_claim s = plic_reads s (PLIC_SCLAIM (cpuid s))"

definition plic_complete :: "cint \<Rightarrow> 'z kst_scheme \<Rightarrow> 'z kst_scheme" where
  "plic_complete irq s = plic_write (PLIC_SCLAIM (cpuid s)) irq s"

section \<open>Device interrupts\<close>

definition trapinithart :: "'z harts_scheme \<Rightarrow> 'z harts_scheme" where
  "trapinithart s = upd_csr (\<lambda>c. c\<lparr>stvec := sym_kernelvec (syms s)\<rparr>) s"

definition clockintr :: "nat \<Rightarrow> 'z procs_scheme \<Rightarrow> 'z procs_scheme" where
  "clockintr algo s = wakeup (Some Ch_ticks) (update_time algo (s\<lparr>ticks := ticks s + 1\<rparr>))"

definition devintr :: "nat \<Rightarrow> 'z kst_scheme \<Rightarrow> ('z kst_scheme, nat) res" where
  "devintr algo s =
     (let cause = scause (mycsr s) in
      if cause AND 0x8000000000000000 \<noteq> 0 \<and> cause AND 0xff = 9 then
        let irq = plic_claim s in
        bnd (if irq = UART0_IRQ then uartintr s
             else if irq = VIRTIO0_IRQ then virtio_disk_intr s
             else if irq \<noteq> 0 then printf (bstr ''unexpected interrupt irq=%d'' @ [10]) [P_int irq] s
             else Ok () s) (\<lambda>_ s.
        Ok 1 (if irq \<noteq> 0 then plic_complete irq s else s))
      else if cause = 0x8000000000000001 then
        let s = (if cpuid s = 0 then clockintr algo s else s) in
        Ok 2 (upd_csr (\<lambda>c. c\<lparr>sip := sip c AND NOT 2\<rparr>) s)
      else Ok 0 s)"

section \<open>Traps from user space\<close>

datatype trap_out = To_user u64 | Exited | Yielded

text \<open>
  \<^verbatim>\<open>usertrapret\<close>: the value is the \<^verbatim>\<open>satp\<close> handed to \<^verbatim>\<open>userret\<close>, which restores the user registers from the trap frame. The \<^verbatim>\<open>satp\<close> it
  reads is the one value that every hart has installed in \<^verbatim>\<open>kvminithart\<close>.
\<close>

definition usertrapret :: "'z procs_scheme \<Rightarrow> ('z procs_scheme, u64) res" where
  "usertrapret s = bnd (myproc_call s) (\<lambda>r s.
     case r of None \<Rightarrow> Undef ''myproc() is null'' | Some p \<Rightarrow>
     if p_trapframe (ptable s p) = 0 then Undef ''trapframe is null'' else
     let s = intr_off s;
         s = upd_csr (\<lambda>c. c\<lparr>stvec := TRAMPOLINE + (sym_uservec (syms s) - sym_trampoline (syms s))\<rparr>) s;
         s = tf_set p TF_kernel_satp (satp s) s;
         s = tf_set p TF_kernel_sp (p_kstack (ptable s p) + PGSIZE) s;
         s = tf_set p TF_kernel_trap (sym_usertrap (syms s)) s;
         s = tf_set p TF_kernel_hartid (of_nat (hart s)) s;
         s = upd_csr (\<lambda>c. c\<lparr>sstatus := (sstatus c AND NOT SSTATUS_SPP) OR SSTATUS_SPIE\<rparr>) s;
         s = upd_csr (\<lambda>c. c\<lparr>sepc := tf_get p TF_epc s\<rparr>) s in
     Ok (MAKE_SATP (p_pagetable (ptable s p))) s)"

text \<open>The part of \<^verbatim>\<open>usertrap\<close> that looks at the cause: \<^verbatim>\<open>which_dev\<close>, or \<open>None\<close> when the process has exited.\<close>

definition usertrap_cause :: "nat \<Rightarrow> u8 list \<Rightarrow> u32 \<times> u32 \<Rightarrow> nat \<Rightarrow> 'z kst_scheme \<Rightarrow> ('z kst_scheme, nat option) res" where
  "usertrap_cause algo pad junk p s =
     (if scause (mycsr s) = 8 then
        if killed p s \<noteq> 0 then bnd (exit (- 1) s) (\<lambda>_ s. Ok None s)
        else
          let s = tf_set p TF_epc (tf_get p TF_epc s + 4) s in
          bnd (syscall pad junk (intr_on s)) (\<lambda>r s. Ok (if r then Some 0 else None) s)
      else if scause (mycsr s) = 15 then
        bnd (cowfault (p_pagetable (ptable s p)) (stval (mycsr s)) s) (\<lambda>r s.
        Ok (Some 0) (if sint r < 0 then upd_proc p (\<lambda>q. q\<lparr>p_killed := 1\<rparr>) s else s))
      else
        bnd (devintr algo s) (\<lambda>which_dev s.
        if which_dev \<noteq> 0 then Ok (Some which_dev) s
        else
          bnd (printf (bstr ''usertrap(): unexpected scause %p pid=%d'' @ [10]) [P_ptr (scause (mycsr s)), P_int (p_pid (ptable s p))] s) (\<lambda>_ s.
          bnd (printf (bstr ''            sepc=%p stval=%p'' @ [10]) [P_ptr (sepc (mycsr s)), P_ptr (stval (mycsr s))] s) (\<lambda>_ s.
          Ok (Some 0) (setkilled p s)))))"

text \<open>The alarm clock of a process, on a timer interrupt.\<close>

definition alarm_tick :: "nat \<Rightarrow> 'z procs_scheme \<Rightarrow> ('z procs_scheme, unit) res" where
  "alarm_tick p s =
     (if alarm_flag (ptable s p) \<noteq> 0 then Ok () s
      else
        let s = upd_proc p (\<lambda>q. q\<lparr>alarm_ticks_left := alarm_ticks_left q - 1\<rparr>) s in
        if alarm_ticks_left (ptable s p) \<noteq> 0 then Ok () s
        else
          bnd (kalloc (upd_proc p (\<lambda>q. q\<lparr>alarm_flag := 1\<rparr>) s)) (\<lambda>alarm_tf s.
          if alarm_tf = 0 then Undef ''memmove to a null page''
          else
            let s = s\<lparr>mem := memmove (mem s) alarm_tf (p_trapframe (ptable s p)) TRAPFRAME_SIZE\<rparr>;
                s = upd_proc p (\<lambda>q. q\<lparr>alarm_saved_tf := alarm_tf, alarm_ticks_left := alarm_ticks q\<rparr>) s in
            Ok () (tf_set p TF_epc (alarm_handler (ptable s p)) s)))"

definition usertrap :: "nat \<Rightarrow> u8 list \<Rightarrow> u32 \<times> u32 \<Rightarrow> 'z kst_scheme \<Rightarrow> ('z kst_scheme, trap_out) res" where
  "usertrap algo pad junk s =
     (if has (sstatus (mycsr s)) SSTATUS_SPP then Panic ''usertrap: not from user mode''
      else with_proc (\<lambda>p s.
        let s = tf_set p TF_epc (sepc (mycsr s)) s in
        bnd (usertrap_cause algo pad junk p s) (\<lambda>r s.
        case r of
          None \<Rightarrow> Ok Exited s
        | Some which_dev \<Rightarrow>
            if killed p s \<noteq> 0 then bnd (exit (- 1) s) (\<lambda>_ s. Ok Exited s)
            else if which_dev = 2 then
              bnd (alarm_tick p s) (\<lambda>_ s.
              bnd (yield s) (\<lambda>_ s. Ok Yielded s))
            else bnd (usertrapret s) (\<lambda>v s. Ok (To_user v) s))) (trapinithart s))"

section \<open>Traps from the kernel\<close>

text \<open>\<^verbatim>\<open>kerneltrap\<close> up to the \<^verbatim>\<open>yield\<close>, if it gets that far (the saved registers say so), and what is left to do in either case.\<close>

definition kerneltrap :: "nat \<Rightarrow> 'z kst_scheme \<Rightarrow> ('z kst_scheme, bool \<times> u64 \<times> u64) res" where
  "kerneltrap algo s =
     (let pc = sepc (mycsr s);
          status = sstatus (mycsr s);
          cause = scause (mycsr s) in
      if \<not> has status SSTATUS_SPP then Panic ''kerneltrap: not from supervisor mode''
      else if intr_get s then Panic ''kerneltrap: interrupts enabled''
      else
        bnd (devintr algo s) (\<lambda>which_dev s.
        if which_dev = 0 then
          bnd (printf (bstr ''scause %p'' @ [10]) [P_ptr cause] s) (\<lambda>_ s.
          bnd (printf (bstr ''sepc=%p stval=%p'' @ [10]) [P_ptr (sepc (mycsr s)), P_ptr (stval (mycsr s))] s) (\<lambda>_ s.
          Panic ''kerneltrap''))
        else if which_dev = 2 \<and> (case myproc s of None \<Rightarrow> False | Some p \<Rightarrow> p_state (ptable s p) = RUNNING)
        then bnd (yield s) (\<lambda>_ s. Ok (True, pc, status) s)
        else Ok (False, pc, status) s))"

definition kerneltrap_end :: "u64 \<Rightarrow> u64 \<Rightarrow> 'z harts_scheme \<Rightarrow> 'z harts_scheme" where
  "kerneltrap_end pc status s = upd_csr (\<lambda>c. c\<lparr>sstatus := status\<rparr>) (upd_csr (\<lambda>c. c\<lparr>sepc := pc\<rparr>) s)"

section \<open>The first steps of a process and of the kernel\<close>

definition forkret :: "'z kst_scheme \<Rightarrow> ('z kst_scheme, u64) res" where
  "forkret s =
     bnd (if forkret_first s \<noteq> 0 then fsinit ROOTDEV (s\<lparr>forkret_first := 0\<rparr>) else Ok () s) (\<lambda>_ s.
     usertrapret s)"

text \<open>The message about the scheduling policy; the fifth is not deployed and stops the boot.\<close>

definition boot_policy :: "nat \<Rightarrow> 'z kst_scheme \<Rightarrow> ('z kst_scheme, unit) res" where
  "boot_policy algo s =
     (if algo = 0 then printf (bstr ''Using Round Robin Scheduling'' @ [10]) [] s
      else if algo = 1 then printf (bstr ''Using First Come First Serve Scheduling'' @ [10]) [] s
      else if algo = 2 then printf (bstr ''Using Priority Based Scheduling'' @ [10]) [] s
      else if algo = 3 then printf (bstr ''Using Lottery Based Scheduling'' @ [10]) [] s
      else if algo = 4 then
        bnd (printf (bstr ''Using Multilevel Feedback Queue Scheduling'' @ [10]) [] s) (\<lambda>_ s. Panic ''MLFQ Scheduler not yet deployed'')
      else Ok () s)"

text \<open>\<^verbatim>\<open>main\<close> on the first hart and on the others, up to \<^verbatim>\<open>scheduler\<close>; the others wait for \<^verbatim>\<open>started\<close>.\<close>

definition main_boot :: "nat \<Rightarrow> 'z kst_scheme \<Rightarrow> ('z kst_scheme, unit) res" where
  "main_boot algo s =
     bnd (printf [10] [] (consoleinit s)) (\<lambda>_ s.
     bnd (printf (bstr ''=== Welcome to xv6-cos ==='' @ [10]) [] s) (\<lambda>_ s.
     bnd (printf (bstr ''The xv6-cos kernel is booting'' @ [10]) [] s) (\<lambda>_ s.
     bnd (printf [10] [] s) (\<lambda>_ s.
     bnd (boot_policy algo s) (\<lambda>_ s.
     bnd (kinit s) (\<lambda>_ s.
     bnd (kvminit s) (\<lambda>_ s.
     bnd (kvminithart s) (\<lambda>_ s.
     let s = procinit s;
         s = trapinithart s;
         s = plicinit s;
         s = plicinithart s;
         s = binit s;
         s = iinit s in
     bnd (virtio_disk_init s) (\<lambda>_ s.
     bnd (userinit s) (\<lambda>_ s.
     Ok () (s\<lparr>started := 1\<rparr>)))))))))))"

definition main_other :: "'z kst_scheme \<Rightarrow> ('z kst_scheme, unit) res" where
  "main_other s =
     bnd (printf (bstr ''hart %d starting'' @ [10]) [P_int (of_nat (cpuid s))] s) (\<lambda>_ s.
     bnd (kvminithart s) (\<lambda>_ s.
     Ok () (plicinithart (trapinithart s))))"

end
