(* ===== verification/Pipe_spec.thy ===== *)
theory Pipe_spec
  imports File Vm_spec Log_spec
begin

text \<open>
  What a pipe promises: it is a queue of at most PIPESIZE bytes. \<^verbatim>\<open>pipewrite\<close> appends the bytes user code sees at its argument, \<^verbatim>\<open>piperead\<close>
  takes bytes off the front and stores them there, at every value of the two wrapping counters. The first section gives the
  frame of the routines that touch user memory: they change nothing but memory, the free list and the counts.
\<close>

section \<open>Only memory moves\<close>

definition kmoves :: "'z kmem_scheme \<Rightarrow> 'z kmem_scheme \<Rightarrow> bool" where
  "kmoves s t \<longleftrightarrow> syms t = syms s \<and> kmem.more t = kmem.more s"

lemma kmoves_eq: "kmoves s t \<Longrightarrow> t = s\<lparr>mem := mem t, freelist := freelist t, refcnt := refcnt t\<rparr>"
  by (cases s rule: kmem.cases_scheme; cases t rule: kmem.cases_scheme) (simp add: kmoves_def)

lemma kmoves_refl [simp]: "kmoves s s"
  by (simp add: kmoves_def)

lemma kmoves_trans: "kmoves s t \<Longrightarrow> kmoves t u \<Longrightarrow> kmoves s u"
  by (simp add: kmoves_def)

lemma kmoves_mem_src: "kmoves (s\<lparr>mem := m\<rparr>) t \<Longrightarrow> kmoves s t"
  by (simp add: kmoves_def)

lemma kalloc_kmoves: "kalloc s = Ok p t \<Longrightarrow> kmoves s t"
  by (auto simp: kalloc_def kmoves_def Let_def split: if_splits)

lemma kfree_kmoves: "kfree p s = Ok u t \<Longrightarrow> kmoves s t"
  by (auto simp: kfree_def kmoves_def Let_def split: if_splits)

lemma walk_loop_kmoves: "walk_loop l pt va alloc s = Ok r t \<Longrightarrow> kmoves s t"
proof (induction l arbitrary: pt s)
  case (Suc l)
  then show ?case using Suc.prems
    by (auto simp: Let_def bnd_Ok_iff split: if_splits dest!: kalloc_kmoves dest: Suc.IH kmoves_mem_src intro: kmoves_trans)
qed simp

lemma walk_kmoves: "walk pt va alloc s = Ok r t \<Longrightarrow> kmoves s t"
  by (auto simp: walk_def bnd_Ok_iff split: if_splits option.splits dest!: walk_loop_kmoves)

lemma walkaddr_kmoves: "walkaddr pt va s = Ok r t \<Longrightarrow> kmoves s t"
  by (auto simp: walkaddr_def bnd_Ok_iff split: if_splits dest!: walk_kmoves)

lemma cowfault_kmoves: "cowfault pt va s = Ok r t \<Longrightarrow> kmoves s t"
  by (auto simp: cowfault_def bnd_Ok_iff Let_def split: if_splits dest!: walk_kmoves kalloc_kmoves kfree_kmoves kmoves_mem_src elim: kmoves_trans)

lemma copyout_kmoves: "copyout pt va src s = Ok r t \<Longrightarrow> kmoves s t"
proof (induction pt va src s rule: copyout.induct)
  case (1 pt va src s)
  show ?case
  proof (cases "src = [] \<or> PGROUNDDOWN va > MAXVA")
    case True
    then show ?thesis using 1(2) unfolding copyout.simps[of pt va src s] by (auto simp: Let_def split: if_splits)
  next
    case False
    then obtain r1 s1 where c: "cowfault pt (PGROUNDDOWN va) s = Ok r1 s1"
      and k: "(if sint r1 < 0 then Ok (- 1) s1
          else bnd (walkaddr pt (PGROUNDDOWN va) s1) (\<lambda>pa0 s. if pa0 = 0 then Ok (- 1) s else
            copyout pt (PGROUNDDOWN va + PGSIZE) (drop (page_part va (length src)) src)
              (s\<lparr>mem := mwrite (mem s) (pa0 + (va - PGROUNDDOWN va)) (take (page_part va (length src)) src)\<rparr>))) = Ok r t"
      using 1(2) unfolding copyout.simps[of pt va src s] Let_def by (auto simp: bnd_Ok_iff)
    show ?thesis
    proof (cases "sint r1 < 0")
      case True
      then show ?thesis using k cowfault_kmoves[OF c] by simp
    next
      case f: False
      then obtain pa s2 where w: "walkaddr pt (PGROUNDDOWN va) s1 = Ok pa s2"
        and e: "(if pa = 0 then Ok (- 1) s2 else copyout pt (PGROUNDDOWN va + PGSIZE) (drop (page_part va (length src)) src)
              (s2\<lparr>mem := mwrite (mem s2) (pa + (va - PGROUNDDOWN va)) (take (page_part va (length src)) src)\<rparr>)) = Ok r t"
        using k by (auto simp: bnd_Ok_iff)
      have m: "kmoves s s2" using cowfault_kmoves[OF c] walkaddr_kmoves[OF w] by (rule kmoves_trans)
      show ?thesis
      proof (cases "pa = 0")
        case True
        then show ?thesis using e m by simp
      next
        case nz: False
        then have "kmoves (s2\<lparr>mem := mwrite (mem s2) (pa + (va - PGROUNDDOWN va)) (take (page_part va (length src)) src)\<rparr>) t"
          using 1(1)[OF _ refl _ c f w nz refl refl] e False by simp
        then show ?thesis using kmoves_trans[OF m kmoves_mem_src] by blast
      qed
    qed
  qed
qed

section \<open>A pipe as a queue\<close>

interpretation pq: ring 512 pipe_idx
  by unfold_locales (simp_all add: pipe_idx_def)

definition pipe_q :: "u64 \<Rightarrow> 'z filest_scheme \<Rightarrow> u8 list" where
  "pipe_q a s = ring_list pipe_idx (pi_data (pipes s a)) (nread (pipes s a)) (nwrite (pipes s a))"

lemma pipe_q_cong: "pipes t a = pipes s a \<Longrightarrow> pipe_q a t = pipe_q a s"
  by (simp add: pipe_q_def)

lemma pipe_q_full: "length (pipe_q a s) \<le> PIPESIZE \<Longrightarrow> (nwrite (pipes s a) = nread (pipes s a) + of_nat PIPESIZE) = (length (pipe_q a s) = PIPESIZE)"
proof
  assume "nwrite (pipes s a) = nread (pipes s a) + of_nat PIPESIZE"
  then show "length (pipe_q a s) = PIPESIZE" by (simp add: pipe_q_def)
next
  assume "length (pipe_q a s) = PIPESIZE"
  then have "unat (nwrite (pipes s a) - nread (pipes s a)) = PIPESIZE" by (simp add: pipe_q_def)
  then have "nwrite (pipes s a) - nread (pipes s a) = of_nat PIPESIZE" by (simp add: word_unat_eq_iff)
  then show "nwrite (pipes s a) = nread (pipes s a) + of_nat PIPESIZE" by (simp add: algebra_simps)
qed

lemma pipe_q_push:
  assumes "length (pipe_q a s) < PIPESIZE"
  shows "pipe_q a (upd_pipe a (\<lambda>x. x\<lparr>pi_data := (pi_data x)(pipe_idx (nwrite x) := b), nwrite := nwrite x + 1\<rparr>) s) = pipe_q a s @ [b]"
  using assms pq.push[of "nwrite (pipes s a)" "nread (pipes s a)" "pi_data (pipes s a)" b] by (simp add: pipe_q_def upd_pipe_def)

lemma pipe_q_pop:
  assumes "nread (pipes s a) \<noteq> nwrite (pipes s a)"
  shows "pipe_q a s = pi_data (pipes s a) (pipe_idx (nread (pipes s a))) # pipe_q a (upd_pipe a (\<lambda>x. x\<lparr>nread := nread x + 1\<rparr>) s)"
  using assms pq.pop[of "nwrite (pipes s a)" "nread (pipes s a)" "pi_data (pipes s a)"] by (auto simp: pipe_q_def upd_pipe_def)

lemma pipe_q_empty: "pipe_q a s = [] \<longleftrightarrow> nread (pipes s a) = nwrite (pipes s a)"
  using pq.contents_Nil_iff by (auto simp: pipe_q_def)

text \<open>What the waiting loops need of the state, and that the steps around them keep it.\<close>

lemma wakeup_keeps [simp]:
  fixes s :: "'z filest_scheme"
  shows "pipes (wakeup c s) = pipes s" "mem (wakeup c s) = mem s" "p_pagetable (ptable (wakeup c s) p) = p_pagetable (ptable s p)"
    "myproc (wakeup c s) = myproc s"
  by (simp_all add: wakeup_def each_proc_def myproc_def mycpu_def cpuid_def)

lemma pipe_q_keeps [simp]: "pipe_q a (wakeup c s) = pipe_q a s" "pipe_q a (upd_proc p f s) = pipe_q a s"
  by (simp_all add: pipe_q_def upd_proc_def)

lemma uvm_inv_cong: "syms t = syms s \<Longrightarrow> mem t = mem s \<Longrightarrow> freelist t = freelist s \<Longrightarrow> refcnt t = refcnt s \<Longrightarrow> uvm_inv t R U X = uvm_inv s R U X"
  by (simp add: uvm_inv_def pts_inv_def kmem_inv_def ram_page_def free_pages_def)

lemma uvm_inv_pipes [simp]: "uvm_inv (upd_pipe a f s) R U X = uvm_inv s R U X"
  by (rule uvm_inv_cong) (simp_all add: upd_pipe_def)

lemma upd_pipe_keeps [simp]: "mem (upd_pipe a f s) = mem s" "ptable (upd_pipe a f s) = ptable s" "myproc (upd_pipe a f s) = myproc s"
  "pipes (upd_pipe a f s) = (pipes s)(a := f (pipes s a))"
  by (simp_all add: upd_pipe_def myproc_def mycpu_def cpuid_def)

lemma ubytes_Cons: "ubytes m r va (Suc n) = vbyte m r va # ubytes m r (va + 1) n"
  using ubytes_append[of m r va 1 n] by (simp add: ubytes_def)

section \<open>Writing\<close>

lemma pipewrite_loop_spec:
  fixes s :: "'z filest_scheme"
  assumes "uvm_inv s R U X" and "p_pagetable (ptable s p) \<in> R" and "length (pipe_q a s) \<le> PIPESIZE" and "myproc s = Some p"
  defines "r \<equiv> p_pagetable (ptable s p)"
  shows "\<exists>bs t. map Some bs = ubytes (mem s) r (addr + of_nat i) (length bs) \<and> length bs \<le> k \<and> pipe_q a t = pipe_q a s @ bs \<and> mem t = mem s
    \<and> length (pipe_q a t) \<le> PIPESIZE
    \<and> (pipewrite_loop p a addr i k s = Ok (of_nat (i + length bs)) t \<and> (length bs = k \<or> length bs < k \<and> \<not> uacc (mem s) r (addr + of_nat (i + length bs)))
       \<or> pipewrite_loop p a addr i k s = Ok (- 1) t \<and> (readopen (pipes s a) = 0 \<or> killed p s \<noteq> 0)
       \<or> pipewrite_loop p a addr i k s = Sleep (Ch_nwrite a) t \<and> length (pipe_q a t) = PIPESIZE \<and> length bs < k)"
  using assms(1-4) unfolding r_def
proof (induction k arbitrary: i s)
  case 0
  then show ?case by (intro exI[of _ "[]"] exI[of _ "wakeup (Some (Ch_nread a)) s"]) (simp add: ubytes_def)
next
  case (Suc k)
  let ?r = "p_pagetable (ptable s p)" and ?w = "wakeup (Some (Ch_nread a)) s"
  consider (closed) "readopen (pipes s a) = 0 \<or> killed p s \<noteq> 0"
    | (full) "\<not> (readopen (pipes s a) = 0 \<or> killed p s \<noteq> 0)" "length (pipe_q a s) = PIPESIZE"
    | (room) "\<not> (readopen (pipes s a) = 0 \<or> killed p s \<noteq> 0)" "length (pipe_q a s) < PIPESIZE" using Suc.prems(3) by linarith
  then show ?case
  proof cases
    case closed
    then show ?thesis using Suc.prems(3) by (intro exI[of _ "[]"] exI[of _ s]) (auto simp: ubytes_def)
  next
    case full
    let ?t = "upd_proc p (\<lambda>q. q\<lparr>p_chan := Some (Ch_nwrite a), p_state := SLEEPING, when_started_sleeping := ticks ?w\<rparr>) ?w"
    have "nwrite (pipes s a) = nread (pipes s a) + of_nat PIPESIZE" using full(2) pipe_q_full[OF Suc.prems(3)] by simp
    then have "pipewrite_loop p a addr i (Suc k) s = Sleep (Ch_nwrite a) ?t"
      using full(1) Suc.prems(4) by (simp add: sleep_def with_proc_def)
    moreover have "pipe_q a ?t = pipe_q a s" "mem ?t = mem s" by (simp, simp add: upd_proc_def)
    ultimately show ?thesis using full by (intro exI[of _ "[]"] exI[of _ ?t]) (simp add: ubytes_def)
  next
    case room
    have nf: "nwrite (pipes s a) \<noteq> nread (pipes s a) + of_nat PIPESIZE" using room(2) pipe_q_full[OF Suc.prems(3)] by simp
    from copyin_user[OF Suc.prems(1,2), of "addr + of_nat i" 1] obtain res cs where
      c: "copyin ?r (addr + of_nat i) 1 s = Ok (res, cs) s" "map Some cs = ubytes (mem s) ?r (addr + of_nat i) (length cs)"
        "res = 0 \<and> length cs = 1 \<or> res = - 1 \<and> length cs < 1 \<and> \<not> uacc (mem s) ?r (addr + of_nat i + of_nat (length cs))" by blast
    show ?thesis
    proof (cases "res = 0")
      case False
      then have "pipewrite_loop p a addr i (Suc k) s = Ok (of_nat i) ?w" using c room(1) nf by simp
      then show ?thesis using False c(3) Suc.prems(3) by (intro exI[of _ "[]"] exI[of _ ?w]) (auto simp: ubytes_def)
    next
      case True
      then obtain b where b: "cs = [b]" using c(3) by (cases cs) auto
      let ?s = "upd_pipe a (\<lambda>x. x\<lparr>pi_data := (pi_data x)(pipe_idx (nwrite x) := b), nwrite := nwrite x + 1\<rparr>) s"
      have l: "pipewrite_loop p a addr i (Suc k) s = pipewrite_loop p a addr (Suc i) k ?s" using c(1) room(1) nf True b by simp
      have q: "pipe_q a ?s = pipe_q a s @ [b]" by (rule pipe_q_push[OF room(2)])
      have kp: "killed p ?s = killed p s" "readopen (pipes ?s a) = readopen (pipes s a)" by (simp_all add: killed_def)
      from Suc.IH[of ?s "Suc i"] Suc.prems q room(2) obtain bs t where
        ih: "map Some bs = ubytes (mem s) ?r (addr + of_nat (Suc i)) (length bs)" "length bs \<le> k" "pipe_q a t = pipe_q a ?s @ bs" "mem t = mem s"
          "length (pipe_q a t) \<le> PIPESIZE"
          "pipewrite_loop p a addr (Suc i) k ?s = Ok (of_nat (Suc i + length bs)) t \<and> (length bs = k \<or> length bs < k \<and> \<not> uacc (mem s) ?r (addr + of_nat (Suc i + length bs)))
           \<or> pipewrite_loop p a addr (Suc i) k ?s = Sleep (Ch_nwrite a) t \<and> length (pipe_q a t) = PIPESIZE \<and> length bs < k"
        using room(1) kp by auto
      have "map Some (b # bs) = ubytes (mem s) ?r (addr + of_nat i) (length (b # bs))"
        using c(2) b ih(1) by (simp add: ubytes_Cons ubytes_def[of _ _ _ 0] add.assoc add.commute[of 1])
      then show ?thesis using ih(2-6) q unfolding l by (intro exI[of _ "b # bs"] exI[of _ t]) auto
    qed
  qed
qed

section \<open>Reading\<close>

lemma piperead_loop_spec:
  fixes s :: "'z filest_scheme"
  assumes "uvm_inv s R U X" and "p_pagetable (ptable s p) \<in> R" and "i + k \<le> 2 ^ 31"
  defines "r \<equiv> p_pagetable (ptable s p)"
  shows "\<exists>bs lost t. piperead_loop p a addr i k s = Ok (of_nat (i + length bs)) t \<and> pipe_q a s = bs @ lost @ pipe_q a t \<and> uvm_inv t R U X
    \<and> upd_bytes U r (addr + of_nat i) bs (mem s) (mem t) \<and> length bs \<le> k
    \<and> (lost = [] \<and> (length bs = k \<or> pipe_q a t = []) \<or> length lost = 1 \<and> length bs < k \<and> (uacc (mem s) r (addr + of_nat (i + length bs)) \<longrightarrow> free_pages t = {}))"
  using assms(1-3) unfolding r_def
proof (induction k arbitrary: i s)
  case 0
  let ?w = "wakeup (Some (Ch_nwrite a)) s"
  have "uvm_inv ?w R U X" using 0(1) by (subst uvm_inv_cong[of _ s]) (simp_all add: wakeup_def each_proc_def)
  then show ?case by (intro exI[of _ "[]"] exI[of _ ?w]) simp
next
  case (Suc k)
  let ?r = "p_pagetable (ptable s p)" and ?w = "\<lambda>s. wakeup (Some (Ch_nwrite a)) s"
  have ui: "uvm_inv (?w u) R U X = uvm_inv u R U X" for u :: "'z filest_scheme" by (rule uvm_inv_cong) (simp_all add: wakeup_def each_proc_def)
  have fp: "free_pages (?w u) = free_pages u" for u :: "'z filest_scheme" by (simp add: free_pages_def ram_page_def wakeup_def each_proc_def)
  show ?case
  proof (cases "nread (pipes s a) = nwrite (pipes s a)")
    case True
    then show ?thesis using Suc.prems(1) ui[of s] pipe_q_empty[of a s] by (intro exI[of _ "[]"] exI[of _ "?w s"]) simp
  next
    case False
    let ?b = "pi_data (pipes s a) (pipe_idx (nread (pipes s a)))" and ?s = "upd_pipe a (\<lambda>x. x\<lparr>nread := nread x + 1\<rparr>) s"
    have q: "pipe_q a s = ?b # pipe_q a ?s" by (rule pipe_q_pop[OF False])
    from copyout_user[of ?s R U X ?r "[?b]" "addr + of_nat i"] Suc.prems(1,2) obtain res t j where
      c: "copyout ?r (addr + of_nat i) [?b] ?s = Ok res t" "uvm_inv t R U X" "j \<le> 1"
        "res = 0 \<and> j = 1 \<or> res = - 1 \<and> j < 1 \<and> (uacc (mem s) ?r (addr + of_nat i + of_nat j) \<longrightarrow> free_pages t = {})"
        "upd_bytes U ?r (addr + of_nat i) (take j [?b]) (mem s) (mem t)" "\<forall>r' \<in> R. \<forall>x. uacc (mem t) r' x = uacc (mem s) r' x" by auto
    have te: "t = ?s\<lparr>mem := mem t, freelist := freelist t, refcnt := refcnt t\<rparr>" by (rule kmoves_eq[OF copyout_kmoves[OF c(1)]])
    have tp: "pipes t = pipes ?s" "ptable t = ptable s" by (subst te, simp)+
    have tq: "pipe_q a t = pipe_q a ?s" by (rule pipe_q_cong) (simp only: tp)
    show ?thesis
    proof (cases "res = 0")
      case f: False
      then have "piperead_loop p a addr i (Suc k) s = Ok (of_nat i) (?w t)" using False c by (simp add: Let_def)
      moreover have "upd_bytes U ?r (addr + of_nat i) [] (mem s) (mem (?w t))" using c(4,5) f by auto
      ultimately show ?thesis using f c(2,4) q tq ui[of t] fp[of t] by (intro exI[of _ "[]"] exI[of _ "[?b]"] exI[of _ "?w t"]) auto
    next
      case True
      then have l: "piperead_loop p a addr i (Suc k) s = piperead_loop p a addr (Suc i) k t" using False c(1) by (simp add: Let_def)
      from Suc.IH[of t "Suc i"] c(2) Suc.prems(2,3) tp obtain bs lost u where
        ih: "piperead_loop p a addr (Suc i) k t = Ok (of_nat (Suc i + length bs)) u" "pipe_q a t = bs @ lost @ pipe_q a u" "uvm_inv u R U X"
          "upd_bytes U ?r (addr + of_nat (Suc i)) bs (mem t) (mem u)" "length bs \<le> k"
          "lost = [] \<and> (length bs = k \<or> pipe_q a u = []) \<or> length lost = 1 \<and> length bs < k \<and> (uacc (mem t) ?r (addr + of_nat (Suc i + length bs)) \<longrightarrow> free_pages u = {})"
        by auto
      have "upd_bytes U ?r (addr + of_nat i) [?b] (mem s) (mem t)" using c(4,5) True by auto
      then have "upd_bytes U ?r (addr + of_nat i) ([?b] @ bs) (mem s) (mem u)"
        by (rule upd_bytes_append) (use ih(4,5) Suc.prems(3) in \<open>simp_all add: add.assoc add.commute[of 1]\<close>)
      then show ?thesis using ih(1,2,3,5,6) q tq c(6) Suc.prems(2) unfolding l
        by (intro exI[of _ "?b # bs"] exI[of _ lost] exI[of _ u]) auto
    qed
  qed
qed

section \<open>The pipe's contract\<close>

definition demo_file_st :: filest where
  "demo_file_st = fsst.extend (logst.extend (demo_log (\<lambda>_. replicate BSIZE 0))
     \<lparr>sb = \<lparr>sb_magic = 0x10203040, sb_size = 2000, sb_nblocks = 1954, sb_ninodes = 200, sb_nlog = 30, sb_logstart = 2, sb_inodestart = 32, sb_bmapstart = 45\<rparr>,
       inodes = (\<lambda>_. \<lparr>i_dev = 0, i_inum = 0, i_ref = 0, i_lock = initsleeplock ''inode'', i_valid = 0, i_type = 0, i_major = 0, i_minor = 0, i_nlink = 0,
         i_size = 0, i_addrs = (\<lambda>_. 0)\<rparr>)\<rparr>)
     \<lparr>files = (\<lambda>_. \<lparr>f_type = FD_NONE, f_ref = 0, f_readable = 0, f_writable = 0, f_pipe = 0, f_ip = None, f_off = 0, f_major = 0\<rparr>),
       pipes = (\<lambda>_. \<lparr>pi_data = (\<lambda>_. 42), nread = 0xffffffff, nwrite = 1, readopen = 1, writeopen = 1\<rparr>)\<rparr>"

text \<open>A process with one page of memory, and a pipe with two bytes in it whose counters are about to wrap.\<close>

lemma demo_pipe:
  "\<exists>(s :: filest) r R. uvm_inv s R {(r, 0)} (\<lambda>_. 0) \<and> r \<in> R \<and> uacc (mem s) r 0 \<and> (\<forall>x. 4096 \<le> unat x \<longrightarrow> vmap (mem s) r x = None)
     \<and> p_pagetable (ptable s 0) = r \<and> myproc s = Some 0 \<and> pipe_q 0 s = [42, 42] \<and> killed 0 s = 0 \<and> readopen (pipes s 0) = 1"
proof -
  obtain s :: kmem and r n where s: "uvm_inv s {r, n} {(r, 0)} (\<lambda>_. 0)" "uacc (mem s) r 0" "\<forall>x. 4096 \<le> unat x \<longrightarrow> vmap (mem s) r x = None"
    using demo_spaces by blast
  let ?t = "demo_file_st\<lparr>syms := syms s, mem := mem s, freelist := freelist s, refcnt := refcnt s, ptable := (\<lambda>_. demo_proc\<lparr>p_pagetable := r\<rparr>)\<rparr>"
  have "uvm_inv ?t {r, n} {(r, 0)} (\<lambda>_. 0)" using s(1) by (subst uvm_inv_cong[of _ s]) simp_all
  moreover have "myproc ?t = Some 0" using demo_log_cache(6)[of "\<lambda>_. replicate BSIZE 0"]
    by (simp add: demo_file_st_def fsst.defs logst.defs myproc_def mycpu_def cpuid_def)
  moreover have "pipe_q 0 ?t = [42, 42]" "readopen (pipes ?t 0) = 1" by (simp_all add: demo_file_st_def fsst.defs logst.defs pipe_q_def ring_list_def upt_rec)
  ultimately show ?thesis using s(2,3) by (intro exI[of _ ?t] exI[of _ r] exI[of _ "{r, n}"]) (simp add: killed_def)
qed

text \<open>C29: \<^verbatim>\<open>pipewrite\<close> appends to the queue. Called on a pipe of at most PIPESIZE bytes it never panics. The bytes it has put in are, in order, those user code sees from \<open>addr\<close> on, appended to what was there, never more than PIPESIZE in all; memory is unchanged. It returns how many: all of them, or fewer when the next address is not accessible; it returns - 1 only if the reader is gone or the process was killed; it sleeps only with the pipe full.\<close>

theorem pipewrite_appends:
  fixes s :: "'z filest_scheme"
  assumes "uvm_inv s R U X" and "p_pagetable (ptable s p) = r" "r \<in> R" and "length (pipe_q a s) \<le> PIPESIZE" and "myproc s = Some p"
  shows "\<exists>bs t. map Some bs = ubytes (mem s) r addr (length bs) \<and> length bs \<le> nat (sint n) \<and> pipe_q a t = pipe_q a s @ bs \<and> mem t = mem s
    \<and> length (pipe_q a t) \<le> PIPESIZE
    \<and> (pipewrite a addr n s = Ok (of_nat (length bs)) t \<and> (length bs = nat (sint n) \<or> length bs < nat (sint n) \<and> \<not> uacc (mem s) r (addr + of_nat (length bs)))
       \<or> pipewrite a addr n s = Ok (- 1) t \<and> (readopen (pipes s a) = 0 \<or> killed p s \<noteq> 0)
       \<or> pipewrite a addr n s = Sleep (Ch_nwrite a) t \<and> length (pipe_q a t) = PIPESIZE \<and> length bs < nat (sint n))"
proof -
  have e: "pipewrite a addr n s = pipewrite_loop p a addr 0 (nat (sint n)) s" using assms(5) by (simp add: pipewrite_def with_proc_def)
  show ?thesis using pipewrite_loop_spec[OF assms(1) _ assms(4,5), unfolded assms(2), OF assms(3), of addr 0 "nat (sint n)"] unfolding e
    by (simp only: add_0 add_0_right semiring_1_class.of_nat_0)
qed

theorem pipewrite_appends_witness:
  "\<exists>(s :: filest) bs t. pipe_q 0 s = [42, 42] \<and> pipe_q 0 t = [42, 42] @ bs \<and> length (pipe_q 0 t) \<le> PIPESIZE
    \<and> (pipewrite 0 0 5000 s = Ok (of_nat (length bs)) t \<or> pipewrite 0 0 5000 s = Sleep (Ch_nwrite 0) t \<and> length (pipe_q 0 t) = PIPESIZE)"
proof -
  obtain s :: filest and r R where s: "uvm_inv s R {(r, 0)} (\<lambda>_. 0)" "r \<in> R" "p_pagetable (ptable s 0) = r" "myproc s = Some 0" "pipe_q 0 s = [42, 42]"
    "killed 0 s = 0" "readopen (pipes s 0) = 1" using demo_pipe by blast
  have "length (pipe_q 0 s) \<le> PIPESIZE" by (simp add: s(5))
  from pipewrite_appends[OF s(1,3,2) this s(4), of 0 5000] show ?thesis using s(5-7) by (metis zero_neq_one)
qed

text \<open>C30: \<^verbatim>\<open>piperead\<close> takes from the front of the queue. It sleeps or gives up only on an empty pipe whose writer is there. Otherwise it returns the number of bytes delivered: these are the first bytes of the queue, the user memory of the process has them at \<open>addr\<close>, no other byte of user memory changed, and the rest of the queue is left, but for at most one byte: if storing a byte fails, that byte is gone. It delivers fewer than asked only if the queue is empty or storing failed.\<close>

theorem piperead_takes:
  fixes s :: "'z filest_scheme"
  assumes "uvm_inv s R U X" and "p_pagetable (ptable s p) = r" "r \<in> R" and "myproc s = Some p"
  shows "if pipe_q a s = [] \<and> writeopen (pipes s a) \<noteq> 0
    then (if killed p s \<noteq> 0 then piperead a addr n s = Ok (- 1) s else (\<exists>t. piperead a addr n s = Sleep (Ch_nread a) t \<and> pipe_q a t = []))
    else (\<exists>bs lost t. piperead a addr n s = Ok (of_nat (length bs)) t \<and> pipe_q a s = bs @ lost @ pipe_q a t \<and> uvm_inv t R U X
      \<and> upd_bytes U r addr bs (mem s) (mem t) \<and> length bs \<le> nat (sint n)
      \<and> (lost = [] \<and> (length bs = nat (sint n) \<or> pipe_q a t = [])
         \<or> length lost = 1 \<and> length bs < nat (sint n) \<and> (uacc (mem s) r (addr + of_nat (length bs)) \<longrightarrow> free_pages t = {})))"
proof -
  have n: "nat (sint n) \<le> 2 ^ 31" using sint_cint(2)[of n] by simp
  have l: "piperead a addr n s = (if pipe_q a s = [] \<and> writeopen (pipes s a) \<noteq> 0
      then (if killed p s \<noteq> 0 then Ok (- 1) s else sleep (Ch_nread a) s) else piperead_loop p a addr 0 (nat (sint n)) s)"
    using assms(4) by (simp add: piperead_def with_proc_def pipe_q_empty)
  have "\<exists>t. sleep (Ch_nread a) s = (Sleep (Ch_nread a) t :: ('z filest_scheme, cint) res) \<and> pipe_q a t = pipe_q a s"
    using assms(4) by (simp add: sleep_def with_proc_def)
  moreover have "\<exists>bs lost t. piperead_loop p a addr 0 (nat (sint n)) s = Ok (of_nat (length bs)) t \<and> pipe_q a s = bs @ lost @ pipe_q a t \<and> uvm_inv t R U X
      \<and> upd_bytes U r addr bs (mem s) (mem t) \<and> length bs \<le> nat (sint n)
      \<and> (lost = [] \<and> (length bs = nat (sint n) \<or> pipe_q a t = [])
         \<or> length lost = 1 \<and> length bs < nat (sint n) \<and> (uacc (mem s) r (addr + of_nat (length bs)) \<longrightarrow> free_pages t = {}))"
    using piperead_loop_spec[OF assms(1), of p 0 "nat (sint n)" a addr, unfolded assms(2), OF assms(3)] n by simp
  ultimately show ?thesis unfolding l by auto
qed

theorem piperead_takes_witness:
  "\<exists>(s :: filest) bs lost t. pipe_q 0 s = [42, 42] \<and> piperead 0 0 5 s = Ok (of_nat (length bs)) t \<and> [42, 42] = bs @ lost @ pipe_q 0 t"
proof -
  obtain s :: filest and r R where s: "uvm_inv s R {(r, 0)} (\<lambda>_. 0)" "r \<in> R" "p_pagetable (ptable s 0) = r" "myproc s = Some 0" "pipe_q 0 s = [42, 42]"
    using demo_pipe by blast
  from piperead_takes[OF s(1,3,2) s(4), of 0 0 5] show ?thesis using s(5) by auto
qed

end
