(* ===== verification/Trap_spec.thy ===== *)
theory Trap_spec
  imports Trap Pipe_spec
begin

text \<open>
  Going to user space and coming back. The registers of a trap frame are a record in memory: reading one after writing
  another gives what was there. On the way out the machine is set up for user mode; an alarm handler's return restores the
  registers of the interrupted code; a system call with a number that does not exist fails and changes nothing else, but for the one number that cannot be printed.
\<close>

unbundle bit_operations_syntax

section \<open>The trap frame as a record\<close>

lemma tf_off_slot: "p + tf_off r = slot p (tf_off r div 8)" "unat (tf_off r div 8) < 512"
  by (cases r; simp add: slot_def)+

lemma tf_off_inj: "tf_off r div 8 = tf_off r' div 8 \<longleftrightarrow> r = r'"
  by (cases r; cases r'; simp)

lemma tf_get_set:
  assumes "aligned (p_trapframe (ptable s p))"
  shows "tf_get p r (tf_set p r' v s) = (if r = r' then v else tf_get p r s)"
  using load64_store64_slot[OF assms assms tf_off_slot(2) tf_off_slot(2), of "mem s" r' v r]
  by (auto simp: tf_get_def tf_set_def tf_off_slot(1) tf_off_inj)

lemma tf_set_keeps [simp]:
  "ptable (tf_set p r v s) = ptable s" "csr (tf_set p r v s) = csr s" "hart (tf_set p r v s) = hart s" "satp (tf_set p r v s) = satp s"
  "syms (tf_set p r v s) = syms s" "refcnt (tf_set p r v s) = refcnt s" "cpus (tf_set p r v s) = cpus s" "mycsr (tf_set p r v s) = mycsr s"
  by (simp_all add: tf_set_def mycsr_def)

lemma upd_csr_keeps [simp]:
  "ptable (upd_csr f s) = ptable s" "hart (upd_csr f s) = hart s" "satp (upd_csr f s) = satp s" "syms (upd_csr f s) = syms s"
  "mem (upd_csr f s) = mem s" "cpus (upd_csr f s) = cpus s" "mycsr (upd_csr f s) = f (mycsr s)" "tf_get p r (upd_csr f s) = tf_get p r s"
  by (simp_all add: upd_csr_def mycsr_def tf_get_def)

lemma tf_set_other_page:
  assumes "aligned (p_trapframe (ptable s p))" and "PGROUNDDOWN x \<noteq> p_trapframe (ptable s p)"
  shows "mem (tf_set p r v s) x = mem s x"
  using store64_other_page[OF assms(1) tf_off_slot(2) assms(2)] by (simp add: tf_set_def tf_off_slot(1))

definition demo_user :: filest where
  "demo_user = demo_file_st\<lparr>ptable := (\<lambda>_. demo_proc), hart := 0, panicked := 0, cpus := (\<lambda>_. (cpus demo_harts 0)\<lparr>cpu_proc := Some 0, noff := 0\<rparr>)\<rparr>"

lemma demo_user_simps: "myproc demo_user = Some 0" "ptable demo_user = (\<lambda>_. demo_proc)" "can_print demo_user"
  by (simp_all add: demo_user_def myproc_def can_print_def mycpu_def cpuid_def)

section \<open>To user space\<close>

lemma sret_bits:
  fixes x :: u64
  defines "y \<equiv> ((x AND NOT SSTATUS_SIE) AND NOT SSTATUS_SPP) OR SSTATUS_SPIE"
  shows "\<not> has y SSTATUS_SPP" "has y SSTATUS_SPIE" "\<not> has y SSTATUS_SIE"
proof -
  have "y AND SSTATUS_SPP = 0" "y AND SSTATUS_SIE = 0" "y AND SSTATUS_SPIE = SSTATUS_SPIE"
    unfolding y_def by (simp_all add: bit.conj_disj_distrib2 and.assoc)
  then show "\<not> has y SSTATUS_SPP" "has y SSTATUS_SPIE" "\<not> has y SSTATUS_SIE" by (simp_all add: has_def)
qed

lemma off_slot: "\<not> (unat k \<le> unat d \<and> unat d < unat k + 8) \<Longrightarrow> unat k + 8 \<le> 288 \<Longrightarrow> \<not> unat (d - k) < 8" for d k :: u64
  by (auto simp: unat_sub_if')

lemma tf_set_outside: "\<not> (unat (tf_off r) \<le> unat (x - p_trapframe (ptable s p)) \<and> unat (x - p_trapframe (ptable s p)) < unat (tf_off r) + 8)
  \<Longrightarrow> mem (tf_set p r v s) x = mem s x"
proof -
  let ?d = "x - p_trapframe (ptable s p)"
  assume o: "\<not> (unat (tf_off r) \<le> unat ?d \<and> unat ?d < unat (tf_off r) + 8)"
  have "unat (tf_off r) + 8 \<le> 288" by (cases r) simp_all
  then have "\<not> unat (?d - tf_off r) < 8" by (rule off_slot[OF o])
  then show ?thesis by (simp add: tf_set_def store64_def diff_diff_eq)
qed

lemma settled_procs [simp]:
  "ptable (settled s) = ptable s" "mem (settled s) = mem s" "syms (settled s) = syms s" "satp (settled s) = satp s"
  "mycsr (settled s) = mycsr s" "tf_get p r (settled s) = tf_get p r s"
  by (simp_all add: settled_def upd_cpu_def mycsr_def tf_get_def)

text \<open>C31: \<^verbatim>\<open>usertrapret\<close> leaves the machine ready for \<^verbatim>\<open>sret\<close> into user code: it returns the page table of the current process; interrupts are off until the \<^verbatim>\<open>sret\<close>, which turns them on (SPIE) and goes to user mode (SPP clear) at the saved program counter; a trap from there enters \<^verbatim>\<open>uservec\<close>, finding the kernel's page table, the top of the process's kernel stack, \<^verbatim>\<open>usertrap\<close> and the hart in the trap frame. Nothing else changes: in memory only the bytes of these four fields; of the control registers only this hart's \<^verbatim>\<open>sstatus\<close>, \<^verbatim>\<open>stvec\<close> and \<^verbatim>\<open>sepc\<close>; and, outside any \<^verbatim>\<open>push_off\<close>, the hart's \<^verbatim>\<open>intena\<close>, in which \<^verbatim>\<open>myproc\<close> leaves the state of interrupts (\<open>settled\<close>).\<close>

theorem usertrapret_ready:
  fixes s :: "'z procs_scheme"
  assumes "myproc s = Some p" and "aligned (p_trapframe (ptable s p))" and "p_trapframe (ptable s p) \<noteq> 0" and "quiet s"
  shows "\<exists>t. usertrapret s = Ok (MAKE_SATP (p_pagetable (ptable s p))) t
    \<and> \<not> has (sstatus (mycsr t)) SSTATUS_SPP \<and> has (sstatus (mycsr t)) SSTATUS_SPIE \<and> \<not> has (sstatus (mycsr t)) SSTATUS_SIE
    \<and> tf_get p TF_kernel_satp t = satp s \<and> tf_get p TF_kernel_sp t = p_kstack (ptable s p) + PGSIZE
    \<and> tf_get p TF_kernel_trap t = sym_usertrap (syms s) \<and> tf_get p TF_kernel_hartid t = of_nat (hart s)
    \<and> (\<forall>r. r \<notin> {TF_kernel_satp, TF_kernel_sp, TF_kernel_trap, TF_kernel_hartid} \<longrightarrow> tf_get p r t = tf_get p r s)
    \<and> (\<forall>x. unat (x - p_trapframe (ptable s p)) \<notin> {0..<24} \<union> {32..<40} \<longrightarrow> mem t x = mem s x)
    \<and> t = (settled s)\<lparr>mem := mem t, csr := (csr s)(hart s := (mycsr s)\<lparr>
          stvec := TRAMPOLINE + (sym_uservec (syms s) - sym_trampoline (syms s)),
          sstatus := ((sstatus (mycsr s) AND NOT SSTATUS_SIE) AND NOT SSTATUS_SPP) OR SSTATUS_SPIE, sepc := tf_get p TF_epc s\<rparr>)\<rparr>"
proof -
  let ?u = "settled s"
  let ?s0 = "upd_csr (\<lambda>c. c\<lparr>stvec := TRAMPOLINE + (sym_uservec (syms s) - sym_trampoline (syms s))\<rparr>) (intr_off ?u)"
  let ?s1 = "tf_set p TF_kernel_satp (satp s) ?s0"
  let ?s2 = "tf_set p TF_kernel_sp (p_kstack (ptable s p) + PGSIZE) ?s1"
  let ?s3 = "tf_set p TF_kernel_trap (sym_usertrap (syms s)) ?s2"
  let ?s4 = "tf_set p TF_kernel_hartid (of_nat (hart s)) ?s3"
  let ?s5 = "upd_csr (\<lambda>c. c\<lparr>sstatus := (sstatus c AND NOT SSTATUS_SPP) OR SSTATUS_SPIE\<rparr>) ?s4"
  let ?t = "upd_csr (\<lambda>c. c\<lparr>sepc := tf_get p TF_epc ?s5\<rparr>) ?s5"
  have i: "ptable (intr_off ?u) = ptable s" "mem (intr_off ?u) = mem s" "mycsr (intr_off ?u) = (mycsr s)\<lparr>sstatus := sstatus (mycsr s) AND NOT SSTATUS_SIE\<rparr>"
    "tf_get p r (intr_off ?u) = tf_get p r s" for r by (simp_all add: intr_off_def)
  have u: "usertrapret s = Ok (MAKE_SATP (p_pagetable (ptable s p))) ?t"
    using assms(1,3) myproc_call_eq[OF assms(4)] by (simp add: usertrapret_def Let_def i intr_off_def)
  have g: "tf_get p r ?t = (if r = TF_kernel_satp then satp s else if r = TF_kernel_sp then p_kstack (ptable s p) + PGSIZE
      else if r = TF_kernel_trap then sym_usertrap (syms s) else if r = TF_kernel_hartid then of_nat (hart s) else tf_get p r s)" for r
    using assms(2) by (simp add: tf_get_set i)
  have m: "\<forall>x. unat (x - p_trapframe (ptable s p)) \<notin> {0..<24} \<union> {32..<40} \<longrightarrow> mem ?t x = mem s x"
    by (auto simp: tf_set_outside i)
  have "tf_get p TF_epc ?s5 = tf_get p TF_epc s" using assms(2) by (simp add: tf_get_set i)
  then have t: "?t = ?u\<lparr>mem := mem ?t, csr := (csr s)(hart s := (mycsr s)\<lparr>
          stvec := TRAMPOLINE + (sym_uservec (syms s) - sym_trampoline (syms s)),
          sstatus := ((sstatus (mycsr s) AND NOT SSTATUS_SIE) AND NOT SSTATUS_SPP) OR SSTATUS_SPIE, sepc := tf_get p TF_epc s\<rparr>)\<rparr>"
    by (simp add: intr_off_def upd_csr_def tf_set_def mycsr_def)
  have c: "sstatus (mycsr ?t) = ((sstatus (mycsr s) AND NOT SSTATUS_SIE) AND NOT SSTATUS_SPP) OR SSTATUS_SPIE" by (simp add: i)
  note b = sret_bits[of "sstatus (mycsr s)", folded c]
  have k: "tf_get p TF_kernel_satp ?t = satp s" "tf_get p TF_kernel_sp ?t = p_kstack (ptable s p) + PGSIZE"
    "tf_get p TF_kernel_trap ?t = sym_usertrap (syms s)" "tf_get p TF_kernel_hartid ?t = of_nat (hart s)"
    unfolding g by simp_all
  have r: "\<forall>r. r \<notin> {TF_kernel_satp, TF_kernel_sp, TF_kernel_trap, TF_kernel_hartid} \<longrightarrow> tf_get p r ?t = tf_get p r s"
    unfolding g by simp
  show ?thesis by (intro exI[of _ ?t] conjI) (rule u b k r m t)+
qed

definition demo_frame :: filest where
  "demo_frame = demo_user\<lparr>ptable := (\<lambda>_. demo_proc\<lparr>p_trapframe := 0x87ffe000\<rparr>)\<rparr>"

lemma demo_frame_simps: "myproc demo_frame = Some 0" "ptable demo_frame = (\<lambda>_. demo_proc\<lparr>p_trapframe := 0x87ffe000\<rparr>)" "quiet demo_frame" "panicked demo_frame = 0"
  by (simp_all add: demo_frame_def demo_user_def myproc_def quiet_def hart_defs)

theorem usertrapret_ready_witness:
  "\<exists>t. usertrapret demo_frame = Ok (MAKE_SATP 0) t \<and> \<not> has (sstatus (mycsr t)) SSTATUS_SPP \<and> has (sstatus (mycsr t)) SSTATUS_SPIE
    \<and> tf_get 0 TF_kernel_trap t = sym_usertrap (syms demo_frame)"
proof -
  have a: "aligned (p_trapframe (ptable demo_frame 0))" "p_trapframe (ptable demo_frame 0) \<noteq> 0" "p_pagetable (ptable demo_frame 0) = 0"
    by (simp_all add: demo_frame_simps aligned_def demo_proc_def)
  show ?thesis using usertrapret_ready[OF demo_frame_simps(1) a(1,2) demo_frame_simps(3)] unfolding a(3) by blast
qed

section \<open>Alarms\<close>

lemma tf_off_in: "i < 8 \<Longrightarrow> unat (tf_off r + of_nat i) < TRAPFRAME_SIZE"
proof -
  assume i: "i < 8"
  have "tf_off r = 8 * (tf_off r div 8)" "8 * unat (tf_off r div 8) + 8 \<le> TRAPFRAME_SIZE" by (cases r; simp)+
  then show ?thesis using slot_offset[OF tf_off_slot(2) i, of r] i by simp
qed

lemma ram_page_fits: "ram_page s p \<Longrightarrow> unat p + TRAPFRAME_SIZE \<le> 2 ^ 64"
  by (simp add: ram_page_def word_less_nat_alt)

lemma frame_page: "aligned q \<Longrightarrow> unat (x - q) < TRAPFRAME_SIZE \<Longrightarrow> PGROUNDDOWN x = q"
  using page_iff[of q x] by simp

text \<open>Copying a trap frame to another page and reading it there, or back.\<close>

lemma load_frame_copy:
  assumes "\<And>x. unat (x - p) < TRAPFRAME_SIZE \<Longrightarrow> m' x = m (q + (x - p))"
  shows "load64 m' (p + tf_off r) = load64 m (q + tf_off r)"
proof (rule bit_word_eqI)
  fix n assume "n < LENGTH(64)"
  then have "n div 8 < 8" by simp
  then have "m' (p + tf_off r + of_nat (n div 8)) = m (q + tf_off r + of_nat (n div 8))"
    using assms[of "p + tf_off r + of_nat (n div 8)"] tf_off_in[of "n div 8" r] by (simp add: add.assoc)
  then show "bit (load64 m' (p + tf_off r)) n = bit (load64 m (q + tf_off r)) n" by (simp add: bit_load64)
qed

lemma alarm_fires:
  fixes s :: "'z procs_scheme"
  assumes "kmem_inv s" and "free_pages s \<noteq> {}" and "ram_page s (p_trapframe (ptable s p))" and "p_trapframe (ptable s p) \<notin> free_pages s"
    and "alarm_flag (ptable s p) = 0" and "alarm_ticks_left (ptable s p) = 1"
  obtains q t where "alarm_tick p s = Ok () t" and "q \<in> free_pages s" and "q \<noteq> p_trapframe (ptable s p)"
    and "ptable t = (ptable s)(p := (ptable s p)\<lparr>alarm_flag := 1, alarm_saved_tf := q, alarm_ticks_left := alarm_ticks (ptable s p)\<rparr>)"
    and "syms t = syms s" and "refcnt t (page_number q) = 1" and "tf_get p TF_epc t = alarm_handler (ptable s p)" and "\<And>r. r \<noteq> TF_epc \<Longrightarrow> tf_get p r t = tf_get p r s"
    and "\<And>x. unat (x - q) < TRAPFRAME_SIZE \<Longrightarrow> mem t x = mem s (p_trapframe (ptable s p) + (x - q))"
proof -
  let ?tf = "p_trapframe (ptable s p)"
  let ?s1 = "upd_proc p (\<lambda>q. q\<lparr>alarm_flag := 1\<rparr>) (upd_proc p (\<lambda>q. q\<lparr>alarm_ticks_left := alarm_ticks_left q - 1\<rparr>) s)"
  have f: "free_pages ?s1 = free_pages s" by (simp add: free_pages_def ram_page_def upd_proc_def)
  have "kmem_inv ?s1" using assms(1) unfolding kmem_inv_def f by (simp add: ram_page_def upd_proc_def)
  then obtain q where q: "q \<in> free_pages s" "kalloc ?s1 = Ok q (taken q ?s1)" using assms(2) by (cases rule: kalloc_cases) (auto simp: f)
  have qn: "q \<noteq> ?tf" "aligned q" "ram_page s q" "q \<noteq> 0" using q(1) assms(4) free_page[OF q(1)] assms(1) by auto
  have ta: "aligned ?tf" using assms(3) by (rule ram_page_aligned)
  let ?m = "memmove (mem (taken q ?s1)) q ?tf TRAPFRAME_SIZE"
  let ?s2 = "(taken q ?s1)\<lparr>mem := ?m, ptable := (ptable s)(p := (ptable s p)\<lparr>alarm_flag := 1, alarm_saved_tf := q, alarm_ticks_left := alarm_ticks (ptable s p)\<rparr>)\<rparr>"
  let ?t = "tf_set p TF_epc (alarm_handler (ptable s p)) ?s2"
  have mm: "?m x = (if unat (x - q) < TRAPFRAME_SIZE then mem s (?tf + (x - q)) else if PGROUNDDOWN x = q then 5 else mem s x)" for x
  proof -
    have "PGROUNDDOWN (?tf + (x - q)) = ?tf" if "unat (x - q) < TRAPFRAME_SIZE" using frame_page[OF ta, of "?tf + (x - q)"] that by simp
    then show ?thesis using qn(1) unfolding memmove_copies[OF ram_page_fits[OF assms(3)] ram_page_fits[OF qn(3)]] by (auto simp: upd_proc_def)
  qed
  have gl: "load64 ?m (?tf + tf_off r) = load64 (mem s) (?tf + tf_off r)" for r
  proof (rule load64_cong)
    fix i :: nat assume i: "i < 8"
    have "PGROUNDDOWN (?tf + tf_off r + of_nat i) = ?tf" using frame_page[OF ta, of "?tf + tf_off r + of_nat i"] tf_off_in[OF i, of r] by (simp add: add.assoc)
    then show "?m (?tf + tf_off r + of_nat i) = mem s (?tf + tf_off r + of_nat i)"
      using qn(1) frame_page[OF qn(2), of "?tf + tf_off r + of_nat i"] unfolding mm by auto
  qed
  have gt: "tf_get p r ?s2 = tf_get p r s" for r using gl[of r] by (simp add: tf_get_def)
  have "alarm_tick p s = Ok () ?t"
    using assms(5,6) q(2) qn(4) by (simp add: alarm_tick_def Let_def) (simp add: upd_proc_def taken_def)
  moreover have "tf_get p r ?t = (if r = TF_epc then alarm_handler (ptable s p) else tf_get p r s)" for r
    using tf_get_set[of ?s2 p r TF_epc] ta gt by simp
  moreover have "mem ?t x = mem s (?tf + (x - q))" if "unat (x - q) < TRAPFRAME_SIZE" for x
    using tf_set_other_page[of ?s2 p x] ta qn(1) frame_page[OF qn(2) that] mm[of x] that by simp
  ultimately show thesis using q(1) qn(1) by (intro that[of ?t q]) (simp_all add: upd_proc_def)
qed

lemma sys_sigreturn_frame:
  fixes u :: "'z procs_scheme"
  assumes "myproc u = Some p" and "ram_page u (p_trapframe (ptable u p))" and "alarm_saved_tf (ptable u p) = q" and "ram_page u q"
    and "q \<noteq> p_trapframe (ptable u p)" and "refcnt u (page_number q) = 1"
  shows "\<exists>v. sys_sigreturn u = Ok (scast (ucast (load64 (mem u) (q + tf_off TF_a0)) :: cint)) v
    \<and> (\<forall>r. tf_get p r v = load64 (mem u) (q + tf_off r)) \<and> alarm_flag (ptable v p) = 0 \<and> q \<in> free_pages v"
proof -
  let ?tf = "p_trapframe (ptable u p)"
  let ?u1 = "u\<lparr>mem := memmove (mem u) ?tf q TRAPFRAME_SIZE\<rparr>"
  let ?v = "upd_proc p (\<lambda>q. q\<lparr>alarm_flag := 0\<rparr>) (released q ?u1)"
  have a: "aligned ?tf" "aligned q" using assms(2,4) by (simp_all add: ram_page_aligned)
  have "mem (released q ?u1) x = mem u (q + (x - ?tf))" if "unat (x - ?tf) < TRAPFRAME_SIZE" for x
    using that frame_page[OF a(1) that] assms(5) mem_released_other[OF a(2), of x ?u1]
    by (simp add: memmove_copies[OF ram_page_fits[OF assms(4)] ram_page_fits[OF assms(2)]])
  then have l: "load64 (mem (released q ?u1)) (?tf + tf_off r) = load64 (mem u) (q + tf_off r)" for r by (rule load_frame_copy)
  have g: "tf_get p r ?v = load64 (mem u) (q + tf_off r)" for r
    using l[of r] by (simp add: tf_get_def upd_proc_def released_def)
  have "kfree q ?u1 = Ok () (released q ?u1)" using kfree_ram[of ?u1 q] assms(4,6) by (simp add: ram_page_def)
  then have "sys_sigreturn u = Ok (scast (ucast (tf_get p TF_a0 ?v) :: cint)) ?v"
    using assms(1,3) by (simp add: sys_sigreturn_def with_proc_def Let_def)
  moreover have "q \<in> free_pages ?v" using assms(4) by (simp add: free_pages_def ram_page_def upd_proc_def)
  ultimately show ?thesis using g by (intro exI[of _ ?v]) (simp add: upd_proc_def)
qed

text \<open>C32: An alarm and its return. When the alarm of a process fires, the process goes on at its handler, with every other register as it was and a copy of its trap frame kept in a fresh page. From any later state in which the process still has that page, unchanged and unshared, \<^verbatim>\<open>sigreturn\<close> succeeds, puts back every register the interrupted code had, the program counter included, allows the next alarm and frees the page. Its result, which the dispatcher stores into a0, is only the sign-extended low half of the interrupted a0.\<close>

theorem sigreturn_restores:
  fixes s :: "'z procs_scheme"
  assumes "kmem_inv s" and "free_pages s \<noteq> {}" and "ram_page s (p_trapframe (ptable s p))" and "p_trapframe (ptable s p) \<notin> free_pages s"
    and "alarm_flag (ptable s p) = 0" and "alarm_ticks_left (ptable s p) = 1"
  shows "\<exists>q t. alarm_tick p s = Ok () t \<and> q \<in> free_pages s \<and> refcnt t (page_number q) = 1 \<and> alarm_saved_tf (ptable t p) = q
    \<and> alarm_flag (ptable t p) = 1 \<and> alarm_ticks_left (ptable t p) = alarm_ticks (ptable s p)
    \<and> tf_get p TF_epc t = alarm_handler (ptable s p) \<and> (\<forall>r. r \<noteq> TF_epc \<longrightarrow> tf_get p r t = tf_get p r s)
    \<and> (\<forall>u :: 'z procs_scheme. myproc u = Some p \<and> syms u = syms t \<and> p_trapframe (ptable u p) = p_trapframe (ptable t p)
        \<and> alarm_saved_tf (ptable u p) = q \<and> refcnt u (page_number q) = 1 \<and> (\<forall>x. PGROUNDDOWN x = q \<longrightarrow> mem u x = mem t x)
      \<longrightarrow> (\<exists>v. sys_sigreturn u = Ok (scast (ucast (tf_get p TF_a0 s) :: cint)) v \<and> (\<forall>r. tf_get p r v = tf_get p r s)
            \<and> alarm_flag (ptable v p) = 0 \<and> q \<in> free_pages v))"
proof (rule alarm_fires[OF assms])
  fix q t
  let ?tf = "p_trapframe (ptable s p)"
  assume t: "alarm_tick p s = Ok () t" "q \<in> free_pages s" "q \<noteq> ?tf"
    "ptable t = (ptable s)(p := (ptable s p)\<lparr>alarm_flag := 1, alarm_saved_tf := q, alarm_ticks_left := alarm_ticks (ptable s p)\<rparr>)"
    "syms t = syms s" "refcnt t (page_number q) = 1" "tf_get p TF_epc t = alarm_handler (ptable s p)"
    "\<And>r. r \<noteq> TF_epc \<Longrightarrow> tf_get p r t = tf_get p r s" "\<And>x. unat (x - q) < TRAPFRAME_SIZE \<Longrightarrow> mem t x = mem s (?tf + (x - q))"
  have q: "ram_page s q" "aligned q" using free_page[OF t(2)] by simp_all
  have "\<exists>v. sys_sigreturn u = Ok (scast (ucast (tf_get p TF_a0 s) :: cint)) v \<and> (\<forall>r. tf_get p r v = tf_get p r s)
      \<and> alarm_flag (ptable v p) = 0 \<and> q \<in> free_pages v"
    if u: "myproc u = Some p" "syms u = syms t" "p_trapframe (ptable u p) = p_trapframe (ptable t p)" "alarm_saved_tf (ptable u p) = q"
      "refcnt u (page_number q) = 1" "\<forall>x. PGROUNDDOWN x = q \<longrightarrow> mem u x = mem t x" for u :: "'z procs_scheme"
  proof -
    have l: "load64 (mem u) (q + tf_off r) = tf_get p r s" for r unfolding tf_get_def
      using t(9) u(6) frame_page[OF q(2)] by (intro load_frame_copy) simp
    have "ram_page u (p_trapframe (ptable u p))" "ram_page u q" "q \<noteq> p_trapframe (ptable u p)"
      using u(2,3) t(3,4,5) q(1) assms(3) by (simp_all add: ram_page_def)
    from sys_sigreturn_frame[OF u(1) this(1) u(4) this(2,3) u(5)] show ?thesis unfolding l .
  qed
  then show ?thesis using t(1,2,4,6,7,8) by (intro exI[of _ q] exI[of _ t]) simp
qed

lemma demo_alarm:
  "\<exists>s :: filest. kmem_inv s \<and> free_pages s \<noteq> {} \<and> ram_page s (p_trapframe (ptable s 0)) \<and> p_trapframe (ptable s 0) \<notin> free_pages s
     \<and> alarm_flag (ptable s 0) = 0 \<and> alarm_ticks_left (ptable s 0) = 1"
proof -
  obtain s :: kmem where s: "kmem_inv s" "free_pages s = {p. aligned p \<and> sym_end demo_linker \<le> p \<and> p < PHYSTOP}"
    using booted_memory[of demo_linker "()"] by (auto simp: demo_linker_def)
  have two: "0x87ffe000 \<in> free_pages s" "0x87ffd000 \<in> free_pages s" unfolding s(2) by (simp_all add: demo_linker_def aligned_def)
  obtain p where p: "p \<in> free_pages s" "kmem_inv (taken p s)" using two by (rule_tac kalloc_cases[OF s(1)]) auto
  let ?k = "taken p s"
  let ?t = "demo_user\<lparr>syms := syms ?k, mem := mem ?k, freelist := freelist ?k, refcnt := refcnt ?k,
    ptable := (\<lambda>_. demo_proc\<lparr>p_trapframe := p, alarm_ticks_left := 1\<rparr>)\<rparr>"
  have r: "ram_page ?t q = ram_page ?k q" for q by (simp add: ram_page_def)
  have f: "free_pages ?t = free_pages ?k" by (simp add: free_pages_def ram_page_def)
  have k: "free_pages ?k = free_pages s - {p}" using free_page(1)[OF p(1)] by (rule free_pages_taken)
  have i: "kmem_inv ?t" using p(2) unfolding kmem_inv_def r f by simp
  have "free_pages s - {p} \<noteq> {}"
  proof (cases "p = 0x87ffe000")
    case True
    then have "0x87ffd000 \<in> free_pages s - {p}" using two(2) by simp
    then show ?thesis by blast
  next
    case False
    then show ?thesis using two(1) by blast
  qed
  then have "free_pages ?t \<noteq> {}" "p \<notin> free_pages ?t" unfolding f k by auto
  moreover have "ram_page ?t p" unfolding r using free_page(1)[OF p(1)] by (simp add: ram_page_def)
  ultimately show ?thesis using i by (intro exI[of _ ?t]) (simp add: demo_proc_def)
qed

theorem sigreturn_restores_witness:
  "\<exists>(s :: filest) q t. kmem_inv s \<and> alarm_tick 0 s = Ok () t \<and> q \<in> free_pages s \<and> alarm_saved_tf (ptable t 0) = q
     \<and> tf_get 0 TF_epc t = alarm_handler (ptable s 0)"
proof -
  obtain s :: filest where s: "kmem_inv s" "free_pages s \<noteq> {}" "ram_page s (p_trapframe (ptable s 0))" "p_trapframe (ptable s 0) \<notin> free_pages s"
    "alarm_flag (ptable s 0) = 0" "alarm_ticks_left (ptable s 0) = 1" using demo_alarm by blast
  from sigreturn_restores[OF s] s(1) show ?thesis by blast
qed

section \<open>Numbers without a system call\<close>

lemma syscalls_None: "num \<notin> {1..27} \<Longrightarrow> syscalls pad junk num = None"
  by (auto simp: syscalls_def)

abbreviation (input) INT_MIN :: int where "INT_MIN \<equiv> - (2 ^ 31)"

text \<open>The line \<^verbatim>\<open>syscall\<close> prints for a number it does not know.\<close>

abbreviation (input) unknown_line :: "nat \<Rightarrow> 'z procs_scheme \<Rightarrow> u8 list option" where
  "unknown_line p s \<equiv> format (bstr ''%d %s: unknown sys call %d'' @ [10])
     [P_int (p_pid (ptable s p)), P_str (Some (cstr (p_name (ptable s p)))), P_int (ucast (tf_get p TF_a7 s))]"

lemma unknown_line_None:
  "unknown_line p s = None \<longleftrightarrow> sint (p_pid (ptable s p)) = INT_MIN \<or> sint (ucast (tf_get p TF_a7 s) :: cint) = INT_MIN"
  "unknown_line p s \<noteq> Some []"
  using printint_buf_None[of "p_pid (ptable s p)" 10 True] printint_buf_None[of "ucast (tf_get p TF_a7 s)" 10 True]
  by (auto simp: bstr_def printint_def bind_eq_None_conv bind_eq_Some_conv)

text \<open>C33: A system call number outside the table, negative numbers included, is harmless but for one: \<^verbatim>\<open>syscall\<close> prints a line and returns with - 1 in a0. Nothing else changes: every other register of the process, the control registers of every hart and the rest of the kernel state are as before, except that outside any \<^verbatim>\<open>push_off\<close> the hart's \<^verbatim>\<open>intena\<close> holds the state of interrupts (\<open>settled\<close>). The one exception is the least \<^verbatim>\<open>int\<close>: printing it has no meaning in C. It is assumed that the process's pid can be printed, that the kernel has not panicked and that interrupts are off inside \<^verbatim>\<open>push_off\<close>.\<close>

theorem unknown_syscall:
  fixes s :: "'z filest_scheme"
  assumes "myproc s = Some p" and "aligned (p_trapframe (ptable s p))" and "quiet s" and "panicked s = 0" and "sint (p_pid (ptable s p)) \<noteq> INT_MIN"
    and "sint (ucast (tf_get p TF_a7 s) :: cint) \<notin> {1..27}"
  shows "if sint (ucast (tf_get p TF_a7 s) :: cint) = INT_MIN then syscall pad junk s = Undef ''arguments of printf''
    else \<exists>out t. unknown_line p s = Some out \<and> syscall pad junk s = Ok True t
      \<and> t = tf_set p TF_a0 (- 1) ((settled s)\<lparr>uart_tx := uart_tx s @ out\<rparr>)
      \<and> tf_get p TF_a0 t = - 1 \<and> (\<forall>r. r \<noteq> TF_a0 \<longrightarrow> tf_get p r t = tf_get p r s) \<and> csr t = csr s"
proof -
  let ?num = "ucast (tf_get p TF_a7 s) :: cint"
  have n: "(if 0 < sint ?num then syscalls pad junk (nat (sint ?num)) else None) = None"
    using assms(6) by (auto intro!: syscalls_None)
  have run: "syscall pad junk s = bnd (printf (bstr ''%d %s: unknown sys call %d'' @ [10])
      [P_int (p_pid (ptable s p)), P_str (Some (cstr (p_name (ptable s p)))), P_int ?num] s) (\<lambda>_ s. Ok True (tf_set p TF_a0 (- 1) s))"
    using assms(1) unfolding syscall_def with_proc_def Let_def by (simp only: n option.case)
  show ?thesis
  proof (cases "sint ?num = INT_MIN")
    case True
    then have "unknown_line p s = None" using unknown_line_None(1)[where p = p and s = s] by blast
    then show ?thesis using True unfolding run printf_def by simp
  next
    case False
    then obtain out where o: "unknown_line p s = Some out" "out \<noteq> []" using unknown_line_None[where p = p and s = s] assms(5) by (cases "unknown_line p s") auto
    let ?u = "(settled s)\<lparr>uart_tx := uart_tx s @ out\<rparr>"
    have "aligned (p_trapframe (ptable ?u p))" "tf_get p r ?u = tf_get p r s" for r using assms(2) by (simp_all add: tf_get_def)
    then have "tf_get p r (tf_set p TF_a0 (- 1) ?u) = (if r = TF_a0 then - 1 else tf_get p r s)" for r using tf_get_set[of ?u p] by simp
    moreover have "syscall pad junk s = Ok True (tf_set p TF_a0 (- 1) ?u)" unfolding run printf_quiet[OF assms(3,4) o] by simp
    ultimately show ?thesis using False o(1) by simp
  qed
qed

theorem unknown_syscall_witness:
  "\<exists>t. syscall [] (0, 0) (demo_frame\<lparr>mem := (\<lambda>_. 255)\<rparr>) = Ok True t \<and> tf_get 0 TF_a0 t = - 1 \<and> csr t = csr demo_frame"
proof -
  let ?s = "demo_frame\<lparr>mem := (\<lambda>_. 255)\<rparr>"
  have "load64 (\<lambda>_. 255) a = 0xffffffffffffffff" for a by (simp add: load64_def mread_def word_rcat_def upt_rec)
  then have n: "sint (ucast (tf_get 0 TF_a7 ?s) :: cint) = - 1" by (simp add: tf_get_def)
  have "myproc ?s = Some 0" "quiet ?s" "panicked ?s = 0"
    using demo_frame_simps by (simp_all add: myproc_def quiet_def hart_defs)
  moreover have "aligned (p_trapframe (ptable ?s 0))" "sint (p_pid (ptable ?s 0)) \<noteq> INT_MIN" by (simp_all add: demo_frame_simps demo_proc_def aligned_def)
  ultimately show ?thesis using unknown_syscall[of ?s 0 "[]" "(0, 0)"] n by auto
qed

end
