(* ===== verification/Spec2Isabelle.thy ===== *)
theory Spec2Isabelle
  imports Vm_spec Log_ops Trap_spec
begin

text \<open>
  A verification development of the xv6-cos kernel, \<^verbatim>\<open>src/kernel\<close>: a small Unix for RISC-V with copy-on-write fork, four
  schedulers, system call tracing and alarms added to xv6.

  \<^bold>\<open>The program and its model.\<close> A kernel function is a function from the kernel state to an outcome (theory \<open>Prelude\<close>): \<open>Ok v t\<close>
  returns \<open>v\<close> in the state \<open>t\<close>; \<open>Panic msg\<close> is a call of \<^verbatim>\<open>panic\<close>; \<open>Sleep ch t\<close> gives up the processor on a channel
  and leaves the state \<open>t\<close> to the other processes; \<open>Undef msg\<close> marks what C gives no
  meaning: a null pointer, an index out of range, an overflow of signed arithmetic. The state is one record, extended component by
  component in the order of the calls: \<open>kmem\<close> (memory, free list, reference counts), \<open>kvm\<close>, \<open>harts\<close>, \<open>procs\<close>, \<open>conss\<close>, \<open>bcache\<close>, \<open>vdisk\<close>,
  \<open>logst\<close>, \<open>fsst\<close>, \<open>filest\<close>, \<open>kst\<close>; every operation is polymorphic in what later components add. Integers are words of their width,
  pointers into tables are indices, and page tables, trap frames and the free list are bytes of physical memory.

  \<^bold>\<open>Theories.\<close>
  \<^item> \<open>Prelude\<close>, \<open>Riscv\<close>, \<open>Memory\<close>, \<open>Bytes\<close>, \<open>Float32\<close>: outcomes and loops; \<^verbatim>\<open>riscv.h\<close> and \<^verbatim>\<open>memlayout.h\<close>; bytes, doublewords and the
    routines of \<^verbatim>\<open>string.c\<close>; integers in buffers; single-precision arithmetic.
  \<^item> \<open>Refcount\<close> (locale \<open>refcounted\<close>), \<open>Ring\<close> (locale \<open>ring\<close>), and the locale \<open>invariant_system\<close> of \<open>Prelude\<close>: the contracts that
    several components share. They are interpreted on the page allocator (\<open>pages\<close>), on the console's input and the UART's output
    (\<open>cr\<close>, \<open>ur\<close>), on pipes (\<open>pq\<close>) and on the spin locks (\<open>spin\<close>).
  \<^item> \<open>Kalloc\<close>: \<^verbatim>\<open>kalloc.c\<close>. The free list threaded through memory is the set of pages without references.
  \<^item> \<open>Vm\<close>: every function of \<^verbatim>\<open>vm.c\<close> and \<^verbatim>\<open>cowfault\<close> of \<^verbatim>\<open>trap.c\<close>. \<open>Vm_table\<close> and \<open>Vm_map\<close> turn page tables into maps from addresses to
    entries; \<open>Vm_user\<close> counts the references to user pages and says which pages nothing accounts for (\<open>lost\<close>); \<open>Vm_ops\<close>, \<open>Vm_grow\<close>,
    \<open>Vm_cow\<close> and \<open>Vm_copy\<close> derive the effect of the operations, and \<open>Vm_spec\<close> states their contracts.
  \<^item> \<open>Spinlock\<close>, \<open>Sleeplock\<close>, \<open>Printf\<close>: \<^verbatim>\<open>spinlock.c\<close>, \<^verbatim>\<open>sleeplock.c\<close>, \<^verbatim>\<open>printf.c\<close>.
  \<^item> \<open>Proc\<close>, \<open>Sched\<close>, \<open>Fork\<close>: \<^verbatim>\<open>proc.c\<close>: the process table, one turn of each scheduler, fork and exit. \<open>Exec\<close>: \<^verbatim>\<open>exec.c\<close>.
  \<^item> \<open>Console\<close>: \<^verbatim>\<open>console.c\<close> and \<^verbatim>\<open>uart.c\<close>. \<open>Virtio\<close>: \<^verbatim>\<open>virtio_disk.c\<close>, with the device a parameter.
  \<^item> \<open>Bio\<close>, \<open>Bio_ring\<close>, \<open>Bio_spec\<close>: \<^verbatim>\<open>bio.c\<close>, its ring of buffers as a list, and what a reader of a block sees. The cache calls the
    driver through the abstract transfer \<open>virtio_disk_rw\<close>, which the driver is shown to implement.
  \<^item> \<open>Log\<close>, \<open>Log_spec\<close>, \<open>Log_ops\<close>: \<^verbatim>\<open>log.c\<close>, its crash safety, and the calls that share it.
  \<^item> \<open>Fs\<close>, \<open>Dir\<close>: \<^verbatim>\<open>fs.c\<close>. \<open>File\<close>, \<open>Pipe_spec\<close>: \<^verbatim>\<open>file.c\<close> and \<^verbatim>\<open>pipe.c\<close>. \<open>Sysfile\<close>, \<open>Syscall\<close>: \<^verbatim>\<open>sysfile.c\<close>, \<^verbatim>\<open>sysproc.c\<close> and
    \<^verbatim>\<open>syscall.c\<close>. \<open>Trap\<close>, \<open>Trap_spec\<close>: \<^verbatim>\<open>trap.c\<close>, \<^verbatim>\<open>plic.c\<close> and \<^verbatim>\<open>main.c\<close>.

  \<^bold>\<open>What the theorems show.\<close>
  \<^item> Memory: \<^verbatim>\<open>kalloc\<close> and \<^verbatim>\<open>kfree\<close> in every case, the balance of references over any run, and the boot (C3 to C6); growing and
    shrinking a process without leaking a page, sharing on fork, the private copy of a write fault (C7 to C10); the copies between
    the kernel and user memory touch exactly the bytes user code may access (C11 to C14).
  \<^item> Log: a crash at any write of a commit, followed by recovery, gives all or nothing (C1); the space set aside is enough if
    the log area has room for LOGSIZE blocks and the header (C2), which the size \<^verbatim>\<open>mkfs\<close> chooses does not give (C28); what \<^verbatim>\<open>log_write\<close> records (C27).
  \<^item> Locks and processors: mutual exclusion of spin locks under any interleaving of harts (C15); what each scheduler
    chooses and where it has no meaning (C16 to C21); the way to user space, alarms, unknown system calls (C31 to C33).
  \<^item> Devices: the disk driver implements the transfer the cache relies on (C22); the console's line discipline and output
    stream (C23, C24); printed numbers (C25, C26); pipes are queues (C29, C30).

  Other theories carry the model and the lemmas on which these rest. The file system above the log, open files, \<^verbatim>\<open>exec\<close> and most
  system calls are modelled in full, without theorems of their own yet.

  \<^bold>\<open>Bounds and fuel.\<close> A loop over a table or a range runs over the list of its indices, or for a number of rounds computed from
  the bounds the C code compares. Where a bound is chosen, it is enough: \<^verbatim>\<open>freewalk\<close> has the three levels of Sv39; a search of the
  buffer ring has NBUF + 1 steps, which reach the head of a well-formed ring; \<^verbatim>\<open>free_chain\<close> has NUM rounds, since a descriptor can be freed once; \<^verbatim>\<open>^U\<close>
  has as many rounds as the line has characters, and the UART handler one more than there are bytes received. Theorems that a loop
  returns say so as \<open>\<exists>t. f s = Ok v t\<close>.

  \<^bold>\<open>Simplifications.\<close>
  \<^item> A call is one step: the locks that only protect a component's own data (\<^verbatim>\<open>kmem.lock\<close>, \<^verbatim>\<open>log.lock\<close>, \<^verbatim>\<open>bcache.lock\<close>, \<^verbatim>\<open>pr.lock\<close>, \<^verbatim>\<open>pi->lock\<close>, the
    locks of the process and file tables) are left out of these calls. The two critical sections of \<^verbatim>\<open>kfree\<close> are one step, and so are \<^verbatim>\<open>end_op\<close>
    and the commit it makes; \<open>Kalloc\<close> and \<open>Log\<close> say why nothing can come in between. Interleaving is modelled for the spin
    locks themselves (\<open>lock_step\<close>), for the calls that share the log (\<open>log_step\<close>) and, in the schedulers, as the list of locks held.
  \<^item> \<open>myproc\<close> is the value of \<^verbatim>\<open>myproc()\<close>. Its \<^verbatim>\<open>push_off\<close> and \<^verbatim>\<open>pop_off\<close> are in \<open>myproc_call\<close>, with a proof that all they leave behind is
    \<^verbatim>\<open>intena\<close> at depth 0, which the next \<^verbatim>\<open>push_off\<close> overwrites.
  \<^item> \<^verbatim>\<open>satp\<close> is one value, since every hart installs the same kernel page table.
  \<^item> Counters that overflow only after \<open>2 ^ 31\<close> events (\<^verbatim>\<open>nextpid\<close>, \<^verbatim>\<open>noff\<close>, \<^verbatim>\<open>outstanding\<close>) wrap; where a theorem needs it, it
    assumes them in range. Raising a page's count, negating a number to print it and the priority arithmetic are \<open>Undef\<close> on overflow.

  \<^bold>\<open>Not modelled.\<close> The assembly files and \<^verbatim>\<open>start.c\<close>: machine-mode registers, register saves, the context switch. What runs after \<^verbatim>\<open>swtch\<close>
  is the function that is called next. \<^verbatim>\<open>mlfqueue.c\<close> belongs to a scheduler that the boot refuses to run; \<^verbatim>\<open>ramdisk.c\<close> is not built. User programs and
  tests end at the system call interface. \<^verbatim>\<open>mkfs\<close> is a host program; its choice of the log size appears in C28.
\<close>

end
